(* ===== verification/Frank_Prelude.thy ===== *)
theory Frank_Prelude
  imports Main "HOL-Library.Multiset" "HOL-Library.Char_ord" "HOL-Library.List_Lexorder"
begin

text \<open>
  Shared vocabulary of the development: the types that stand for Go's strings, byte
  slices, errors and timestamps, the outcome type of code that can panic or block,
  the schedules that order the completion of goroutines, and the generic lemmas on
  lists, association lists and orders that the component theories share.
\<close>

section \<open>Types\<close>

text \<open>
  A Go string is a sequence of bytes, and so is a \<open>char list\<close>: \<open>char\<close> is an
  8-bit code and the lexicographic order on \<open>char list\<close> is Go's order on strings
  and the order of \<open>bytes.Compare\<close>.
\<close>

type_synonym bytes = "char list"
type_synonym Time = int
type_synonym LabelName = string
type_synonym LabelValue = string

text \<open>An \<open>error\<close> value is its message; a nil error is \<open>None\<close>.\<close>

datatype err = Err (msg: string)

text \<open>
  What a call does: it returns a value, the goroutine panics, or it blocks forever. An
  ordinary Go error is part of the returned value (\<open>err + 'a\<close>, or \<open>err option\<close>).
\<close>

datatype 'a go = Ret 'a | Panic string | Blocked

definition bind_go :: "'a go \<Rightarrow> ('a \<Rightarrow> 'b go) \<Rightarrow> 'b go" where
  "bind_go x f = (case x of Ret a \<Rightarrow> f a | Panic s \<Rightarrow> Panic s | Blocked \<Rightarrow> Blocked)"

text \<open>Sequencing of a call that returns \<open>(T, error)\<close>: \<open>if err != nil { return err }\<close>.\<close>

definition bind_err :: "(err + 'a) go \<Rightarrow> ('a \<Rightarrow> (err + 'b) go) \<Rightarrow> (err + 'b) go" where
  "bind_err x f = bind_go x (\<lambda>r. case r of Inl e \<Rightarrow> Ret (Inl e) | Inr a \<Rightarrow> f a)"

fun is_nil :: "err option \<Rightarrow> bool" where
  "is_nil None = True"
| "is_nil (Some e) = False"

section \<open>Lemma collections\<close>

named_theorems go_simps "rewriting of the outcome type"
named_theorems wf_intros "introduction rules for the invariants of the model's data"

lemma bind_go_simps [simp, go_simps]:
  "bind_go (Ret a) f = f a"
  "bind_go (Panic s) f = Panic s"
  "bind_go Blocked f = Blocked"
  by (simp_all add: bind_go_def)

lemma bind_err_simps [simp, go_simps]:
  "bind_err (Ret (Inr a)) f = f a"
  "bind_err (Ret (Inl e)) f = Ret (Inl e)"
  "bind_err (Panic s) f = Panic s"
  "bind_err Blocked f = Blocked"
  by (simp_all add: bind_err_def)

lemma bind_go_eq_Ret [go_simps]:
  "bind_go x f = Ret b \<longleftrightarrow> (\<exists>a. x = Ret a \<and> f a = Ret b)"
  by (cases x) simp_all

lemma bind_err_eq_Inr [go_simps]:
  "bind_err x f = Ret (Inr b) \<longleftrightarrow> (\<exists>a. x = Ret (Inr a) \<and> f a = Ret (Inr b))"
proof (cases x)
  case (Ret r)
  then show ?thesis by (cases r) simp_all
qed simp_all

section \<open>Schedules of goroutines\<close>

text \<open>
  A function that starts one goroutine per element of a slice and then receives one
  message per element sees the messages in an order the scheduler chooses. A schedule
  gives, for \<open>n\<close> goroutines, the order in which they complete; \<open>permute\<close> lists a
  slice in that order. A schedule is fair if every goroutine completes exactly once.
\<close>

type_synonym schedule = "nat \<Rightarrow> nat list"

definition permute :: "schedule \<Rightarrow> 'a list \<Rightarrow> 'a list" where
  "permute s xs = map (\<lambda>i. xs ! i) (s (length xs))"

definition fair :: "schedule \<Rightarrow> bool" where
  "fair s \<longleftrightarrow> (\<forall>n. mset (s n) = mset [0..<n])"

definition in_order :: schedule where
  "in_order n = [0..<n]"

definition in_reverse :: schedule where
  "in_reverse n = rev [0..<n]"

lemma fair_in_order [simp, wf_intros]: "fair in_order"
  by (simp add: fair_def in_order_def)

lemma fair_in_reverse [simp, wf_intros]: "fair in_reverse"
  by (simp add: fair_def in_reverse_def)

lemma permute_in_order [simp]: "permute in_order xs = xs"
  by (simp add: permute_def in_order_def map_nth)

lemma mset_permute: "fair s \<Longrightarrow> mset (permute s xs) = mset xs"
proof -
  assume "fair s"
  then have "mset (permute s xs) = image_mset (\<lambda>i. xs ! i) (mset [0..<length xs])"
    by (simp add: permute_def fair_def mset_map)
  also have "\<dots> = mset (map (\<lambda>i. xs ! i) [0..<length xs])"
    by (simp only: mset_map)
  also have "\<dots> = mset xs" by (simp add: map_nth)
  finally show ?thesis .
qed

lemma set_permute: "fair s \<Longrightarrow> set (permute s xs) = set xs"
  by (rule mset_eq_setD [OF mset_permute])

lemma length_permute: "fair s \<Longrightarrow> length (permute s xs) = length xs"
  by (rule mset_eq_length [OF mset_permute])

lemma permute_map: "fair s \<Longrightarrow> permute s (map f xs) = map f (permute s xs)"
proof -
  assume "fair s"
  then have "mset (s (length xs)) = mset [0..<length xs]"
    unfolding fair_def by blast
  then have "set (s (length xs)) = set [0..<length xs]" by (rule mset_eq_setD)
  then have "\<forall>i \<in> set (s (length xs)). i < length xs" by auto
  then show ?thesis by (simp add: permute_def)
qed

text \<open>
  The collecting loop \<open>for range xs { if err := <-errs; err != nil { lastErr = err } }\<close>
  keeps the last non-nil error in arrival order.
\<close>

definition last_err :: "err option list \<Rightarrow> err option" where
  "last_err es = foldl (\<lambda>l e. case e of None \<Rightarrow> l | Some x \<Rightarrow> Some x) None es"

lemma last_err_snoc: "last_err (es @ [e]) = (case e of None \<Rightarrow> last_err es | Some x \<Rightarrow> Some x)"
  by (cases e) (simp_all add: last_err_def)

lemma last_err_Nil [simp]: "last_err [] = None"
  by (simp add: last_err_def)

lemma last_err_None_iff: "last_err es = None \<longleftrightarrow> (\<forall>e\<in>set es. e = None)"
proof (induction es rule: rev_induct)
  case Nil
  show ?case by simp
next
  case (snoc e es)
  then show ?case by (auto simp: last_err_snoc split: option.splits)
qed

lemma last_err_Some_in: "last_err es = Some x \<Longrightarrow> Some x \<in> set es"
proof (induction es rule: rev_induct)
  case Nil
  then show ?case by simp
next
  case (snoc e es)
  then show ?case by (auto simp: last_err_snoc split: option.splits)
qed

section \<open>Lists and orders\<close>

lemma sorted_distinct_mset_unique:
  fixes f :: "'a \<Rightarrow> 'b::linorder"
  assumes "sorted (map f xs)" "sorted (map f ys)" "mset xs = mset ys" "distinct (map f xs)"
  shows "xs = ys"
proof -
  have s: "set xs = set ys" using assms(3) by (rule mset_eq_setD)
  have m: "mset (map f xs) = mset (map f ys)" using assms(3) by (simp add: mset_map)
  have "map f xs = map f ys"
    using assms(1,2) m by (metis properties_for_sort)
  moreover have "inj_on f (set xs \<union> set ys)" using assms(4) s by (simp add: distinct_map)
  ultimately show ?thesis using inj_on_map_eq_map by blast
qed

lemma strict_sorted_append:
  fixes xs :: "'a::linorder list"
  shows "sorted_wrt (<) (xs @ ys) \<longleftrightarrow>
    sorted_wrt (<) xs \<and> sorted_wrt (<) ys \<and> (\<forall>x\<in>set xs. \<forall>y\<in>set ys. x < y)"
  by (auto simp: sorted_wrt_append)

text \<open>A sorted list is split by a predicate on keys that is closed downwards.\<close>

lemma sorted_split_filter:
  fixes key :: "'a \<Rightarrow> 'k::linorder"
  assumes "sorted (map key xs)" and "\<And>a b. a \<le> b \<Longrightarrow> P b \<Longrightarrow> P a"
  shows "filter (\<lambda>x. P (key x)) xs @ filter (\<lambda>x. \<not> P (key x)) xs = xs"
  using assms(1)
proof (induction xs)
  case Nil
  show ?case by simp
next
  case (Cons a xs)
  show ?case
  proof (cases "P (key a)")
    case True
    with Cons show ?thesis by simp
  next
    case False
    then have "\<forall>x\<in>set xs. \<not> P (key x)" using Cons.prems assms(2) by auto
    with False show ?thesis by (simp add: filter_empty_conv filter_id_conv)
  qed
qed

lemma map_of_mset_eq:
  assumes "distinct (map fst xs)" "mset xs = mset ys"
  shows "map_of xs = map_of ys"
proof (rule map_of_eqI)
  show "set (map fst xs) = set (map fst ys)"
    using assms(2) by (metis list.set_map mset_eq_setD)
  have "distinct (map fst ys)"
    using assms by (metis mset_eq_imp_distinct_iff mset_map)
  then show "\<forall>k\<in>set (map fst xs). map_of xs k = map_of ys k"
    using assms mset_eq_setD [OF assms(2)] by (force simp: map_of_eq_Some_iff)
qed

end
