(* ===== verification/Go_Std.thy ===== *)
theory Go_Std
  imports Frank_Prelude "HOL-Library.Signed_Division"
begin

text \<open>
  The parts of Go and its standard library that the program's logic rests on:
  \<open>sort.Search\<close> (binary search), \<open>sort.Sort\<close>, 64-bit signed arithmetic, \<open>%d\<close>
  formatting and the conversion of a code point to a string. Binary search and sorting are
  stated as interfaces (\<open>binary_search\<close>, \<open>go_sort\<close>): what a caller may rely on is
  proved once from the laws, and the interpretations discharge the laws for the model.
\<close>

section \<open>sort.Search\<close>

text \<open>
  \<^verbatim>\<open>
  i, j := 0, n
  for i < j {
      h := i + (j-i)/2
      if !f(h) { i = h + 1 } else { j = h }
  }
  return i
  \<close>
\<close>

function search_loop :: "(nat \<Rightarrow> bool) \<Rightarrow> nat \<Rightarrow> nat \<Rightarrow> nat" where
  "search_loop f i j =
     (if i < j then
        let h = i + (j - i) div 2
        in if \<not> f h then search_loop f (h + 1) j else search_loop f i h
      else i)"
  by pat_completeness auto
termination
  by (relation "measure (\<lambda>(f, i, j). j - i)") auto

declare search_loop.simps [simp del]

definition search :: "nat \<Rightarrow> (nat \<Rightarrow> bool) \<Rightarrow> nat" where
  "search n f = search_loop f 0 n"

text \<open>A predicate that, once true, stays true up to \<open>n\<close>.\<close>

definition upclosed :: "nat \<Rightarrow> (nat \<Rightarrow> bool) \<Rightarrow> bool" where
  "upclosed n f \<longleftrightarrow> (\<forall>i j. i \<le> j \<and> j < n \<and> f i \<longrightarrow> f j)"

lemma upclosedD: "upclosed n f \<Longrightarrow> i \<le> j \<Longrightarrow> j < n \<Longrightarrow> f i \<Longrightarrow> f j"
  unfolding upclosed_def by blast

locale binary_search =
  fixes search :: "nat \<Rightarrow> (nat \<Rightarrow> bool) \<Rightarrow> nat"
  assumes search_le: "search n f \<le> n"
    and search_below: "upclosed n f \<Longrightarrow> k < search n f \<Longrightarrow> \<not> f k"
    and search_from: "upclosed n f \<Longrightarrow> search n f \<le> k \<Longrightarrow> k < n \<Longrightarrow> f k"
begin

text \<open>The result is the boundary of \<open>f\<close>: any index with the same description is equal.\<close>

lemma search_unique:
  assumes "upclosed n f" and "b \<le> n" and "\<And>k. k < b \<Longrightarrow> \<not> f k" and "\<And>k. b \<le> k \<Longrightarrow> k < n \<Longrightarrow> f k"
  shows "search n f = b"
proof (rule antisym)
  show "search n f \<le> b"
  proof (rule ccontr)
    assume "\<not> search n f \<le> b"
    then have "b < search n f" by simp
    then have "\<not> f b" "b < n"
      using assms(1) search_below search_le [of n f] by (blast, simp)
    then show False using assms(4) [of b] by simp
  qed
  show "b \<le> search n f"
  proof (rule ccontr)
    assume "\<not> b \<le> search n f"
    then have "search n f < b" by simp
    then have "\<not> f (search n f)" using assms(3) by blast
    moreover have "search n f < n" using \<open>search n f < b\<close> assms(2) by simp
    ultimately show False using search_from [OF assms(1)] by blast
  qed
qed

text \<open>On a slice split by a predicate, searching for the predicate finds the split point.\<close>

lemma search_split:
  assumes "\<And>x. x \<in> set xs \<Longrightarrow> \<not> P x" and "\<And>y. y \<in> set ys \<Longrightarrow> P y"
  shows "search (length (xs @ ys)) (\<lambda>i. P ((xs @ ys) ! i)) = length xs"
proof (rule search_unique)
  show "upclosed (length (xs @ ys)) (\<lambda>i. P ((xs @ ys) ! i))"
    using assms by (auto simp: upclosed_def nth_append)
qed (use assms in \<open>auto simp: nth_append\<close>)

text \<open>Searching a slice sorted by a key for the first key above, or at or above, a bound.\<close>

lemma search_gt:
  fixes key :: "'x \<Rightarrow> 'k::linorder"
  assumes "sorted (map key xs)"
  shows "search (length xs) (\<lambda>i. key (xs ! i) > b) = length (filter (\<lambda>x. key x \<le> b) xs)"
proof -
  let ?l = "filter (\<lambda>x. key x \<le> b) xs" and ?r = "filter (\<lambda>x. key x > b) xs"
  have split: "?l @ ?r = xs"
    using sorted_split_filter [OF assms, of "\<lambda>k. k \<le> b"] by (simp add: not_le)
  have "search (length (?l @ ?r)) (\<lambda>i. key ((?l @ ?r) ! i) > b) = length ?l"
    by (rule search_split) auto
  then show ?thesis unfolding split .
qed

lemma search_ge:
  fixes key :: "'x \<Rightarrow> 'k::linorder"
  assumes "sorted (map key xs)"
  shows "search (length xs) (\<lambda>i. key (xs ! i) \<ge> b) = length (filter (\<lambda>x. key x < b) xs)"
proof -
  let ?l = "filter (\<lambda>x. key x < b) xs" and ?r = "filter (\<lambda>x. key x \<ge> b) xs"
  have split: "?l @ ?r = xs"
    using sorted_split_filter [OF assms, of "\<lambda>k. k < b"] by (simp add: not_less)
  have "search (length (?l @ ?r)) (\<lambda>i. key ((?l @ ?r) ! i) \<ge> b) = length ?l"
    by (rule search_split) auto
  then show ?thesis unfolding split .
qed

end

lemma search_loop_bounds: "i \<le> j \<Longrightarrow> i \<le> search_loop f i j \<and> search_loop f i j \<le> j"
proof (induction f i j rule: search_loop.induct)
  case (1 f i j)
  show ?case
  proof (cases "i < j")
    case True
    let ?h = "i + (j - i) div 2"
    have "?h < j" using True by linarith
    then show ?thesis
      using True "1.IH"(1) [OF True refl] "1.IH"(2) [OF True refl]
      by (cases "f ?h") (auto simp: search_loop.simps [of f i j] Let_def)
  next
    case False
    then have "search_loop f i j = i" by (simp add: search_loop.simps [of f i j])
    with "1.prems" show ?thesis by simp
  qed
qed

lemma search_loop_boundary:
  assumes "i \<le> j" and "upclosed n f" and "j \<le> n" and "\<And>k. k < i \<Longrightarrow> \<not> f k"
    and "\<And>k. j \<le> k \<Longrightarrow> k < n \<Longrightarrow> f k"
  shows "(\<forall>k < search_loop f i j. \<not> f k) \<and> (\<forall>k. search_loop f i j \<le> k \<and> k < n \<longrightarrow> f k)"
  using assms
proof (induction f i j rule: search_loop.induct)
  case (1 f i j)
  show ?case
  proof (cases "i < j")
    case True
    let ?h = "i + (j - i) div 2"
    have h: "?h < j" "i \<le> ?h" using True by linarith+
    show ?thesis
    proof (cases "f ?h")
      case fh: True
      have eq: "search_loop f i j = search_loop f i ?h"
        using True fh by (simp add: search_loop.simps [of f i j] Let_def)
      have "\<And>k. ?h \<le> k \<Longrightarrow> k < n \<Longrightarrow> f k"
        using upclosedD [OF "1.prems"(2) _ _ fh] by blast
      moreover have "?h \<le> n" using h(1) "1.prems"(3) by linarith
      ultimately show ?thesis
        unfolding eq using "1.IH"(2) [OF True refl] fh h(2) "1.prems"(2,4) by blast
    next
      case nfh: False
      have eq: "search_loop f i j = search_loop f (?h + 1) j"
        using True nfh by (simp add: search_loop.simps [of f i j] Let_def)
      have "\<not> f k" if "k < ?h + 1" for k
      proof
        assume "f k"
        then have "f ?h" using that h(1) "1.prems"(3) upclosedD [OF "1.prems"(2), of k ?h] by linarith
        with nfh show False ..
      qed
      moreover have "?h + 1 \<le> j" using h(1) by linarith
      ultimately show ?thesis
        unfolding eq using "1.IH"(1) [OF True refl nfh] "1.prems"(2,3,5) by blast
    qed
  next
    case False
    then have "search_loop f i j = i" by (simp add: search_loop.simps [of f i j])
    with False "1.prems" show ?thesis by simp
  qed
qed

interpretation gosearch: binary_search search
proof
  fix n f k
  show "search n f \<le> n" using search_loop_bounds [of 0 n f] by (simp add: search_def)
  assume up: "upclosed n f"
  note boundary = search_loop_boundary [of 0 n n f, OF _ up]
  show "k < search n f \<Longrightarrow> \<not> f k" using boundary by (simp add: search_def)
  show "search n f \<le> k \<Longrightarrow> k < n \<Longrightarrow> f k" using boundary by (simp add: search_def)
qed

section \<open>sort.Sort\<close>

text \<open>
  \<open>sort.Sort\<close> promises a sorted permutation and nothing about the order of equal
  elements. The model computes the stable one; the interface states only the promise, and
  every lemma about a caller uses only the interface.
\<close>

locale go_sort =
  fixes sort_by :: "('a \<Rightarrow> 'k::linorder) \<Rightarrow> 'a list \<Rightarrow> 'a list"
  assumes sort_perm: "mset (sort_by key xs) = mset xs"
    and sort_sorted: "sorted (map key (sort_by key xs))"
begin

lemma sort_set: "set (sort_by key xs) = set xs"
  by (rule mset_eq_setD [OF sort_perm])

lemma sort_length: "length (sort_by key xs) = length xs"
  by (rule mset_eq_length [OF sort_perm])

lemma sort_distinct: "distinct (map key (sort_by key xs)) \<longleftrightarrow> distinct (map key xs)"
  by (metis mset_eq_imp_distinct_iff mset_map sort_perm)

text \<open>With distinct keys the result does not depend on the input's order.\<close>

lemma sort_cong:
  assumes "mset xs = mset ys" "distinct (map key xs)"
  shows "sort_by key xs = sort_by key ys"
proof (rule sorted_distinct_mset_unique [of key])
  show "mset (sort_by key xs) = mset (sort_by key ys)" using assms(1) by (simp add: sort_perm)
  show "distinct (map key (sort_by key xs))" using assms(2) by (simp add: sort_distinct)
qed (rule sort_sorted)+

end

definition sort_slice :: "('a \<Rightarrow> 'k::linorder) \<Rightarrow> 'a list \<Rightarrow> 'a list" where
  "sort_slice key xs = sort_key key xs"

interpretation gosort: go_sort sort_slice
  by unfold_locales (simp_all add: sort_slice_def)

text \<open>\<open>sort.Strings\<close>: sorting by the elements themselves forgets the order of the input.\<close>

lemma sort_self_cong:
  fixes xs ys :: "'a::linorder list"
  assumes "mset xs = mset ys"
  shows "sort_slice (\<lambda>x. x) xs = sort_slice (\<lambda>x. x) ys"
proof -
  have "mset (sort_slice (\<lambda>x. x) xs) = mset (sort_slice (\<lambda>x. x) ys)" by (simp add: gosort.sort_perm assms)
  moreover have "sorted (sort_slice (\<lambda>x. x) zs)" for zs :: "'a list"
    using gosort.sort_sorted [of "\<lambda>x. x" zs] by simp
  ultimately show ?thesis by (metis properties_for_sort)
qed

section \<open>64-bit signed integers\<close>

definition wrap64 :: "int \<Rightarrow> int" where
  "wrap64 x = (x + 2 ^ 63) mod 2 ^ 64 - 2 ^ 63"

definition int64 :: "int \<Rightarrow> bool" where
  "int64 x \<longleftrightarrow> - (2 ^ 63) \<le> x \<and> x < 2 ^ 63"

lemma int64_wrap64 [simp]: "int64 (wrap64 x)"
  by (simp add: int64_def wrap64_def)

lemma wrap64_id: "int64 x \<Longrightarrow> wrap64 x = x"
  by (simp add: int64_def wrap64_def)

lemma wrap64_add_wrap: "wrap64 (wrap64 x + y) = wrap64 (x + y)"
proof -
  have "((x + 2 ^ 63) mod 2 ^ 64 + y) mod 2 ^ 64 = (x + 2 ^ 63 + y) mod 2 ^ 64" by (rule mod_add_left_eq)
  then show ?thesis unfolding wrap64_def by (simp add: algebra_simps)
qed

text \<open>Go's integer division truncates towards zero: \<open>sdiv\<close>.\<close>

lemma sdiv_pos: "0 < b \<Longrightarrow> a sdiv b = (if 0 \<le> a then a div b else - ((- a) div b))" for a b :: int
  by (simp add: signed_divide_int_def sgn_if)

lemma sdiv_scale: "0 < b \<Longrightarrow> 0 < c \<Longrightarrow> (a * c) sdiv (b * c) = a sdiv b" for a b c :: int
proof -
  assume b: "0 < b" and c: "0 < c"
  have "(x * c) div (b * c) = x div b" for x using c by simp
  from this [of a] this [of "- a"] show ?thesis using b c by (simp add: sdiv_pos zero_le_mult_iff)
qed

lemma sdiv_mono: "0 < b \<Longrightarrow> x \<le> y \<Longrightarrow> x sdiv b \<le> y sdiv b" for b x y :: int
proof -
  assume b: "0 < b" and le: "x \<le> y"
  consider "0 \<le> x" | "x < 0" "0 \<le> y" | "y < 0" by linarith
  then show ?thesis
  proof cases
    case 1
    with b le show ?thesis by (simp add: sdiv_pos zdiv_mono1)
  next
    case 2
    have "0 \<le> (- x) div b" "0 \<le> y div b" using 2 b by (simp_all add: pos_imp_zdiv_nonneg_iff)
    with 2 b show ?thesis by (simp add: sdiv_pos)
  next
    case 3
    have "(- y) div b \<le> (- x) div b" using b le by (simp add: zdiv_mono1)
    with 3 b le show ?thesis by (simp add: sdiv_pos)
  qed
qed

section \<open>Formatting\<close>

text \<open>The decimal digits that \<open>%d\<close> prints.\<close>

definition digit_char :: "nat \<Rightarrow> char" where
  "digit_char d = char_of (48 + d)"

fun show_nat :: "nat \<Rightarrow> string" where
  "show_nat n = (if n < 10 then [digit_char n] else show_nat (n div 10) @ [digit_char (n mod 10)])"

declare show_nat.simps [simp del]

definition show_int :: "int \<Rightarrow> string" where
  "show_int i = (if i < 0 then CHR ''-'' # show_nat (nat (- i)) else show_nat (nat i))"

lemma of_char_digit: "d < 10 \<Longrightarrow> of_char (digit_char d) = (48 + d :: nat)"
  by (simp add: digit_char_def)

lemma digit_char_inj: "d < 10 \<Longrightarrow> e < 10 \<Longrightarrow> digit_char d = digit_char e \<Longrightarrow> d = e"
  using of_char_digit by (metis add_left_cancel)

lemma show_nat_digits: "c \<in> set (show_nat n) \<Longrightarrow> 48 \<le> (of_char c :: nat) \<and> (of_char c :: nat) \<le> 57"
proof (induction n rule: show_nat.induct)
  case (1 n)
  then show ?case
    by (cases "n < 10") (auto simp: show_nat.simps [of n] of_char_digit)
qed

lemma show_nat_nonempty: "show_nat n \<noteq> []"
  by (subst show_nat.simps) simp

lemma show_nat_inj: "show_nat m = show_nat n \<Longrightarrow> m = n"
proof (induction m arbitrary: n rule: show_nat.induct)
  case (1 m)
  show ?case
  proof (cases "m < 10")
    case True
    then have "n < 10 \<and> digit_char n = digit_char m"
      using "1.prems" show_nat_nonempty [of "n div 10"]
      by (cases "n < 10") (auto simp: show_nat.simps [of n] show_nat.simps [of m])
    with True show ?thesis using digit_char_inj by auto
  next
    case False
    then have m: "show_nat m = show_nat (m div 10) @ [digit_char (m mod 10)]"
      by (simp add: show_nat.simps [of m])
    have n10: "\<not> n < 10"
      using "1.prems" m show_nat_nonempty [of "m div 10"] by (auto simp: show_nat.simps [of n])
    then have "show_nat n = show_nat (n div 10) @ [digit_char (n mod 10)]"
      by (simp add: show_nat.simps [of n])
    with "1.prems" m have "show_nat (m div 10) = show_nat (n div 10)"
      and d: "digit_char (m mod 10) = digit_char (n mod 10)" by simp_all
    then have "m div 10 = n div 10" using "1.IH" False by blast
    moreover have "m mod 10 = n mod 10" using digit_char_inj [OF _ _ d] by simp
    ultimately show ?thesis by (metis mult_div_mod_eq)
  qed
qed

lemma show_int_chars:
  "c \<in> set (show_int i) \<Longrightarrow> c = CHR ''-'' \<or> 48 \<le> (of_char c :: nat) \<and> (of_char c :: nat) \<le> 57"
  using show_nat_digits by (auto simp: show_int_def split: if_splits)

lemma show_int_no_colon: "CHR '':'' \<notin> set (show_int i)"
  using show_int_chars [of "CHR '':''" i] by auto

lemma show_int_inj: "show_int i = show_int j \<Longrightarrow> i = j"
proof -
  have minus: "CHR ''-'' \<notin> set (show_nat n)" for n
    using show_nat_digits [of "CHR ''-''" n] by auto
  assume "show_int i = show_int j"
  then show "i = j"
    using minus show_nat_inj show_nat_nonempty
    by (auto simp: show_int_def split: if_splits dest!: show_nat_inj) (metis list.set_intros(1))+
qed

text \<open>
  \<open>string(x)\<close> for a byte \<open>x\<close> is the UTF-8 encoding of the code point with that
  number: one byte below 128, two bytes from 128 on.
\<close>

definition string_of_byte :: "nat \<Rightarrow> string" where
  "string_of_byte x =
     (if x < 128 then [char_of x] else [char_of (192 + x div 64), char_of (128 + x mod 64)])"

text \<open>
  Splitting at the first separator: two strings joined by a separator the first does not
  contain determine both parts.
\<close>

lemma sep_inj:
  assumes "x \<notin> set xs" "x \<notin> set xs'" "xs @ x # ys = xs' @ x # ys'"
  shows "xs = xs' \<and> ys = ys'"
  using assms
proof (induction xs arbitrary: xs')
  case Nil
  then show ?case by (cases xs') auto
next
  case (Cons a xs)
  then show ?case by (cases xs') auto
qed

section \<open>strings.Join\<close>

fun strings_Join :: "string \<Rightarrow> string list \<Rightarrow> string" where
  "strings_Join sep [] = []"
| "strings_Join sep [s] = s"
| "strings_Join sep (s # t # ss) = s @ sep @ strings_Join sep (t # ss)"

end
