(* ===== verification/Labels.thy ===== *)
theory Labels
  imports Go_Std "HOL-Library.Word"
begin

unbundle bit_operations_syntax

text \<open>
  The data model the program takes from the vendored Prometheus packages: timestamps
  (\<open>model.Time\<close>), metrics as label sets, their 64-bit fingerprints, and label matchers
  (\<open>storage/metric\<close>). A compiled regular expression is the set of strings it accepts.
\<close>

section \<open>Timestamps\<close>

definition Earliest :: Time where
  "Earliest = - (2 ^ 63)"

definition Latest :: Time where
  "Latest = 2 ^ 63 - 1"

definition Unix :: "Time \<Rightarrow> int" where
  "Unix t = t sdiv 1000"

text \<open>\<open>Time.Add\<close> and \<open>Time.Sub\<close>: a duration counts nanoseconds, a time milliseconds.\<close>

definition Time_Add :: "Time \<Rightarrow> int \<Rightarrow> Time" where
  "Time_Add t d = wrap64 (t + d sdiv 1000000)"

definition Time_Sub :: "Time \<Rightarrow> Time \<Rightarrow> int" where
  "Time_Sub t u = wrap64 (wrap64 (t - u) * 1000000)"

definition TimeFromUnixNano :: "int \<Rightarrow> Time" where
  "TimeFromUnixNano t = t sdiv 1000000"

lemma Unix_mono: "s \<le> t \<Longrightarrow> Unix s \<le> Unix t"
  by (simp add: Unix_def sdiv_mono)

section \<open>Metrics\<close>

text \<open>
  A metric is a map from label names to values, each name once. The model lists its entries
  in the order of the names, so that equal maps are equal lists; a \<open>range\<close> over the map
  visits the entries in some order of its own. \<open>map_of\<close> looks a label up.
\<close>

type_synonym metric = "(LabelName \<times> LabelValue) list"

definition MetricNameLabel :: LabelName where
  "MetricNameLabel = ''__name__''"

definition wf_metric :: "metric \<Rightarrow> bool" where
  "wf_metric m \<longleftrightarrow> sorted_wrt (<) (map fst m)"

text \<open>\<open>m[l]\<close> of a missing label is the empty string.\<close>

definition label_get :: "metric \<Rightarrow> LabelName \<Rightarrow> LabelValue" where
  "label_get m l = (case map_of m l of None \<Rightarrow> [] | Some v \<Rightarrow> v)"

text \<open>\<open>m[l] = v\<close>: replace the entry, or add one.\<close>

fun label_set :: "LabelName \<Rightarrow> LabelValue \<Rightarrow> metric \<Rightarrow> metric" where
  "label_set l v [] = [(l, v)]"
| "label_set l v ((k, w) # m) =
     (if l < k then (l, v) # (k, w) # m else if l = k then (l, v) # m else (k, w) # label_set l v m)"

lemma wf_metric_simps [simp]:
  "wf_metric []" "wf_metric (e # m) \<longleftrightarrow> (\<forall>x\<in>set m. fst e < fst x) \<and> wf_metric m"
  by (simp_all add: wf_metric_def)

lemma wf_metric_distinct: "wf_metric m \<Longrightarrow> distinct (map fst m)"
  by (simp add: wf_metric_def strict_sorted_iff)

lemma keys_label_set: "fst ` set (label_set l v m) = insert l (fst ` set m)"
  by (induction l v m rule: label_set.induct) auto

lemma map_of_label_set [simp]: "map_of (label_set l v m) = (map_of m)(l \<mapsto> v)"
  by (induction l v m rule: label_set.induct) (auto simp: fun_eq_iff)

lemma wf_label_set [wf_intros]: "wf_metric m \<Longrightarrow> wf_metric (label_set l v m)"
proof (induction l v m rule: label_set.induct)
  case (2 l v k w m)
  have "\<forall>x \<in> set (label_set l v m). k < fst x" if "k < l"
    using that 2(2) keys_label_set [of l v m] by (metis (no_types, lifting) fst_conv image_iff insert_iff wf_metric_simps(2))
  with 2 show ?case by (auto simp: not_less_iff_gr_or_eq dest: order.strict_trans)
qed simp

text \<open>Equal maps are equal lists.\<close>

lemma wf_metric_eqI:
  assumes "wf_metric m" "wf_metric m'" "map_of m = map_of m'"
  shows "m = m'"
proof (rule sorted_distinct_mset_unique [of fst])
  have "set m = set m'"
    using assms wf_metric_distinct by (metis map_of_eq_Some_iff subrelI subset_antisym)
  then show "mset m = mset m'"
    using assms(1,2) wf_metric_distinct by (metis distinct_map set_eq_iff_mset_eq_distinct)
qed (use assms in \<open>simp_all add: wf_metric_def strict_sorted_iff\<close>)

text \<open>Assigning labels one after the other: the last assignment of a label counts.\<close>

lemma foldl_label_set:
  "map_of (foldl (\<lambda>m l. label_set (f l) (g l) m) m0 ls) = map_of m0 ++ map_of (rev (map (\<lambda>l. (f l, g l)) ls))"
  by (induction ls rule: rev_induct) (auto simp: fun_eq_iff map_add_def split: option.splits)

lemma wf_foldl_label_set [wf_intros]: "wf_metric m0 \<Longrightarrow> wf_metric (foldl (\<lambda>m l. label_set (f l) (g l) m) m0 ls)"
  by (induction ls rule: rev_induct) (auto intro: wf_label_set)

text \<open>Rebuilding a metric from its labels, in any order, gives it back.\<close>

lemma rebuild_metric:
  assumes "wf_metric m" "mset ls = mset m"
  shows "foldl (\<lambda>m l. label_set (fst l) (snd l) m) [] ls = m"
proof (rule wf_metric_eqI)
  have "map_of m = map_of (rev ls)"
    by (rule map_of_mset_eq) (use assms in \<open>simp_all add: wf_metric_distinct\<close>)
  then show "map_of (foldl (\<lambda>m l. label_set (fst l) (snd l) m) [] ls) = map_of m" by (simp add: foldl_label_set)
qed (use assms(1) in \<open>simp_all add: wf_foldl_label_set\<close>)

section \<open>Fingerprints\<close>

text \<open>FNV-1a over 64 bits, as the vendored \<open>model/fnv.go\<close> has it.\<close>

definition hashNew :: "64 word" where
  "hashNew = 14695981039346656037"

definition hashAddByte :: "64 word \<Rightarrow> char \<Rightarrow> 64 word" where
  "hashAddByte h b = (h XOR word_of_nat (of_char b)) * 1099511628211"

definition hashAdd :: "64 word \<Rightarrow> string \<Rightarrow> 64 word" where
  "hashAdd h s = foldl hashAddByte h s"

definition SeparatorByte :: char where
  "SeparatorByte = char_of (255 :: nat)"

definition labelSetToFingerprint :: "metric \<Rightarrow> 64 word" where
  "labelSetToFingerprint ls =
     (if ls = [] then hashNew
      else foldl (\<lambda>sum name.
             hashAddByte (hashAdd (hashAddByte (hashAdd sum name) SeparatorByte) (label_get ls name)) SeparatorByte)
           hashNew (sort_slice id (map fst ls)))"

text \<open>The fingerprint is a function of the label set, not of the order of iteration.\<close>

lemma fingerprint_perm:
  assumes "distinct (map fst m)" "mset m = mset m'"
  shows "labelSetToFingerprint m = labelSetToFingerprint m'"
proof -
  have "map_of m = map_of m'"
    using assms by (rule map_of_mset_eq)
  moreover have "sort_slice id (map fst m) = sort_slice id (map fst m')"
    by (rule gosort.sort_cong) (use assms in \<open>simp_all add: mset_map\<close>)
  moreover have "m = [] \<longleftrightarrow> m' = []" using assms(2) by (metis mset_zero_iff)
  ultimately show ?thesis by (simp add: labelSetToFingerprint_def label_get_def)
qed

section \<open>Label matchers\<close>

datatype MatchType = Equal | NotEqual | RegexMatch | RegexNoMatch

record LabelMatcher =
  m_Type :: MatchType
  m_Name :: LabelName
  m_Value :: LabelValue
  m_re :: "string \<Rightarrow> bool"

text \<open>
  \<open>NewLabelMatcher\<close> compiles the anchored pattern for the two regexp types; \<open>compile\<close>
  stands for \<open>regexp.Compile\<close>. The cardinality score is not used by this program.
\<close>

definition NewLabelMatcher ::
  "(string \<Rightarrow> err + (string \<Rightarrow> bool)) \<Rightarrow> MatchType \<Rightarrow> LabelName \<Rightarrow> LabelValue \<Rightarrow> err + LabelMatcher" where
  "NewLabelMatcher compile mt name value =
     (if mt = RegexMatch \<or> mt = RegexNoMatch then
        case compile (''^(?:'' @ value @ '')$'') of
          Inl e \<Rightarrow> Inl e
        | Inr re \<Rightarrow> Inr \<lparr>m_Type = mt, m_Name = name, m_Value = value, m_re = re\<rparr>
      else Inr \<lparr>m_Type = mt, m_Name = name, m_Value = value, m_re = (\<lambda>_. False)\<rparr>)"

definition Match :: "LabelMatcher \<Rightarrow> LabelValue \<Rightarrow> bool" where
  "Match m v = (case m_Type m of
       Equal \<Rightarrow> m_Value m = v
     | NotEqual \<Rightarrow> m_Value m \<noteq> v
     | RegexMatch \<Rightarrow> m_re m v
     | RegexNoMatch \<Rightarrow> \<not> m_re m v)"

end
