(* ===== verification/Chunk_Sets.thy ===== *)
theory Chunk_Sets
  imports Labels
begin

text \<open>
  Chunks and the set operations on slices of chunks ordered by ID
  (\<open>chunk/chunk.go\<close> and the helpers at the end of \<open>chunk/chunk_store.go\<close>):
  \<open>unique\<close>, \<open>merge\<close> and \<open>nWayIntersect\<close>. A slice stands for a set when its IDs
  strictly increase; the operations are union and intersection of such sets.
\<close>

section \<open>Chunks\<close>

record Chunk =
  ID :: string
  From :: Time
  Through :: Time
  Metric :: metric
  Data :: bytes

text \<open>\<open>sort.Sort(ByID(cs))\<close>.\<close>

definition sort_ByID :: "Chunk list \<Rightarrow> Chunk list" where
  "sort_ByID cs = sort_slice ID cs"

definition ids :: "Chunk list \<Rightarrow> string set" where
  "ids cs = ID ` set cs"

definition byid_set :: "Chunk list \<Rightarrow> bool" where
  "byid_set cs \<longleftrightarrow> sorted_wrt (<) (map ID cs)"

lemma ids_simps [simp]:
  "ids [] = {}" "ids (c # cs) = insert (ID c) (ids cs)" "ids (cs @ ds) = ids cs \<union> ids ds"
  by (auto simp: ids_def)

lemma ids_filter_all: "ids (filter (\<lambda>c. \<forall>s\<in>S. ID c \<in> ids s) cs) = {i \<in> ids cs. \<forall>s\<in>S. i \<in> ids s}"
  by (auto simp: ids_def)

lemma byid_set_Nil [simp, wf_intros]: "byid_set []"
  by (simp add: byid_set_def)

lemma byid_set_Cons: "byid_set (c # cs) \<longleftrightarrow> (\<forall>i\<in>ids cs. ID c < i) \<and> byid_set cs"
  by (auto simp: byid_set_def ids_def)

lemma byid_set_iff: "byid_set cs \<longleftrightarrow> sorted (map ID cs) \<and> distinct (map ID cs)"
  by (simp add: byid_set_def strict_sorted_iff)

lemma byid_set_sort [wf_intros]: "distinct (map ID cs) \<Longrightarrow> byid_set (sort_ByID cs)"
  by (simp add: byid_set_iff sort_ByID_def gosort.sort_sorted gosort.sort_distinct)

lemma byid_set_filter [wf_intros]: "byid_set cs \<Longrightarrow> byid_set (filter P cs)"
  by (auto simp: byid_set_def sorted_wrt_map sorted_wrt_filter)

lemma byid_set_eqI:
  assumes "byid_set xs" "byid_set ys" "set xs = set ys"
  shows "xs = ys"
proof (rule sorted_distinct_mset_unique [of ID])
  show "mset xs = mset ys"
    using assms by (metis byid_set_iff distinct_map set_eq_iff_mset_eq_distinct)
qed (use assms in \<open>simp_all add: byid_set_iff\<close>)

section \<open>unique\<close>

fun unique_loop :: "Chunk \<Rightarrow> Chunk list \<Rightarrow> Chunk list" where
  "unique_loop l [] = []"
| "unique_loop l (c # cs) = (if ID l = ID c then unique_loop l cs else c # unique_loop c cs)"

fun unique :: "Chunk list \<Rightarrow> Chunk list" where
  "unique [] = []"
| "unique (c # cs) = c # unique_loop c cs"

lemma ids_unique_loop: "insert (ID l) (ids (unique_loop l cs)) = insert (ID l) (ids cs)"
  by (induction l cs rule: unique_loop.induct) auto

lemma set_unique_loop: "set (unique_loop l cs) \<subseteq> set cs"
  by (induction l cs rule: unique_loop.induct) auto

lemma unique_loop_gt:
  "sorted (map ID (l # cs)) \<Longrightarrow> byid_set (unique_loop l cs) \<and> (\<forall>i \<in> ids (unique_loop l cs). ID l < i)"
proof (induction l cs rule: unique_loop.induct)
  case (2 l c cs)
  then show ?case
    by (cases "ID l = ID c") (auto simp: byid_set_Cons dest: order.strict_trans)
qed simp

lemma ids_unique [simp]: "ids (unique cs) = ids cs"
  by (cases cs) (simp_all add: ids_unique_loop)

lemma set_unique: "set (unique cs) \<subseteq> set cs"
  using set_unique_loop by (cases cs) fastforce+

lemma byid_set_unique [wf_intros]: "sorted (map ID cs) \<Longrightarrow> byid_set (unique cs)"
  using unique_loop_gt by (cases cs) (auto simp: byid_set_Cons)

section \<open>merge\<close>

fun merge :: "Chunk list \<Rightarrow> Chunk list \<Rightarrow> Chunk list" where
  "merge (a # as) (b # bs) =
     (if ID a < ID b then a # merge as (b # bs)
      else if ID a > ID b then b # merge (a # as) bs
      else a # merge as bs)"
| "merge as [] = as"
| "merge [] bs = bs"

lemma merge_Nil [simp]: "merge [] bs = bs"
  by (cases bs) simp_all

lemma ids_merge: "ids (merge as bs) = ids as \<union> ids bs"
  by (induction as bs rule: merge.induct) auto

lemma set_merge: "set (merge as bs) \<subseteq> set as \<union> set bs"
  by (induction as bs rule: merge.induct) auto

lemma set_merge_left: "set as \<subseteq> set (merge as bs)"
  by (induction as bs rule: merge.induct) auto

lemma byid_set_merge [wf_intros]: "byid_set as \<Longrightarrow> byid_set bs \<Longrightarrow> byid_set (merge as bs)"
proof (induction as bs rule: merge.induct)
  case (1 a as b bs)
  consider "ID a < ID b" | "ID a > ID b" | "ID a = ID b" by fastforce
  then show ?case
    using 1 by cases (auto simp: byid_set_Cons ids_merge dest: order.strict_trans)
qed simp_all

text \<open>Which chunk is kept for an ID: the left operand's, and otherwise the right operand's.\<close>

lemma set_merge_eq:
  assumes "byid_set as" "byid_set bs"
  shows "set (merge as bs) = set as \<union> {b \<in> set bs. ID b \<notin> ids as}"
  using assms
proof (induction as bs rule: merge.induct)
  case (1 a as b bs)
  consider "ID a < ID b" | "ID a > ID b" | "ID a = ID b" by fastforce
  then show ?case
  proof cases
    case 1
    have "\<forall>c \<in> set (b # bs). ID c \<noteq> ID a"
      using 1 "1.prems"(2) by (auto simp: byid_set_Cons ids_def dest: order.strict_trans)
    then show ?thesis using 1 "1.IH"(1) "1.prems" by (auto simp: byid_set_Cons)
  next
    case 2
    have "ID b \<notin> ids (a # as)"
      using 2 "1.prems"(1) by (auto simp: byid_set_Cons dest: order.strict_trans)
    then show ?thesis using 2 "1.IH"(2) "1.prems" by (auto simp: byid_set_Cons)
  next
    case 3
    have "\<forall>c \<in> set bs. ID c \<noteq> ID a"
      using 3 "1.prems"(2) by (auto simp: byid_set_Cons ids_def)
    then show ?thesis using 3 "1.IH"(3) "1.prems" by (auto simp: byid_set_Cons)
  qed
qed (auto simp: ids_def)

section \<open>nWayIntersect\<close>

text \<open>The loop of the two-way case: on equal IDs the left chunk is kept and \<open>j\<close> advances.\<close>

fun intersect2 :: "Chunk list \<Rightarrow> Chunk list \<Rightarrow> Chunk list" where
  "intersect2 (l # ls) (r # rs) =
     (if ID l = ID r then [l] else []) @
     (if ID l < ID r then intersect2 ls (r # rs) else intersect2 (l # ls) rs)"
| "intersect2 ls [] = []"
| "intersect2 [] rs = []"

function nWayIntersect :: "Chunk list list \<Rightarrow> Chunk list" where
  "nWayIntersect sets =
     (let l = length sets in
      if l = 0 then []
      else if l = 1 then sets ! 0
      else if l = 2 then intersect2 (sets ! 0) (sets ! 1)
      else let split = l div 2
           in intersect2 (nWayIntersect (take split sets)) (nWayIntersect (drop split sets)))"
  by pat_completeness auto
termination
proof (relation "measure length")
  fix sets :: "Chunk list list" and x xa
  assume "x = length sets" "x \<noteq> 0" "x \<noteq> 1" "x \<noteq> 2" "xa = x div 2"
  then have "0 < xa" "xa < length sets" by linarith+
  then show "(take xa sets, sets) \<in> measure length" "(drop xa sets, sets) \<in> measure length"
    by simp_all
qed simp

declare nWayIntersect.simps [simp del]

lemma intersect2_Nil [simp]: "intersect2 [] rs = []"
  by (cases rs) simp_all

lemma intersect2_eq:
  assumes "byid_set ls" "byid_set rs"
  shows "intersect2 ls rs = filter (\<lambda>c. ID c \<in> ids rs) ls"
  using assms
proof (induction ls rs rule: intersect2.induct)
  case (1 l ls r rs)
  consider "ID l < ID r" | "ID l > ID r" | "ID l = ID r" by fastforce
  then show ?case
  proof cases
    case 1
    then have "ID l \<notin> ids (r # rs)" using "1.prems"(2) by (auto simp: byid_set_Cons)
    then show ?thesis using 1 "1.IH"(1) "1.prems" by (simp add: byid_set_Cons)
  next
    case 2
    then have "\<forall>c \<in> set (l # ls). ID c \<noteq> ID r"
      using "1.prems"(1) by (auto simp: byid_set_Cons ids_def dest: order.strict_trans)
    then have "filter (\<lambda>c. ID c \<in> ids (r # rs)) (l # ls) = filter (\<lambda>c. ID c \<in> ids rs) (l # ls)"
      by (intro filter_cong) auto
    moreover have "intersect2 (l # ls) (r # rs) = intersect2 (l # ls) rs"
      using 2 by auto
    moreover have "\<not> ID l < ID r" using 2 by auto
    ultimately show ?thesis using "1.IH"(2) "1.prems" by (simp add: byid_set_Cons del: intersect2.simps)
  next
    case 3
    then have notin: "ID l \<notin> ids rs" using "1.prems"(2) by (auto simp: byid_set_Cons)
    have "\<forall>c \<in> set ls. ID c \<noteq> ID r"
      using 3 "1.prems"(1) by (auto simp: byid_set_Cons ids_def)
    then have "filter (\<lambda>c. ID c \<in> ids (r # rs)) ls = filter (\<lambda>c. ID c \<in> ids rs) ls"
      by (intro filter_cong) auto
    moreover have "intersect2 (l # ls) (r # rs) = l # intersect2 (l # ls) rs"
      using 3 by auto
    moreover have "\<not> ID l < ID r" using 3 by auto
    ultimately show ?thesis
      using 3 notin "1.IH"(2) "1.prems" by (simp add: byid_set_Cons del: intersect2.simps)
  qed
qed simp_all

text \<open>
  The balanced recursion computes the first set restricted to the IDs found in all sets.
\<close>

lemma nWayIntersect_eq:
  assumes "sets \<noteq> []" "\<forall>s \<in> set sets. byid_set s"
  shows "nWayIntersect sets = filter (\<lambda>c. \<forall>s \<in> set sets. ID c \<in> ids s) (hd sets)"
  using assms
proof (induction sets rule: nWayIntersect.induct)
  case (1 sets)
  consider "length sets = 1" | "length sets = 2" | "length sets \<ge> 3"
    using "1.prems"(1) by (metis One_nat_def Suc_1 length_0_conv less_Suc0 linorder_not_less
        numeral_3_eq_3 not_less_eq_eq le_antisym)
  then show ?case
  proof cases
    case 1
    then obtain s where "sets = [s]" by (auto simp: length_Suc_conv)
    then show ?thesis by (auto simp: nWayIntersect.simps ids_def filter_id_conv)
  next
    case 2
    then obtain s t where st: "sets = [s, t]" by (auto simp: length_Suc_conv numeral_2_eq_2)
    then have "nWayIntersect sets = filter (\<lambda>c. ID c \<in> ids t) s"
      using "1.prems"(2) by (simp add: nWayIntersect.simps intersect2_eq)
    also have "\<dots> = filter (\<lambda>c. \<forall>s \<in> set sets. ID c \<in> ids s) (hd sets)"
      unfolding st by (rule filter_cong) (auto simp: ids_def)
    finally show ?thesis .
  next
    case 3
    let ?k = "length sets div 2"
    let ?l = "take ?k sets" and ?r = "drop ?k sets"
    have k: "0 < ?k" "?k < length sets" using 3 by linarith+
    have hl: "hd ?l = hd sets" using k by (simp add: hd_take)
    have ne: "?l \<noteq> []" "?r \<noteq> []" using k by auto
    have wl: "\<forall>s\<in>set ?l. byid_set s" and wr: "\<forall>s\<in>set ?r. byid_set s"
      using "1.prems"(2) by (auto dest: in_set_takeD in_set_dropD)
    have un: "set sets = set ?l \<union> set ?r"
      by (metis append_take_drop_id set_append)
    have L: "nWayIntersect ?l = filter (\<lambda>c. \<forall>s\<in>set ?l. ID c \<in> ids s) (hd sets)"
      using "1.IH"(1) [OF refl _ _ _ refl ne(1) wl] k 3 hl "1.prems"(1) by simp
    have R: "nWayIntersect ?r = filter (\<lambda>c. \<forall>s\<in>set ?r. ID c \<in> ids s) (hd ?r)"
      using "1.IH"(2) [OF refl _ _ _ refl ne(2) wr] 3 "1.prems"(1) by simp
    have idsR: "ID c \<in> ids (nWayIntersect ?r) \<longleftrightarrow> (\<forall>s\<in>set ?r. ID c \<in> ids s)" for c
      unfolding R ids_filter_all using hd_in_set [OF ne(2)] by blast
    have bl: "byid_set (nWayIntersect ?l)" "byid_set (nWayIntersect ?r)"
      unfolding L R using "1.prems" wr ne hd_in_set by (blast intro: wf_intros)+
    have "nWayIntersect sets = intersect2 (nWayIntersect ?l) (nWayIntersect ?r)"
      using 3 "1.prems"(1) by (simp add: nWayIntersect.simps [of sets] Let_def)
    also have "\<dots> = filter (\<lambda>c. ID c \<in> ids (nWayIntersect ?r)) (nWayIntersect ?l)"
      using bl by (rule intersect2_eq)
    also have "\<dots> = filter (\<lambda>c. \<forall>s\<in>set sets. ID c \<in> ids s) (hd sets)"
      unfolding idsR L un by (auto intro!: filter_cong)
    finally show ?thesis .
  qed
qed

lemma byid_set_nWayIntersect [wf_intros]:
  assumes "\<forall>s \<in> set sets. byid_set s"
  shows "byid_set (nWayIntersect sets)"
proof (cases "sets = []")
  case True
  then show ?thesis by (simp add: nWayIntersect.simps)
next
  case False
  then show ?thesis using assms by (simp add: nWayIntersect_eq byid_set_filter)
qed

lemma ids_nWayIntersect:
  assumes "sets \<noteq> []" "\<forall>s \<in> set sets. byid_set s"
  shows "ids (nWayIntersect sets) = (\<Inter>s \<in> set sets. ids s)"
  unfolding nWayIntersect_eq [OF assms] ids_filter_all using hd_in_set [OF assms(1)] by blast

end
