(* ===== verification/Lex_Tuples.thy ===== *)
theory Lex_Tuples
  imports Go_Std "HOL-Library.Product_Lexorder"
begin

text \<open>
  The vendored \<open>lexicographic-tuples\<close> package, for the string values the index uses:
  each component is written with a terminating NUL byte, embedded NULs are refused, and
  reading splits at the NULs. The interface \<open>tuple_codec\<close> states what the index relies
  on: decoding inverts encoding, and the byte order of encodings is the lexicographic
  order of the tuples.
\<close>

abbreviation NUL :: char where
  "NUL \<equiv> CHR 0x00"

section \<open>Encoding\<close>

definition Write_bytes :: "bytes \<Rightarrow> err + bytes" where
  "Write_bytes value =
     (if NUL \<in> set value then Inl (Err ''Cannot encode embedded null characters'')
      else Inr (value @ [NUL]))"

fun Write :: "string list \<Rightarrow> err + bytes" where
  "Write [] = Inr []"
| "Write (value # vs) =
     (case Write_bytes value of
        Inl e \<Rightarrow> Inl e
      | Inr w \<Rightarrow> (case Write vs of Inl e \<Rightarrow> Inl e | Inr ws \<Rightarrow> Inr (w @ ws)))"

definition Encode :: "string list \<Rightarrow> err + bytes" where
  "Encode toWrite = Write toWrite"

definition EncodeOrDie :: "string list \<Rightarrow> bytes go" where
  "EncodeOrDie toWrite = (case Encode toWrite of Inl e \<Rightarrow> Panic (msg e) | Inr b \<Rightarrow> Ret b)"

section \<open>Decoding\<close>

text \<open>\<open>bytes.Buffer.ReadBytes(0)\<close>: the bytes up to the delimiter, and what follows it.\<close>

fun ReadBytes :: "bytes \<Rightarrow> err + (bytes \<times> bytes)" where
  "ReadBytes [] = Inl (Err ''EOF'')"
| "ReadBytes (c # cs) =
     (if c = NUL then Inr ([], cs)
      else case ReadBytes cs of Inl e \<Rightarrow> Inl e | Inr (w, rest) \<Rightarrow> Inr (c # w, rest))"

text \<open>Reading \<open>n\<close> strings, and the undecoded remainder.\<close>

fun Read :: "nat \<Rightarrow> bytes \<Rightarrow> err + (string list \<times> bytes)" where
  "Read 0 buf = Inr ([], buf)"
| "Read (Suc n) buf =
     (case ReadBytes buf of
        Inl e \<Rightarrow> Inl e
      | Inr (w, rest) \<Rightarrow> (case Read n rest of Inl e \<Rightarrow> Inl e | Inr (ws, r) \<Rightarrow> Inr (w # ws, r)))"

definition Decode :: "nat \<Rightarrow> bytes \<Rightarrow> err + (string list \<times> bytes)" where
  "Decode n key = Read n key"

section \<open>Round trip and order\<close>

abbreviation null_free :: "string \<Rightarrow> bool" where
  "null_free s \<equiv> NUL \<notin> set s"

definition joined :: "string list \<Rightarrow> bytes" where
  "joined vs = concat (map (\<lambda>v. v @ [NUL]) vs)"

lemma Write_eq: "Write vs = (if \<forall>v\<in>set vs. null_free v then Inr (joined vs) else Inl (Err ''Cannot encode embedded null characters''))"
  by (induction vs) (auto simp: Write_bytes_def joined_def)

lemma EncodeOrDie_eq:
  "EncodeOrDie vs = (if \<forall>v\<in>set vs. null_free v then Ret (joined vs) else Panic ''Cannot encode embedded null characters'')"
  by (simp add: EncodeOrDie_def Encode_def Write_eq)

lemma ReadBytes_append: "null_free v \<Longrightarrow> ReadBytes (v @ NUL # rest) = Inr (v, rest)"
  by (induction v) auto

lemma Read_joined: "\<forall>v\<in>set vs. null_free v \<Longrightarrow> Read (length vs) (joined vs @ rest) = Inr (vs, rest)"
  by (induction vs) (simp_all add: joined_def ReadBytes_append)

lemma NUL_less [simp]: "NUL < c \<longleftrightarrow> c \<noteq> NUL"
  by (cases c) auto

lemma not_less_NUL [simp]: "\<not> c < NUL"
  by (simp add: less_char_def)

lemma joined_less_one:
  assumes "null_free v" "null_free w"
  shows "v @ NUL # r < w @ NUL # s \<longleftrightarrow> v < w \<or> v = w \<and> r < s"
  using assms
proof (induction v arbitrary: w)
  case Nil
  then show ?case by (cases w) (auto simp: NUL_less)
next
  case (Cons c v)
  then show ?case by (cases w) (auto simp: NUL_less dest: less_asym)
qed

section \<open>The codec of index entries\<close>

type_synonym entry = "string \<times> string \<times> string"

locale tuple_codec =
  fixes ok :: "string \<Rightarrow> bool"
    and enc :: "entry \<Rightarrow> bytes"
    and dec :: "bytes \<Rightarrow> err + entry"
  assumes dec_enc: "ok a \<Longrightarrow> ok b \<Longrightarrow> ok c \<Longrightarrow> dec (enc (a, b, c)) = Inr (a, b, c)"
    and enc_less: "ok a \<Longrightarrow> ok b \<Longrightarrow> ok c \<Longrightarrow> ok a' \<Longrightarrow> ok b' \<Longrightarrow> ok c' \<Longrightarrow>
      enc (a, b, c) < enc (a', b', c') \<longleftrightarrow> (a, b, c) < (a', b', c')"
begin

definition ok3 :: "entry \<Rightarrow> bool" where
  "ok3 e \<longleftrightarrow> ok (fst e) \<and> ok (fst (snd e)) \<and> ok (snd (snd e))"

lemma enc_less3: "ok3 x \<Longrightarrow> ok3 y \<Longrightarrow> enc x < enc y \<longleftrightarrow> x < y"
  using enc_less unfolding ok3_def by (metis prod.collapse)

lemma enc_inj: "ok3 x \<Longrightarrow> ok3 y \<Longrightarrow> enc x = enc y \<Longrightarrow> x = y"
  using dec_enc unfolding ok3_def by (metis prod.collapse sum.inject(2))

lemma enc_le3: "ok3 x \<Longrightarrow> ok3 y \<Longrightarrow> enc x \<le> enc y \<longleftrightarrow> x \<le> y"
  using enc_less3 [of y x] by (simp add: not_less [symmetric])

text \<open>
  The entries with a given first component lie between the empty continuation of that
  component and the empty continuation of any greater one; likewise for the first two.
\<close>

lemma enc_range1:
  assumes "ok [] \<and> ok a \<and> ok a' \<and> ok b \<and> ok c" "a < a'"
  shows "enc (a, [], []) \<le> enc (a, b, c) \<and> enc (a, b, c) \<le> enc (a', [], [])"
  using assms by (auto simp: enc_le3 ok3_def)

lemma enc_range2:
  assumes "ok [] \<and> ok a \<and> ok b \<and> ok b' \<and> ok c" "b < b'"
  shows "enc (a, b, []) \<le> enc (a, b, c) \<and> enc (a, b, c) \<le> enc (a, b', [])"
  using assms by (auto simp: enc_le3 ok3_def)

end

definition enc3 :: "entry \<Rightarrow> bytes" where
  "enc3 e = joined [fst e, fst (snd e), snd (snd e)]"

definition dec3 :: "bytes \<Rightarrow> err + entry" where
  "dec3 v = (case Decode 3 v of
       Inl e \<Rightarrow> Inl e
     | Inr (ws, rest) \<Rightarrow> Inr (ws ! 0, ws ! 1, ws ! 2))"

lemma dec3_enc3: "null_free a \<Longrightarrow> null_free b \<Longrightarrow> null_free c \<Longrightarrow> dec3 (enc3 (a, b, c)) = Inr (a, b, c)"
  using Read_joined [of "[a, b, c]" "[]"]
  by (simp add: dec3_def enc3_def Decode_def numeral_3_eq_3 del: Read.simps)

interpretation lex3: tuple_codec null_free enc3 dec3
proof
  fix a b c a' b' c'
  assume "null_free a" "null_free b" "null_free c"
  then show "dec3 (enc3 (a, b, c)) = Inr (a, b, c)" by (rule dec3_enc3)
  assume "null_free a'" "null_free b'" "null_free c'"
  with \<open>null_free a\<close> \<open>null_free b\<close> \<open>null_free c\<close>
  show "enc3 (a, b, c) < enc3 (a', b', c') \<longleftrightarrow> (a, b, c) < (a', b', c')"
    using joined_less_one [of c c' "[]" "[]"] by (auto simp: enc3_def joined_def joined_less_one)
qed

end
