(* ===== verification/Chunk_Keys.thy ===== *)
theory Chunk_Keys
  imports Chunk_Sets Lex_Tuples
begin

text \<open>
  The keys of the index (\<open>chunk/chunk_store.go\<close>): the hour buckets a time range covers,
  the hash key \<open>user:hour:metric\<close>, the range key \<open>label, value, chunk ID\<close>, the object
  name of a chunk, and the bounds of the range a query scans.
\<close>

section \<open>Hour buckets\<close>

function bigBuckets_loop :: "int \<Rightarrow> int \<Rightarrow> int list" where
  "bigBuckets_loop i throughHour =
     (if i \<le> throughHour then i # bigBuckets_loop (i + 1) throughHour else [])"
  by pat_completeness auto
termination
  by (relation "measure (\<lambda>(i, t). nat (t + 1 - i))") auto

declare bigBuckets_loop.simps [simp del]

definition bigBuckets :: "Time \<Rightarrow> Time \<Rightarrow> int list" where
  "bigBuckets from through =
     (let secondsInHour = 3600;
          fromHour = Unix from sdiv secondsInHour;
          throughHour = Unix through sdiv secondsInHour
      in bigBuckets_loop fromHour throughHour)"

definition hour_of :: "Time \<Rightarrow> int" where
  "hour_of t = Unix t sdiv 3600"

lemma bigBuckets_loop_upto: "bigBuckets_loop i j = [i..j]"
proof (induction i j rule: bigBuckets_loop.induct)
  case (1 i j)
  then show ?case by (subst bigBuckets_loop.simps) (simp add: upto_rec1)
qed

lemma bigBuckets_upto: "bigBuckets f t = [hour_of f..hour_of t]"
  by (simp add: bigBuckets_def hour_of_def bigBuckets_loop_upto)

lemma hour_of_mono: "s \<le> t \<Longrightarrow> hour_of s \<le> hour_of t"
  by (simp add: hour_of_def Unix_mono sdiv_mono)

text \<open>Every instant of the range falls into a bucket of the range.\<close>

lemma bigBuckets_covers: "f \<le> t \<Longrightarrow> t \<le> th \<Longrightarrow> hour_of t \<in> set (bigBuckets f th)"
  by (simp add: bigBuckets_upto hour_of_mono)

text \<open>Two ranges that share an instant share a bucket.\<close>

lemma bigBuckets_overlap:
  assumes "f \<le> t" "t \<le> th" "f' \<le> t" "t \<le> th'"
  shows "set (bigBuckets f th) \<inter> set (bigBuckets f' th') \<noteq> {}"
  using bigBuckets_covers [OF assms(1,2)] bigBuckets_covers [OF assms(3,4)] by blast

section \<open>Names and keys\<close>

definition chunkName :: "string \<Rightarrow> string \<Rightarrow> string" where
  "chunkName userID chunkID = userID @ ''/'' @ chunkID"

definition hashValue :: "string \<Rightarrow> int \<Rightarrow> LabelValue \<Rightarrow> string" where
  "hashValue userID hour metricName = userID @ '':'' @ show_int hour @ '':'' @ metricName"

definition rangeValue :: "LabelName \<Rightarrow> LabelValue \<Rightarrow> string \<Rightarrow> bytes go" where
  "rangeValue label value chunkID = EncodeOrDie [label, value, chunkID]"

definition parseRangeValue :: "bytes \<Rightarrow> err + (LabelName \<times> LabelValue \<times> string)" where
  "parseRangeValue v = dec3 v"

lemma rangeValue_eq:
  "rangeValue l v i = (if null_free l \<and> null_free v \<and> null_free i then Ret (enc3 (l, v, i))
     else Panic ''Cannot encode embedded null characters'')"
  by (simp add: rangeValue_def EncodeOrDie_eq enc3_def)

text \<open>
  The hash key identifies user, hour and metric name as long as user IDs contain no colon,
  and the object name identifies user and chunk as long as user IDs contain no slash.
\<close>

lemma hashValue_inj:
  assumes "CHR '':'' \<notin> set u" "CHR '':'' \<notin> set u'" "hashValue u h n = hashValue u' h' n'"
  shows "u = u' \<and> h = h' \<and> n = n'"
proof -
  from assms(3) have "u @ CHR '':'' # (show_int h @ CHR '':'' # n) = u' @ CHR '':'' # (show_int h' @ CHR '':'' # n')"
    by (simp add: hashValue_def)
  then have u: "u = u'" and r: "show_int h @ CHR '':'' # n = show_int h' @ CHR '':'' # n'"
    using sep_inj [OF assms(1,2)] by blast+
  then have "show_int h = show_int h'" "n = n'"
    using sep_inj [OF show_int_no_colon show_int_no_colon r] by blast+
  with u show ?thesis using show_int_inj by blast
qed

lemma chunkName_inj:
  assumes "CHR ''/'' \<notin> set u" "CHR ''/'' \<notin> set u'" "chunkName u i = chunkName u' i'"
  shows "u = u' \<and> i = i'"
  using sep_inj [OF assms(1,2), of i i'] assms(3) by (simp add: chunkName_def)

section \<open>The end of a scan range\<close>

definition next_str :: "string \<Rightarrow> string go" where
  "next_str s =
     (let l = length s in
      if l = 0 then Panic ''runtime error: slice bounds out of range''
      else Ret (take (l - 1) s @ string_of_byte ((of_char (s ! (l - 1)) + 1) mod 256)))"

text \<open>
  The last byte below which \<open>next\<close> yields a greater string: the code point of the
  incremented byte is re-encoded as UTF-8, which from 196 on gives a smaller lead byte.
\<close>

definition next_ok :: "string \<Rightarrow> bool" where
  "next_ok s \<longleftrightarrow> s \<noteq> [] \<and> (of_char (last s) :: nat) \<le> 195"

lemma append_less_iff: "xs @ ys < xs @ zs \<longleftrightarrow> ys < zs" for ys zs :: string
  by (induction xs) auto

lemma next_str_eq:
  "s \<noteq> [] \<Longrightarrow> next_str s = Ret (butlast s @ string_of_byte ((of_char (last s) + 1) mod 256))"
  by (simp add: next_str_def Let_def butlast_conv_take last_conv_nth)

lemma string_of_byte_gt:
  assumes "(of_char c :: nat) \<le> 195"
  shows "[c] < string_of_byte (of_char c + 1)"
proof -
  let ?n = "of_char c :: nat"
  show ?thesis
  proof (cases "?n + 1 < 128")
    case True
    then show ?thesis by (simp add: string_of_byte_def less_char_def)
  next
    case False
    let ?b = "192 + (?n + 1) div 64"
    have "?n \<le> ?b" "?b < 256" using assms False by linarith+
    then have "?n \<le> of_char (char_of ?b)" by simp
    then have "c \<le> char_of ?b" unfolding less_eq_char_def .
    then have "[c] < char_of ?b # [char_of (128 + (?n + 1) mod 64)]"
      by (auto simp: le_less)
    then show ?thesis using False by (simp only: string_of_byte_def if_False)
  qed
qed

lemma next_str_gt:
  assumes "next_ok s"
  obtains s' where "next_str s = Ret s'" "s < s'"
proof
  have ne: "s \<noteq> []" and le: "(of_char (last s) :: nat) \<le> 195"
    using assms by (simp_all add: next_ok_def)
  let ?s' = "butlast s @ string_of_byte ((of_char (last s) + 1) mod 256)"
  show "next_str s = Ret ?s'" using ne by (rule next_str_eq)
  have m: "(of_char (last s) + 1) mod 256 = of_char (last s) + (1 :: nat)" using le by simp
  have "butlast s @ [last s] < ?s'"
    unfolding m append_less_iff by (rule string_of_byte_gt [OF le])
  then show "s < ?s'" using ne by simp
qed

lemma char_of_not_NUL: "0 < n \<Longrightarrow> n < 256 \<Longrightarrow> char_of n \<noteq> NUL" for n :: nat
proof
  assume n: "0 < n" "n < 256" and "char_of n = NUL"
  then have "(of_char (char_of n :: char) :: nat) = 0" by simp
  with n show False by simp
qed

lemma string_of_byte_null_free: "0 < x \<Longrightarrow> x < 256 \<Longrightarrow> null_free (string_of_byte x)"
proof -
  assume x: "0 < x" "x < 256"
  then have "192 + x div 64 < 256" "128 + x mod 64 < 256" by linarith+
  with x show ?thesis
    using char_of_not_NUL [of x] char_of_not_NUL [of "192 + x div 64"] char_of_not_NUL [of "128 + x mod 64"]
    by (auto simp: string_of_byte_def)
qed

lemma next_str_null_free:
  assumes "next_ok s" "null_free s" "next_str s = Ret s'"
  shows "null_free s'"
proof -
  have "s \<noteq> []" "(of_char (last s) :: nat) \<le> 195" using assms(1) by (simp_all add: next_ok_def)
  then have "s' = butlast s @ string_of_byte (of_char (last s) + 1)"
    using assms(3) by (simp add: next_str_eq)
  then show ?thesis
    using assms(2) \<open>of_char (last s) \<le> 195\<close> string_of_byte_null_free [of "of_char (last s) + 1"]
    by (auto dest: in_set_butlastD)
qed

end
