(* ===== verification/Aws_Api.thy ===== *)
theory Aws_Api
  imports Chunk_Keys
begin

text \<open>
  The two service interfaces of the chunk store, \<open>dynamodbClient\<close> and \<open>s3Client\<close>
  (\<open>chunk/chunk_store.go\<close>), as records of functions over a service state, together
  with two models of vendored code behind them: the page iteration of the AWS SDK
  (\<open>EachPage\<close>) and the in-memory services of \<open>go-mockaws\<close>. The contracts
  \<open>index_service\<close> and \<open>object_store\<close> state what the store relies on, and the
  in-memory services are shown to fulfil them.
\<close>

section \<open>Items, queries and clients\<close>

record AttributeValue =
  attr_S :: "string option"
  attr_B :: "bytes option"

type_synonym item = "string \<rightharpoonup> AttributeValue"

record Condition =
  AttributeValueList :: "AttributeValue list"
  ComparisonOperator :: string

record QueryInput =
  q_TableName :: string
  q_KeyConditions :: "string \<rightharpoonup> Condition"

record QueryOutput =
  Items :: "item list"

record CreateTableInput =
  ct_TableName :: string
  ct_KeySchema :: "(string \<times> string) list"

definition S_attr :: "string \<Rightarrow> AttributeValue" where
  "S_attr s = \<lparr>attr_S = Some s, attr_B = None\<rparr>"

definition B_attr :: "bytes \<Rightarrow> AttributeValue" where
  "B_attr b = \<lparr>attr_S = None, attr_B = Some b\<rparr>"

text \<open>
  What the callback of a paged query accumulates: the chunks found so far and the error of
  the last page, unless a page made it panic.
\<close>

type_synonym page_acc = "(Chunk list \<times> err option) go"
type_synonym page_fn = "page_acc \<Rightarrow> QueryOutput \<Rightarrow> bool \<Rightarrow> page_acc \<times> bool"

record 'd dynamodbClient =
  CreateTable :: "CreateTableInput \<Rightarrow> 'd \<Rightarrow> err option \<times> 'd"
  ListTables :: "nat \<Rightarrow> 'd \<Rightarrow> err + string list"
  BatchWriteItem :: "string \<Rightarrow> item list \<Rightarrow> 'd \<Rightarrow> (err option \<times> 'd) go"
  QueryPages :: "QueryInput \<Rightarrow> 'd \<Rightarrow> page_fn \<Rightarrow> page_acc \<Rightarrow> err option \<times> page_acc"

text \<open>
  \<open>GetObject\<close> returns a body, and reading the body to its end can fail on its own.
\<close>

record 's s3Client =
  PutObject :: "string \<Rightarrow> string \<Rightarrow> bytes \<Rightarrow> 's \<Rightarrow> err option \<times> 's"
  GetObject :: "string \<Rightarrow> string \<Rightarrow> 's \<Rightarrow> err + (err + bytes)"

section \<open>The SDK's page iteration\<close>

text \<open>
  The responses a service would give to the successive page requests of one query: each
  request fails or returns a page, and the page after the last has no token. The loop stops
  at the first failure, when the callback returns false, or after the last page.
\<close>

fun EachPage :: "(err + QueryOutput) list \<Rightarrow> page_fn \<Rightarrow> page_acc \<Rightarrow> err option \<times> page_acc" where
  "EachPage [] fn acc = (None, acc)"
| "EachPage (Inl e # ps) fn acc = (Some e, acc)"
| "EachPage (Inr p # ps) fn acc =
     (case fn acc p (ps = []) of (acc', getNextPage) \<Rightarrow>
        if \<not> getNextPage then (None, acc') else EachPage ps fn acc')"

section \<open>The in-memory DynamoDB of go-mockaws\<close>

record mockDynamoDBTable =
  t_hashKey :: string
  t_rangeKey :: string
  t_items :: "string \<rightharpoonup> item list"

type_synonym MockDynamoDB = "string \<rightharpoonup> mockDynamoDBTable"

definition schema_key :: "string \<Rightarrow> (string \<times> string) list \<Rightarrow> string" where
  "schema_key kt ks = foldl (\<lambda>k (name, t). if t = kt then name else k) [] ks"

definition mock_CreateTable :: "CreateTableInput \<Rightarrow> MockDynamoDB \<Rightarrow> err option \<times> MockDynamoDB" where
  "mock_CreateTable input m =
     (None, m(ct_TableName input \<mapsto>
        \<lparr>t_hashKey = schema_key ''HASH'' (ct_KeySchema input),
         t_rangeKey = schema_key ''RANGE'' (ct_KeySchema input),
         t_items = Map.empty\<rparr>))"

text \<open>\<open>items[i][table.rangeKey].B\<close>; a nil slice compares as the empty one.\<close>

definition item_bytes :: "string \<Rightarrow> item \<Rightarrow> bytes" where
  "item_bytes k it =
     (case it k of None \<Rightarrow> [] | Some a \<Rightarrow> (case attr_B a of None \<Rightarrow> [] | Some b \<Rightarrow> b))"

text \<open>Insertion in the order of the range key, replacing an item with the same key.\<close>

definition insert_item :: "string \<Rightarrow> item \<Rightarrow> item list \<Rightarrow> item list" where
  "insert_item rk it items =
     (let rv = item_bytes rk it;
          i = search (length items) (\<lambda>i. item_bytes rk (items ! i) \<ge> rv)
      in if i \<ge> length items \<or> item_bytes rk (items ! i) \<noteq> rv
         then take i items @ it # drop i items
         else items[i := it])"

definition mock_write :: "item \<Rightarrow> mockDynamoDBTable \<Rightarrow> mockDynamoDBTable go" where
  "mock_write it tbl =
     (case it (t_hashKey tbl) of
        None \<Rightarrow> Panic ''nil pointer dereference''
      | Some ha \<Rightarrow> (case attr_S ha of
          None \<Rightarrow> Panic ''nil pointer dereference''
        | Some hv \<Rightarrow> (case it (t_rangeKey tbl) of
            None \<Rightarrow> Panic ''nil pointer dereference''
          | Some _ \<Rightarrow>
              let items = (case t_items tbl hv of None \<Rightarrow> [] | Some xs \<Rightarrow> xs)
              in Ret (tbl\<lparr>t_items := (t_items tbl)(hv \<mapsto> insert_item (t_rangeKey tbl) it items)\<rparr>))))"

fun mock_writes :: "item list \<Rightarrow> mockDynamoDBTable \<Rightarrow> mockDynamoDBTable go" where
  "mock_writes [] tbl = Ret tbl"
| "mock_writes (it # its) tbl = bind_go (mock_write it tbl) (mock_writes its)"

definition mock_BatchWriteItem :: "string \<Rightarrow> item list \<Rightarrow> MockDynamoDB \<Rightarrow> (err option \<times> MockDynamoDB) go" where
  "mock_BatchWriteItem tableName reqs m =
     (case m tableName of
        None \<Rightarrow> Ret (Some (Err ''table not found''), m)
      | Some tbl \<Rightarrow> bind_go (mock_writes reqs tbl) (\<lambda>tbl'. Ret (None, m(tableName \<mapsto> tbl'))))"

definition value_bytes :: "AttributeValue \<Rightarrow> bytes" where
  "value_bytes a = (case attr_B a of None \<Rightarrow> [] | Some b \<Rightarrow> b)"

definition mock_Query :: "QueryInput \<Rightarrow> MockDynamoDB \<Rightarrow> (err + QueryOutput) go" where
  "mock_Query input m =
     (case m (q_TableName input) of
        None \<Rightarrow> Ret (Inl (Err ''table not found''))
      | Some tbl \<Rightarrow>
          (case q_KeyConditions input (t_hashKey tbl) of
             None \<Rightarrow> Ret (Inl (Err ''must specify hash value condition''))
           | Some hc \<Rightarrow>
               (case AttributeValueList hc of
                  [] \<Rightarrow> Panic ''index out of range''
                | ha # _ \<Rightarrow>
                    (case attr_S ha of
                       None \<Rightarrow> Panic ''nil pointer dereference''
                     | Some hv \<Rightarrow>
                         (case t_items tbl hv of
                            None \<Rightarrow> Ret (Inr \<lparr>Items = []\<rparr>)
                          | Some items \<Rightarrow>
                              (case q_KeyConditions input (t_rangeKey tbl) of
                                 None \<Rightarrow> Ret (Inr \<lparr>Items = items\<rparr>)
                               | Some rc \<Rightarrow>
                                   (case AttributeValueList rc of
                                      lo # hi # _ \<Rightarrow>
                                        let i = search (length items) (\<lambda>i. item_bytes (t_rangeKey tbl) (items ! i) \<ge> value_bytes lo);
                                            j = search (length items) (\<lambda>i. item_bytes (t_rangeKey tbl) (items ! i) > value_bytes hi)
                                        in if i = j then Ret (Inr \<lparr>Items = []\<rparr>)
                                           else if j < i then Panic ''slice bounds out of range''
                                           else Ret (Inr \<lparr>Items = take (j - i) (drop i items)\<rparr>)
                                    | _ \<Rightarrow> Panic ''index out of range'')))))))"

text \<open>One page, and the callback's verdict is ignored.\<close>

definition mock_QueryPages :: "QueryInput \<Rightarrow> MockDynamoDB \<Rightarrow> page_fn \<Rightarrow> page_acc \<Rightarrow> err option \<times> page_acc" where
  "mock_QueryPages input m f acc =
     (case mock_Query input m of
        Ret (Inl e) \<Rightarrow> (Some e, acc)
      | Ret (Inr out) \<Rightarrow> (None, fst (f acc out True))
      | Panic s \<Rightarrow> (None, Panic s)
      | Blocked \<Rightarrow> (None, Blocked))"

text \<open>
  The names a listing returns are the tables that exist, in the order the map is visited;
  \<open>names\<close> is that order.
\<close>

definition mock_dynamodb :: "(MockDynamoDB \<Rightarrow> string list) \<Rightarrow> MockDynamoDB dynamodbClient" where
  "mock_dynamodb names =
     \<lparr>CreateTable = mock_CreateTable, ListTables = (\<lambda>limit m. Inr (names m)),
      BatchWriteItem = mock_BatchWriteItem, QueryPages = mock_QueryPages\<rparr>"

section \<open>The in-memory S3 of go-mockaws\<close>

type_synonym MockS3 = "string \<rightharpoonup> (string \<rightharpoonup> bytes)"

definition mock_PutObject :: "string \<Rightarrow> string \<Rightarrow> bytes \<Rightarrow> MockS3 \<Rightarrow> err option \<times> MockS3" where
  "mock_PutObject bucket key body m =
     (let objects = (case m bucket of None \<Rightarrow> Map.empty | Some b \<Rightarrow> b)
      in (None, m(bucket \<mapsto> objects(key \<mapsto> body))))"

definition mock_GetObject :: "string \<Rightarrow> string \<Rightarrow> MockS3 \<Rightarrow> err + (err + bytes)" where
  "mock_GetObject bucket key m =
     (case m bucket of
        None \<Rightarrow> Inl (Err ''not found'')
      | Some objects \<Rightarrow>
          (case objects key of
             None \<Rightarrow> Inl (Err ''not found'')
           | Some buf \<Rightarrow> Inr (Inr buf)))"

definition mock_s3 :: "MockS3 s3Client" where
  "mock_s3 = \<lparr>PutObject = mock_PutObject, GetObject = mock_GetObject\<rparr>"

section \<open>The contract of the object store\<close>

text \<open>A bucket is a map from keys to bytes; \<open>objs\<close> reads it off the service state.\<close>

locale object_store =
  fixes client :: "'s s3Client" and bucket :: string
    and objs :: "'s \<Rightarrow> string \<rightharpoonup> bytes"
  assumes put_ok: "fst (PutObject client bucket key body s) = None"
    and put_objs: "objs (snd (PutObject client bucket key body s)) = (objs s)(key \<mapsto> body)"
    and get_some: "objs s key = Some body \<Longrightarrow> GetObject client bucket key s = Inr (Inr body)"
begin

lemma get_after_put:
  "GetObject client bucket key (snd (PutObject client bucket key body s)) = Inr (Inr body)"
  by (simp add: get_some put_objs)

end

definition mock_objs :: "string \<Rightarrow> MockS3 \<Rightarrow> string \<rightharpoonup> bytes" where
  "mock_objs bucket m = (case m bucket of None \<Rightarrow> Map.empty | Some b \<Rightarrow> b)"

interpretation mocks3: object_store mock_s3 bucket "mock_objs bucket"
  by unfold_locales
    (auto simp: mock_s3_def mock_PutObject_def mock_GetObject_def mock_objs_def Let_def split: option.splits)

section \<open>The contract of the index\<close>

text \<open>The attribute names of the index table and the shape of an item (\<open>hashKey\<close>, \<open>rangeKey\<close>, \<open>chunkKey\<close>).\<close>

definition hashKey :: string where "hashKey = ''h''"
definition rangeKey :: string where "rangeKey = ''r''"
definition chunkKey :: string where "chunkKey = ''c''"

lemmas key_defs = hashKey_def rangeKey_def chunkKey_def

definition mk_item :: "string \<Rightarrow> bytes \<Rightarrow> bytes \<Rightarrow> item" where
  "mk_item h r c = [hashKey \<mapsto> S_attr h, rangeKey \<mapsto> B_attr r, chunkKey \<mapsto> B_attr c]"

definition hash_query :: "string \<Rightarrow> string \<Rightarrow> QueryInput" where
  "hash_query table hv =
     \<lparr>q_TableName = table,
      q_KeyConditions =
        [hashKey \<mapsto> \<lparr>AttributeValueList = [S_attr hv], ComparisonOperator = ''EQ''\<rparr>]\<rparr>"

definition range_query :: "string \<Rightarrow> string \<Rightarrow> bytes \<Rightarrow> bytes \<Rightarrow> QueryInput" where
  "range_query table hv rangeMin rangeMax =
     \<lparr>q_TableName = table,
      q_KeyConditions =
        [hashKey \<mapsto> \<lparr>AttributeValueList = [S_attr hv], ComparisonOperator = ''EQ''\<rparr>,
         rangeKey \<mapsto> \<lparr>AttributeValueList = [B_attr rangeMin, B_attr rangeMax], ComparisonOperator = ''BETWEEN''\<rparr>]\<rparr>"

text \<open>
  An index is, per hash key, a map from range keys to chunk values. Writing puts the items
  in order; a query hands the callback one page with the items of the range, each once.
\<close>

type_synonym index = "string \<Rightarrow> bytes \<rightharpoonup> bytes"

definition put_entry :: "index \<Rightarrow> string \<times> bytes \<times> bytes \<Rightarrow> index" where
  "put_entry ix w = ix(fst w := (ix (fst w))(fst (snd w) \<mapsto> snd (snd w)))"

definition items_of :: "(string \<times> bytes \<times> bytes) list \<Rightarrow> item list" where
  "items_of ws = map (\<lambda>w. mk_item (fst w) (fst (snd w)) (snd (snd w))) ws"

definition page_of :: "string \<Rightarrow> (bytes \<times> bytes) list \<Rightarrow> QueryOutput" where
  "page_of h rs = \<lparr>Items = map (\<lambda>rc. mk_item h (fst rc) (snd rc)) rs\<rparr>"

locale index_service =
  fixes client :: "'d dynamodbClient" and table :: string
    and idx :: "'d \<Rightarrow> index" and inv :: "'d \<Rightarrow> bool"
  assumes write_items: "inv d \<Longrightarrow>
      \<exists>d'. BatchWriteItem client table (items_of ws) d = Ret (None, d') \<and> inv d' \<and> idx d' = foldl put_entry (idx d) ws"
    and query_hash: "inv d \<Longrightarrow>
      \<exists>rs. distinct (map fst rs) \<and> map_of rs = idx d h \<and>
        (\<forall>f acc. QueryPages client (hash_query table h) d f acc = (None, fst (f acc (page_of h rs) True)))"
    and query_between: "inv d \<Longrightarrow> lo \<le> hi \<Longrightarrow>
      \<exists>rs. distinct (map fst rs) \<and> map_of rs = (idx d h) |` {lo..hi} \<and>
        (\<forall>f acc. QueryPages client (range_query table h lo hi) d f acc = (None, fst (f acc (page_of h rs) True)))"

section \<open>The in-memory DynamoDB fulfils the contract\<close>

lemma mk_item_simps [simp]:
  "mk_item h r c hashKey = Some (S_attr h)"
  "mk_item h r c rangeKey = Some (B_attr r)"
  "mk_item h r c chunkKey = Some (B_attr c)"
  by (simp_all add: mk_item_def key_defs)

lemma item_bytes_mk [simp]:
  "item_bytes rangeKey (mk_item h r c) = r" "item_bytes chunkKey (mk_item h r c) = c"
  by (simp_all add: item_bytes_def B_attr_def)

definition mk_pair :: "string \<Rightarrow> bytes \<times> bytes \<Rightarrow> item" where
  "mk_pair h rc = mk_item h (fst rc) (snd rc)"

lemma item_bytes_mk_pair [simp]: "item_bytes rangeKey (mk_pair h rc) = fst rc"
  by (simp add: mk_pair_def)

definition sorted_keys :: "(bytes \<times> bytes) list \<Rightarrow> bool" where
  "sorted_keys rs \<longleftrightarrow> sorted_wrt (<) (map fst rs)"

lemma sorted_keys_sorted: "sorted_keys rs \<Longrightarrow> sorted (map fst rs) \<and> distinct (map fst rs)"
  by (simp add: sorted_keys_def strict_sorted_iff)

text \<open>The position a search for a key finds splits the list by that key.\<close>

lemma search_items_ge:
  assumes "sorted_keys rs"
  shows "search (length (map (mk_pair h) rs)) (\<lambda>i. item_bytes rangeKey (map (mk_pair h) rs ! i) \<ge> r) =
    length (filter (\<lambda>rc. fst rc < r) rs)"
proof -
  have "sorted (map (item_bytes rangeKey) (map (mk_pair h) rs))"
    using sorted_keys_sorted [OF assms] by (simp add: o_def)
  from gosearch.search_ge [OF this, of r] show ?thesis by (simp add: filter_map o_def)
qed

lemma search_items_gt:
  assumes "sorted_keys rs"
  shows "search (length (map (mk_pair h) rs)) (\<lambda>i. item_bytes rangeKey (map (mk_pair h) rs ! i) > r) =
    length (filter (\<lambda>rc. fst rc \<le> r) rs)"
proof -
  have "sorted (map (item_bytes rangeKey) (map (mk_pair h) rs))"
    using sorted_keys_sorted [OF assms] by (simp add: o_def)
  from gosearch.search_gt [OF this, of r] show ?thesis by (simp add: filter_map o_def)
qed

lemma insert_item_sorted:
  assumes "sorted_keys rs"
  obtains rs' where "insert_item rangeKey (mk_item h r c) (map (mk_pair h) rs) = map (mk_pair h) rs'"
    "sorted_keys rs'" "map_of rs' = (map_of rs)(r \<mapsto> c)"
proof -
  define L where "L = filter (\<lambda>rc. fst rc < r) rs"
  define R where "R = filter (\<lambda>rc. \<not> fst rc < r) rs"
  have rs: "rs = L @ R"
    using sorted_split_filter [of fst rs "\<lambda>k. k < r"] sorted_keys_sorted [OF assms] by (simp add: L_def R_def)
  have sL: "\<forall>x\<in>set L. fst x < r" and sR: "\<forall>x\<in>set R. r \<le> fst x" by (auto simp: L_def R_def)
  have srt: "sorted_keys L" "sorted_keys R" "\<forall>x\<in>set L. \<forall>y\<in>set R. fst x < fst y"
    using assms unfolding rs sorted_keys_def by (auto simp: strict_sorted_append)
  note srch = search_items_ge [OF assms, of h r, folded L_def]
  have new: "mk_item h r c = mk_pair h (r, c)" by (simp add: mk_pair_def)
  have notL: "map_of L r = None" using sL by (force simp: map_of_eq_None_iff)
  show thesis
  proof (cases "R \<noteq> [] \<and> fst (hd R) = r")
    case True
    then obtain c0 R' where R: "R = (r, c0) # R'" by (cases R) auto
    have "insert_item rangeKey (mk_item h r c) (map (mk_pair h) rs) = map (mk_pair h) (L @ (r, c) # R')"
      using srch by (simp add: insert_item_def Let_def rs R nth_append new list_update_append)
    moreover have "sorted_keys (L @ (r, c) # R')"
      using srt sL unfolding R sorted_keys_def by (auto simp: strict_sorted_append)
    moreover have "map_of (L @ (r, c) # R') = (map_of rs)(r \<mapsto> c)"
      using notL by (auto simp: rs R map_add_def fun_eq_iff split: option.splits)
    ultimately show thesis by (rule that)
  next
    case False
    then have gt: "\<forall>x\<in>set R. r < fst x"
      using sR srt(2) by (cases R) (auto simp: sorted_keys_def le_less dest: order.strict_trans)
    have "insert_item rangeKey (mk_item h r c) (map (mk_pair h) rs) = map (mk_pair h) (L @ (r, c) # R)"
      using srch False by (auto simp: insert_item_def Let_def rs nth_append new hd_conv_nth split: if_splits)
    moreover have "sorted_keys (L @ (r, c) # R)"
      using srt sL gt unfolding sorted_keys_def by (auto simp: strict_sorted_append)
    moreover have "map_of (L @ (r, c) # R) = (map_of rs)(r \<mapsto> c)"
      using notL by (auto simp: rs map_add_def fun_eq_iff split: option.splits)
    ultimately show thesis by (rule that)
  qed
qed

definition table_ok :: "mockDynamoDBTable \<Rightarrow> bool" where
  "table_ok tbl \<longleftrightarrow> t_hashKey tbl = hashKey \<and> t_rangeKey tbl = rangeKey \<and>
     (\<forall>h items. t_items tbl h = Some items \<longrightarrow> (\<exists>rs. items = map (mk_pair h) rs \<and> sorted_keys rs))"

definition table_idx :: "mockDynamoDBTable \<Rightarrow> index" where
  "table_idx tbl h = (case t_items tbl h of None \<Rightarrow> Map.empty
     | Some items \<Rightarrow> map_of (map (\<lambda>it. (item_bytes rangeKey it, item_bytes chunkKey it)) items))"

definition mock_inv :: "string \<Rightarrow> MockDynamoDB \<Rightarrow> bool" where
  "mock_inv table m \<longleftrightarrow> (case m table of None \<Rightarrow> False | Some tbl \<Rightarrow> table_ok tbl)"

definition mock_idx :: "string \<Rightarrow> MockDynamoDB \<Rightarrow> index" where
  "mock_idx table m = (case m table of None \<Rightarrow> (\<lambda>_. Map.empty) | Some tbl \<Rightarrow> table_idx tbl)"

text \<open>The rows a well-formed table keeps for a hash key.\<close>

lemma table_rows:
  assumes "table_ok tbl"
  obtains rs where "sorted_keys rs" "table_idx tbl h = map_of rs"
    "(case t_items tbl h of None \<Rightarrow> [] | Some xs \<Rightarrow> xs) = map (mk_pair h) rs"
proof (cases "t_items tbl h")
  case None
  then show ?thesis by (intro that [of "[]"]) (simp_all add: sorted_keys_def table_idx_def)
next
  case (Some items)
  then obtain rs where rs: "items = map (mk_pair h) rs" "sorted_keys rs"
    using assms by (auto simp: table_ok_def)
  have "table_idx tbl h = map_of rs"
    using Some rs(1) by (simp add: table_idx_def o_def mk_pair_def)
  then show ?thesis using that rs Some by simp
qed

lemma mock_write_ok:
  assumes "table_ok tbl"
  obtains tbl' where "mock_write (mk_item h r c) tbl = Ret tbl'" "table_ok tbl'"
    "table_idx tbl' = put_entry (table_idx tbl) (h, r, c)"
proof -
  obtain rs where rs: "sorted_keys rs" "table_idx tbl h = map_of rs"
    "(case t_items tbl h of None \<Rightarrow> [] | Some xs \<Rightarrow> xs) = map (mk_pair h) rs"
    using table_rows [OF assms] .
  obtain rs' where rs': "insert_item rangeKey (mk_item h r c) (map (mk_pair h) rs) = map (mk_pair h) rs'"
    "sorted_keys rs'" "map_of rs' = (map_of rs)(r \<mapsto> c)"
    using insert_item_sorted [OF rs(1)] .
  let ?t = "tbl\<lparr>t_items := (t_items tbl)(h \<mapsto> map (mk_pair h) rs')\<rparr>"
  have "mock_write (mk_item h r c) tbl = Ret ?t"
    using assms rs(3) rs'(1) by (simp add: mock_write_def table_ok_def S_attr_def)
  moreover have "table_ok ?t" using assms rs'(2) by (auto simp: table_ok_def)
  moreover have "table_idx ?t = put_entry (table_idx tbl) (h, r, c)"
  proof
    fix h'
    show "table_idx ?t h' = put_entry (table_idx tbl) (h, r, c) h'"
      using rs(2) rs'(3) by (cases "h' = h") (simp_all add: table_idx_def put_entry_def o_def mk_pair_def)
  qed
  ultimately show thesis by (rule that)
qed

lemma mock_writes_ok:
  assumes "table_ok tbl"
  shows "\<exists>tbl'. mock_writes (items_of ws) tbl = Ret tbl' \<and> table_ok tbl' \<and>
    table_idx tbl' = foldl put_entry (table_idx tbl) ws"
  using assms
proof (induction ws arbitrary: tbl)
  case Nil
  then show ?case by (simp add: items_of_def)
next
  case (Cons w ws)
  obtain h r c where w: "w = (h, r, c)" by (cases w)
  obtain tbl1 where "mock_write (mk_item h r c) tbl = Ret tbl1" "table_ok tbl1"
    "table_idx tbl1 = put_entry (table_idx tbl) (h, r, c)"
    using mock_write_ok [OF Cons.prems] .
  with Cons.IH [of tbl1] show ?case by (simp add: items_of_def w)
qed

lemma rows_between:
  assumes "sorted_keys rs" "lo \<le> hi"
  shows "take (length (filter (\<lambda>rc. fst rc \<le> hi) rs) - length (filter (\<lambda>rc. fst rc < lo) rs))
      (drop (length (filter (\<lambda>rc. fst rc < lo) rs)) rs) = filter (\<lambda>rc. lo \<le> fst rc \<and> fst rc \<le> hi) rs"
proof -
  define A where "A = filter (\<lambda>rc. fst rc < lo) rs"
  define B where "B = filter (\<lambda>rc. \<not> fst rc < lo) rs"
  have rs: "rs = A @ B"
    using sorted_split_filter [of fst rs "\<lambda>k. k < lo"] sorted_keys_sorted [OF assms(1)]
    by (simp add: A_def B_def)
  then have sB: "sorted (map fst B)" using sorted_keys_sorted [OF assms(1)] by (simp add: sorted_append)
  have hiA: "filter (\<lambda>rc. fst rc \<le> hi) A = A"
    unfolding filter_id_conv A_def using assms(2) by auto
  have B: "B = filter (\<lambda>rc. fst rc \<le> hi) B @ filter (\<lambda>rc. \<not> fst rc \<le> hi) B"
    using sorted_split_filter [OF sB, of "\<lambda>k. k \<le> hi"] by simp
  have n: "length (filter (\<lambda>rc. fst rc \<le> hi) rs) - length A = length (filter (\<lambda>rc. fst rc \<le> hi) B)"
    by (simp add: rs hiA)
  have "take (length (filter (\<lambda>rc. fst rc \<le> hi) B)) B = filter (\<lambda>rc. fst rc \<le> hi) B"
    by (subst (2) B) simp
  moreover have "filter (\<lambda>rc. fst rc \<le> hi) B = filter (\<lambda>rc. lo \<le> fst rc \<and> fst rc \<le> hi) rs"
    unfolding B_def by (auto simp: not_less intro: filter_cong)
  moreover have "drop (length A) rs = B" by (simp add: rs)
  ultimately show ?thesis unfolding A_def [symmetric] n by simp
qed

lemma map_of_filter_key: "map_of (filter (\<lambda>rc. P (fst rc)) rs) = map_of rs |` {k. P k}"
  by (induction rs) (auto simp: restrict_map_def fun_eq_iff)

lemma mock_Query_between:
  assumes "d table = Some tbl" "table_ok tbl" "sorted_keys rs"
    and rows: "(case t_items tbl h of None \<Rightarrow> [] | Some xs \<Rightarrow> xs) = map (mk_pair h) rs" and "lo \<le> hi"
  shows "mock_Query (range_query table h lo hi) d =
    Ret (Inr \<lparr>Items = map (mk_pair h) (filter (\<lambda>rc. lo \<le> fst rc \<and> fst rc \<le> hi) rs)\<rparr>)"
proof -
  have keys: "t_hashKey tbl = hashKey" "t_rangeKey tbl = rangeKey" using assms(2) by (simp_all add: table_ok_def)
  let ?i = "length (filter (\<lambda>rc. fst rc < lo) rs)" and ?j = "length (filter (\<lambda>rc. fst rc \<le> hi) rs)"
  let ?b = "filter (\<lambda>rc. lo \<le> fst rc \<and> fst rc \<le> hi) rs"
  have bt: "take (?j - ?i) (drop ?i rs) = ?b" by (rule rows_between [OF assms(3,5)])
  have ij: "?i \<le> ?j"
    using assms(5) by (induction rs) auto
  have emp: "?i = ?j \<Longrightarrow> ?b = []" using bt by simp
  have conds: "q_KeyConditions (range_query table h lo hi) hashKey = Some \<lparr>AttributeValueList = [S_attr h], ComparisonOperator = ''EQ''\<rparr>"
    "q_KeyConditions (range_query table h lo hi) rangeKey = Some \<lparr>AttributeValueList = [B_attr lo, B_attr hi], ComparisonOperator = ''BETWEEN''\<rparr>"
    "q_TableName (range_query table h lo hi) = table"
    by (simp_all add: range_query_def key_defs)
  have vb: "value_bytes (B_attr b) = b" for b by (simp add: value_bytes_def B_attr_def)
  show ?thesis
  proof (cases "t_items tbl h")
    case None
    then have "rs = []" using rows by simp
    then show ?thesis using None by (simp add: mock_Query_def conds assms(1) keys S_attr_def)
  next
    case (Some items)
    then have items: "items = map (mk_pair h) rs" using rows by simp
    have srch: "search (length items) (\<lambda>i. item_bytes rangeKey (items ! i) \<ge> lo) = ?i"
      "search (length items) (\<lambda>i. item_bytes rangeKey (items ! i) > hi) = ?j"
      unfolding items by (rule search_items_ge [OF assms(3)], rule search_items_gt [OF assms(3)])
    have tk: "take (?j - ?i) (drop ?i items) = map (mk_pair h) ?b"
      unfolding items bt [symmetric] by (simp add: take_map drop_map)
    show ?thesis
      using ij emp
      by (simp add: mock_Query_def conds assms(1) keys Some S_attr_def vb srch Let_def tk)
  qed
qed

interpretation mockdb: index_service "mock_dynamodb names" table "mock_idx table" "mock_inv table"
proof
  fix d ws h and lo hi :: bytes
  assume inv: "mock_inv table d"
  then obtain tbl where tbl: "d table = Some tbl" "table_ok tbl"
    by (auto simp: mock_inv_def split: option.splits)
  show "\<exists>d'. BatchWriteItem (mock_dynamodb names) table (items_of ws) d = Ret (None, d') \<and>
      mock_inv table d' \<and> mock_idx table d' = foldl put_entry (mock_idx table d) ws"
    using mock_writes_ok [OF tbl(2), of ws] tbl(1)
    by (auto simp: mock_dynamodb_def mock_BatchWriteItem_def mock_inv_def mock_idx_def)
  obtain rs where rs: "sorted_keys rs" "table_idx tbl h = map_of rs"
    "(case t_items tbl h of None \<Rightarrow> [] | Some xs \<Rightarrow> xs) = map (mk_pair h) rs"
    using table_rows [OF tbl(2)] .
  have keys: "t_hashKey tbl = hashKey" "t_rangeKey tbl = rangeKey" using tbl(2) by (simp_all add: table_ok_def)
  have page: "page_of h xs = \<lparr>Items = map (mk_pair h) xs\<rparr>" for xs
    by (simp add: page_of_def mk_pair_def)
  have idx: "mock_idx table d h = map_of rs" using tbl(1) rs(2) by (simp add: mock_idx_def)
  have "mock_Query (hash_query table h) d = Ret (Inr (page_of h rs))"
    using tbl(1) keys rs(3)
    by (simp add: mock_Query_def hash_query_def S_attr_def key_defs page split: option.splits)
  then show "\<exists>rs. distinct (map fst rs) \<and> map_of rs = mock_idx table d h \<and>
      (\<forall>f acc. QueryPages (mock_dynamodb names) (hash_query table h) d f acc = (None, fst (f acc (page_of h rs) True)))"
    using idx sorted_keys_sorted [OF rs(1)]
    by (intro exI [of _ rs]) (simp add: mock_dynamodb_def mock_QueryPages_def)
  assume le: "lo \<le> hi"
  let ?rs = "filter (\<lambda>rc. lo \<le> fst rc \<and> fst rc \<le> hi) rs"
  have q: "mock_Query (range_query table h lo hi) d = Ret (Inr (page_of h ?rs))"
    unfolding page using tbl rs(1,3) le by (rule mock_Query_between)
  have "map_of ?rs = mock_idx table d h |` {lo..hi}"
    using map_of_filter_key [of "\<lambda>k. lo \<le> k \<and> k \<le> hi" rs] by (simp add: idx atLeastAtMost_def atLeast_def atMost_def Collect_conj_eq)
  moreover have "distinct (map fst ?rs)"
    using sorted_keys_sorted [OF rs(1)] by (simp add: distinct_map_filter)
  ultimately show "\<exists>rs. distinct (map fst rs) \<and> map_of rs = mock_idx table d h |` {lo..hi} \<and>
      (\<forall>f acc. QueryPages (mock_dynamodb names) (range_query table h lo hi) d f acc = (None, fst (f acc (page_of h rs) True)))"
    using q by (intro exI [of _ ?rs]) (simp add: mock_dynamodb_def mock_QueryPages_def)
qed

end
