(* ===== verification/Chunk_Cache.thy ===== *)
theory Chunk_Cache
  imports Chunk_Keys
begin

text \<open>
  The chunk cache (\<open>chunk/chunk_cache.go\<close>). The memcache client is a record of functions
  over the state of the servers; the request counters and latencies are not modelled.
  \<open>StoreChunks\<close> hands each goroutine a pointer to the loop variable, so what a goroutine
  stores depends on when it reads that variable: the model takes the reads as an argument.
\<close>

record 'm Memcache =
  GetMulti :: "string list \<Rightarrow> 'm \<Rightarrow> err + (string \<rightharpoonup> bytes)"
  MSet :: "string \<Rightarrow> bytes \<Rightarrow> int \<Rightarrow> 'm \<Rightarrow> err option \<times> 'm"

record 'm Cache =
  Memcache :: "'m Memcache"
  Expiration :: int

text \<open>The errors the memcache package exports, and the status code reported for one.\<close>

definition ErrCacheMiss :: err where
  "ErrCacheMiss = Err ''memcache: cache miss''"

definition ErrMalformedKey :: err where
  "ErrMalformedKey = Err ''malformed: key is too long or contains invalid characters''"

definition memcacheStatusCode :: "err option \<Rightarrow> string" where
  "memcacheStatusCode e =
     (if e = None then ''200''
      else if e = Some ErrCacheMiss then ''404''
      else if e = Some ErrMalformedKey then ''400''
      else ''500'')"

definition memcacheKey :: "string \<Rightarrow> string \<Rightarrow> string" where
  "memcacheKey userID chunkID = userID @ ''/'' @ chunkID"

section \<open>FetchChunkData\<close>

fun split_cached :: "(string \<rightharpoonup> bytes) \<Rightarrow> string \<Rightarrow> Chunk list \<Rightarrow> Chunk list \<times> Chunk list" where
  "split_cached items userID [] = ([], [])"
| "split_cached items userID (chunk # cs) =
     (case split_cached items userID cs of (found, missing) \<Rightarrow>
       (case items (memcacheKey userID (ID chunk)) of
          None \<Rightarrow> (found, chunk # missing)
        | Some v \<Rightarrow> (chunk\<lparr>Data := v\<rparr> # found, missing)))"

definition FetchChunkData :: "'m Cache \<Rightarrow> string \<Rightarrow> Chunk list \<Rightarrow> 'm \<Rightarrow> Chunk list \<times> Chunk list \<times> err option" where
  "FetchChunkData c userID chunks m =
     (let keys = map (\<lambda>chunk. memcacheKey userID (ID chunk)) chunks
      in case GetMulti (Memcache c) keys m of
           Inl e \<Rightarrow> ([], chunks, Some e)
         | Inr items \<Rightarrow> (case split_cached items userID chunks of (found, missing) \<Rightarrow> (found, missing, None)))"

lemma split_cached_filter:
  "split_cached items u cs =
     (map (\<lambda>c. c\<lparr>Data := the (items (memcacheKey u (ID c)))\<rparr>) (filter (\<lambda>c. items (memcacheKey u (ID c)) \<noteq> None) cs),
      filter (\<lambda>c. items (memcacheKey u (ID c)) = None) cs)"
  by (induction cs) (auto split: option.splits)

section \<open>Storing\<close>

text \<open>\<open>Expiration\<close> counts nanoseconds; the item carries whole seconds.\<close>

definition store_item :: "'m Cache \<Rightarrow> string \<Rightarrow> bytes \<Rightarrow> 'm \<Rightarrow> err option \<times> 'm" where
  "store_item c key data m = MSet (Memcache c) key data (Expiration c sdiv 1000000000) m"

definition StoreChunkData :: "'m Cache \<Rightarrow> string \<Rightarrow> Chunk \<Rightarrow> 'm \<Rightarrow> err option \<times> 'm" where
  "StoreChunkData c userID chunk m = store_item c (memcacheKey userID (ID chunk)) (Data chunk) m"

text \<open>
  Goroutine \<open>i\<close> of \<open>StoreChunks\<close> starts with the loop variable at element \<open>i\<close>. It
  reads the ID and then the data through the shared pointer; by then the loop may have moved
  on, but never past the last element.
\<close>

type_synonym reads = "nat \<Rightarrow> nat \<times> nat"

definition racy_reads :: "nat \<Rightarrow> reads \<Rightarrow> bool" where
  "racy_reads n rd \<longleftrightarrow> (\<forall>i<n. i \<le> fst (rd i) \<and> fst (rd i) \<le> snd (rd i) \<and> snd (rd i) < n)"

fun store_each :: "'m Cache \<Rightarrow> string \<Rightarrow> Chunk list \<Rightarrow> reads \<Rightarrow> nat list \<Rightarrow> 'm \<Rightarrow> err option list \<times> 'm" where
  "store_each c userID chunks rd [] m = ([], m)"
| "store_each c userID chunks rd (i # is) m =
     (case store_item c (memcacheKey userID (ID (chunks ! fst (rd i)))) (Data (chunks ! snd (rd i))) m of
        (e, m1) \<Rightarrow> (case store_each c userID chunks rd is m1 of (es, m2) \<Rightarrow> (e # es, m2)))"

definition StoreChunks :: "'m Cache \<Rightarrow> schedule \<Rightarrow> reads \<Rightarrow> string \<Rightarrow> Chunk list \<Rightarrow> 'm \<Rightarrow> err option \<times> 'm" where
  "StoreChunks c sched rd userID chunks m =
     (case store_each c userID chunks rd (sched (length chunks)) m of (es, m') \<Rightarrow> (last_err es, m'))"

section \<open>The contract of memcache\<close>

text \<open>
  A cache may forget and may refuse, but it never returns a value that was not the last one
  stored under the key: its contents are a map, and a fetch returns part of it.
\<close>

locale memcache_service =
  fixes cache :: "'m Cache" and mem :: "'m \<Rightarrow> string \<rightharpoonup> bytes"
  assumes get_sub: "GetMulti (Memcache cache) keys m = Inr items \<Longrightarrow> items k = Some v \<Longrightarrow> mem m k = Some v"
    and set_sub: "mem (snd (MSet (Memcache cache) k v e m)) k' = Some v' \<Longrightarrow>
      (k' = k \<and> v' = v) \<or> mem m k' = Some v'"
begin

text \<open>Agreement with the object store: every cached value is the stored object's.\<close>

definition agrees :: "(string \<rightharpoonup> bytes) \<Rightarrow> 'm \<Rightarrow> bool" where
  "agrees objs m \<longleftrightarrow> (\<forall>k v. mem m k = Some v \<longrightarrow> objs k = Some v)"

lemma agrees_store:
  assumes "agrees objs m" "objs (memcacheKey u (ID c)) = Some (Data c)"
  shows "agrees objs (snd (StoreChunkData cache u c m))"
  using assms set_sub unfolding agrees_def StoreChunkData_def store_item_def by blast

lemma fetch_found:
  assumes "FetchChunkData cache u cs m = (found, missing, e)" "agrees objs m" "c \<in> set found"
  obtains c0 where "c0 \<in> set cs" "c = c0\<lparr>Data := Data c\<rparr>" "objs (memcacheKey u (ID c0)) = Some (Data c)"
proof (cases "GetMulti (Memcache cache) (map (\<lambda>chunk. memcacheKey u (ID chunk)) cs) m")
  case (Inl e')
  then show ?thesis using assms by (simp add: FetchChunkData_def)
next
  case (Inr items)
  then obtain c0 v where "c0 \<in> set cs" "items (memcacheKey u (ID c0)) = Some v" "c = c0\<lparr>Data := v\<rparr>"
    using assms(1,3) by (auto simp: FetchChunkData_def Let_def split_cached_filter)
  moreover have "objs (memcacheKey u (ID c0)) = Some v"
    using get_sub [OF Inr] calculation(2) assms(2) by (auto simp: agrees_def)
  ultimately show ?thesis using that [of c0] by simp
qed

end

text \<open>An in-process memcache: a map that remembers everything.\<close>

definition map_memcache :: "(string \<rightharpoonup> bytes) Memcache" where
  "map_memcache =
     \<lparr>GetMulti = (\<lambda>keys m. Inr (m |` set keys)), MSet = (\<lambda>k v e m. (None, m(k \<mapsto> v)))\<rparr>"

interpretation mapcache: memcache_service "\<lparr>Memcache = map_memcache, Expiration = e\<rparr>" "\<lambda>m. m"
  by unfold_locales (auto simp: map_memcache_def restrict_map_def split: if_splits)

end
