(* ===== verification/User_Id.thy ===== *)
theory User_Id
  imports Frank_Prelude
begin

text \<open>
  The tenant in a request context (\<open>user/id.go\<close>). A context carries values under keys;
  the only value the program stores is the user ID string.
\<close>

type_synonym Context = "string \<rightharpoonup> string"

definition Background :: Context where
  "Background = Map.empty"

definition userIDContextKey :: string where
  "userIDContextKey = ''FrankensteinUserID''"

definition GetID :: "Context \<Rightarrow> err + string" where
  "GetID ctx = (case ctx userIDContextKey of None \<Rightarrow> Inl (Err ''no user id'') | Some userid \<Rightarrow> Inr userid)"

definition WithID :: "Context \<Rightarrow> string \<Rightarrow> Context" where
  "WithID ctx userID = ctx(userIDContextKey \<mapsto> userID)"

lemma GetID_WithID [simp]: "GetID (WithID ctx u) = Inr u"
  by (simp add: GetID_def WithID_def)

lemma GetID_Background [simp]: "GetID Background = Inl (Err ''no user id'')"
  by (simp add: GetID_def Background_def)

end
