(* ===== verification/Chunk_Read.thy ===== *)
theory Chunk_Read
  imports Aws_Api Chunk_Cache User_Id
begin

text \<open>
  The read path of the chunk store (\<open>chunk/chunk_store.go\<close>, \<open>Get\<close> and what it
  calls): the metric name is taken out of the matchers, every hour bucket is queried in its
  own goroutine, within it every matcher in its own, the per-matcher sets are intersected and
  the per-hour sets merged, and the data of the chunks comes from the cache or from S3.
\<close>

section \<open>The store and the state of its services\<close>

record ('d, 's, 'm) AWSStore =
  dynamodb :: "'d dynamodbClient"
  s3 :: "'s s3Client"
  chunkCache :: "'m Cache option"
  tableName :: string
  bucketName :: string
  putLimiter :: "nat option"

record ('d, 's, 'm) World =
  db_state :: 'd
  s3_state :: 's
  mem_state :: 'm

text \<open>
  The order in which the goroutines of one call complete, the loop-variable reads of
  \<open>StoreChunks\<close>, and the order in which a \<open>range\<close> over a metric visits it.
\<close>

record Orders =
  hours_ord :: schedule
  matchers_ord :: "int \<Rightarrow> schedule"
  fetch_ord :: schedule
  store_ord :: schedule
  store_reads :: reads
  put_ord :: schedule
  batch_ord :: schedule
  range_ord :: "string \<Rightarrow> int \<Rightarrow> schedule"

definition fair_orders :: "Orders \<Rightarrow> bool" where
  "fair_orders S \<longleftrightarrow> fair (hours_ord S) \<and> (\<forall>h. fair (matchers_ord S h)) \<and> fair (fetch_ord S) \<and>
     fair (store_ord S) \<and> fair (put_ord S) \<and> fair (batch_ord S) \<and> (\<forall>i h. fair (range_ord S i h))"

text \<open>The JSON codec of \<open>Chunk\<close>: \<open>ID\<close> and \<open>Data\<close> carry the tag \<open>json:"-"\<close>.\<close>

record Codec =
  marshal :: "Chunk \<Rightarrow> err + bytes"
  unmarshal :: "bytes \<Rightarrow> Chunk \<Rightarrow> err + Chunk"

section \<open>Processing a response\<close>

definition empty_chunk :: "string \<Rightarrow> Chunk" where
  "empty_chunk i = \<lparr>ID = i, From = 0, Through = 0, Metric = [], Data = []\<rparr>"

fun processItems :: "Codec \<Rightarrow> LabelMatcher option \<Rightarrow> item list \<Rightarrow> Chunk list \<Rightarrow> (err option \<times> Chunk list) go" where
  "processItems J matcher [] chunkSet = Ret (None, chunkSet)"
| "processItems J matcher (it # its) chunkSet =
     (case it rangeKey of
        None \<Rightarrow> Panic ''nil pointer dereference''
      | Some ra \<Rightarrow>
     (case attr_B ra of
        None \<Rightarrow> Ret (Some (Err ''invalid item''), chunkSet)
      | Some rv \<Rightarrow>
     (case parseRangeValue rv of
        Inl e \<Rightarrow> Ret (Some e, chunkSet)
      | Inr (label, value, chunkID) \<Rightarrow>
     (case it chunkKey of
        None \<Rightarrow> Panic ''nil pointer dereference''
      | Some ca \<Rightarrow>
     (case attr_B ca of
        None \<Rightarrow> Ret (Some (Err ''invalid item''), chunkSet)
      | Some cv \<Rightarrow>
     (case unmarshal J cv (empty_chunk chunkID) of
        Inl e \<Rightarrow> Ret (Some e, chunkSet)
      | Inr chunk \<Rightarrow>
          if (case matcher of None \<Rightarrow> False | Some m \<Rightarrow> label \<noteq> m_Name m \<or> \<not> Match m value)
          then processItems J matcher its chunkSet
          else processItems J matcher its (chunkSet @ [chunk])))))))"

definition processResponse :: "Codec \<Rightarrow> QueryOutput \<Rightarrow> Chunk list \<Rightarrow> LabelMatcher option \<Rightarrow> (err option \<times> Chunk list) go" where
  "processResponse J resp chunkSet matcher = processItems J matcher (Items resp) chunkSet"

text \<open>The callback both lookups pass to \<open>QueryPages\<close>.\<close>

definition page_callback :: "Codec \<Rightarrow> LabelMatcher option \<Rightarrow> page_fn" where
  "page_callback J matcher acc resp lastPage =
     (case acc of
        Ret (chunkSet, _) \<Rightarrow>
          (case processResponse J resp chunkSet matcher of
             Ret (processingError, cs) \<Rightarrow> (Ret (cs, processingError), processingError \<noteq> None \<and> \<not> lastPage)
           | Panic s \<Rightarrow> (Panic s, False)
           | Blocked \<Rightarrow> (Blocked, False))
      | Panic s \<Rightarrow> (Panic s, False)
      | Blocked \<Rightarrow> (Blocked, False))"

definition query_result :: "err option \<times> page_acc \<Rightarrow> (err + Chunk list) go" where
  "query_result r =
     bind_go (snd r) (\<lambda>(chunkSet, processingError).
       Ret (case fst r of
              Some e \<Rightarrow> Inl e
            | None \<Rightarrow> (case processingError of Some e \<Rightarrow> Inl e | None \<Rightarrow> Inr chunkSet)))"

section \<open>Lookups in one hour\<close>

definition lookupChunksForMetricName ::
  "Codec \<Rightarrow> ('d, 's, 'm) AWSStore \<Rightarrow> 'd \<Rightarrow> string \<Rightarrow> int \<Rightarrow> LabelValue \<Rightarrow> (err + Chunk list) go" where
  "lookupChunksForMetricName J c d userID hour metricName =
     (let input = hash_query (tableName c) (hashValue userID hour metricName)
      in bind_err (query_result (QueryPages (dynamodb c) input d (page_callback J None) (Ret ([], None))))
           (\<lambda>chunkSet. Ret (Inr (unique (sort_ByID chunkSet)))))"

definition scan_range :: "LabelMatcher \<Rightarrow> (bytes \<times> bytes) go" where
  "scan_range matcher =
     (if m_Type matcher = Equal then
        bind_go (next_str (m_Value matcher)) (\<lambda>nextValue.
        bind_go (rangeValue (m_Name matcher) (m_Value matcher) []) (\<lambda>rangeMinValue.
        bind_go (rangeValue (m_Name matcher) nextValue []) (\<lambda>rangeMaxValue.
        Ret (rangeMinValue, rangeMaxValue))))
      else
        bind_go (next_str (m_Name matcher)) (\<lambda>nextLabel.
        bind_go (rangeValue (m_Name matcher) [] []) (\<lambda>rangeMinValue.
        bind_go (rangeValue nextLabel [] []) (\<lambda>rangeMaxValue.
        Ret (rangeMinValue, rangeMaxValue)))))"

definition lookupChunksForMatcher ::
  "Codec \<Rightarrow> ('d, 's, 'm) AWSStore \<Rightarrow> 'd \<Rightarrow> string \<Rightarrow> int \<Rightarrow> LabelValue \<Rightarrow> LabelMatcher \<Rightarrow> (err + Chunk list) go" where
  "lookupChunksForMatcher J c d userID hour metricName matcher =
     bind_go (scan_range matcher) (\<lambda>(rangeMinValue, rangeMaxValue).
       let input = range_query (tableName c) (hashValue userID hour metricName) rangeMinValue rangeMaxValue
       in bind_err (query_result (QueryPages (dynamodb c) input d (page_callback J (Some matcher)) (Ret ([], None))))
            (\<lambda>chunkSet. Ret (Inr (sort_ByID chunkSet))))"

section \<open>Collecting the results of goroutines\<close>

text \<open>
  A panic in any goroutine ends the process; otherwise the results are received in the order
  of completion, the values are collected and the last error is kept.
\<close>

fun gather :: "'a go list \<Rightarrow> 'a list go" where
  "gather [] = Ret []"
| "gather (x # xs) = bind_go x (\<lambda>a. bind_go (gather xs) (\<lambda>as. Ret (a # as)))"

definition received :: "(err + 'a) list \<Rightarrow> 'a list" where
  "received rs = concat (map (\<lambda>r. case r of Inl _ \<Rightarrow> [] | Inr a \<Rightarrow> [a]) rs)"

definition err_of :: "err + 'a \<Rightarrow> err option" where
  "err_of r = (case r of Inl e \<Rightarrow> Some e | Inr _ \<Rightarrow> None)"

definition lookupChunksFor ::
  "Codec \<Rightarrow> Orders \<Rightarrow> ('d, 's, 'm) AWSStore \<Rightarrow> 'd \<Rightarrow> string \<Rightarrow> int \<Rightarrow> LabelValue \<Rightarrow> LabelMatcher list \<Rightarrow> (err + Chunk list) go" where
  "lookupChunksFor J S c d userID hour metricName matchers =
     (if matchers = [] then lookupChunksForMetricName J c d userID hour metricName
      else
        bind_go (gather (permute (matchers_ord S hour)
            (map (lookupChunksForMatcher J c d userID hour metricName) matchers)))
          (\<lambda>rs. Ret (case last_err (map err_of rs) of
             Some e \<Rightarrow> Inl e
           | None \<Rightarrow> Inr (nWayIntersect (received rs)))))"

section \<open>extractMetricName\<close>

text \<open>
  Removing the matcher copies the tail of the slice one place down in the caller's array.
  The second component is that array afterwards.
\<close>

fun extract_loop :: "LabelMatcher list \<Rightarrow> LabelMatcher list \<Rightarrow>
    (err + (LabelValue \<times> LabelMatcher list)) \<times> LabelMatcher list" where
  "extract_loop pre [] = (Inl (Err ''no matcher for MetricNameLabel''), pre)"
| "extract_loop pre (m # ms) =
     (if m_Name m \<noteq> MetricNameLabel then extract_loop (pre @ [m]) ms
      else if m_Type m \<noteq> Equal then
        (Inl (Err ''must have equality matcher for MetricNameLabel''), pre @ m # ms)
      else (Inr (m_Value m, pre @ ms), pre @ ms @ [last (m # ms)]))"

definition extractMetricName :: "LabelMatcher list \<Rightarrow>
    (err + (LabelValue \<times> LabelMatcher list)) \<times> LabelMatcher list" where
  "extractMetricName matchers = extract_loop [] matchers"

section \<open>Lookups over all hours\<close>

definition lookupChunks ::
  "Codec \<Rightarrow> Orders \<Rightarrow> ('d, 's, 'm) AWSStore \<Rightarrow> 'd \<Rightarrow> string \<Rightarrow> Time \<Rightarrow> Time \<Rightarrow> LabelMatcher list \<Rightarrow> (err + Chunk list) go" where
  "lookupChunks J S c d userID from through matchers =
     (case fst (extractMetricName matchers) of
        Inl e \<Rightarrow> Ret (Inl e)
      | Inr (metricName, ms) \<Rightarrow>
          bind_go (gather (permute (hours_ord S)
              (map (\<lambda>hour. lookupChunksFor J S c d userID hour metricName ms) (bigBuckets from through))))
            (\<lambda>rs. Ret (case last_err (map err_of rs) of
               Some e \<Rightarrow> Inl e
             | None \<Rightarrow> Inr (foldl merge [] (received rs)))))"

section \<open>Fetching the data\<close>

definition fetch_one :: "('d, 's, 'm) AWSStore \<Rightarrow> 's \<Rightarrow> string \<Rightarrow> Chunk \<Rightarrow> err + Chunk" where
  "fetch_one c s userID chunk =
     (case GetObject (s3 c) (bucketName c) (chunkName userID (ID chunk)) s of
        Inl e \<Rightarrow> Inl e
      | Inr body \<Rightarrow> (case body of Inl e \<Rightarrow> Inl e | Inr buf \<Rightarrow> Inr (chunk\<lparr>Data := buf\<rparr>)))"

definition fetchChunkData ::
  "Orders \<Rightarrow> ('d, 's, 'm) AWSStore \<Rightarrow> 's \<Rightarrow> string \<Rightarrow> Chunk list \<Rightarrow> err + Chunk list" where
  "fetchChunkData S c s userID chunkSet =
     (let rs = permute (fetch_ord S) (map (fetch_one c s userID) chunkSet);
          errors = concat (map (\<lambda>r. case r of Inl e \<Rightarrow> [e] | Inr _ \<Rightarrow> []) rs)
      in if errors \<noteq> [] then Inl (hd errors) else Inr (received rs))"

section \<open>Get\<close>

definition fill_cache ::
  "Orders \<Rightarrow> ('d, 's, 'm) AWSStore \<Rightarrow> string \<Rightarrow> Chunk list \<Rightarrow> 'm \<Rightarrow> 'm" where
  "fill_cache S c userID fromS3 m =
     (case chunkCache c of
        None \<Rightarrow> m
      | Some cache \<Rightarrow> snd (StoreChunks cache (store_ord S) (store_reads S) userID fromS3 m))"

definition Get ::
  "Codec \<Rightarrow> Orders \<Rightarrow> ('d, 's, 'm) AWSStore \<Rightarrow> Context \<Rightarrow> Time \<Rightarrow> Time \<Rightarrow> LabelMatcher list \<Rightarrow>
   ('d, 's, 'm) World \<Rightarrow> (err + Chunk list \<times> ('d, 's, 'm) World) go" where
  "Get J S c ctx from through matchers w =
     (case GetID ctx of
        Inl e \<Rightarrow> Ret (Inl e)
      | Inr userID \<Rightarrow>
          bind_err (lookupChunks J S c (db_state w) userID from through matchers) (\<lambda>found.
            let (fromCache, missing) =
                  (case chunkCache c of
                     None \<Rightarrow> ([], found)
                   | Some cache \<Rightarrow>
                       (case FetchChunkData cache userID found (mem_state w) of (f, mi, _) \<Rightarrow> (f, mi)))
            in case fetchChunkData S c (s3_state w) userID missing of
                 Inl e \<Rightarrow> Ret (Inl e)
               | Inr fromS3 \<Rightarrow>
                   Ret (Inr (sort_ByID (fromCache @ fromS3),
                     w\<lparr>mem_state := fill_cache S c userID fromS3 (mem_state w)\<rparr>))))"

end
