(* ===== verification/Store_Lookup.thy ===== *)
theory Store_Lookup
  imports Chunk_Read
begin

text \<open>
  Correctness of the read path, relative to the contracts of the services. The locale
  \<open>chunk_index\<close> adds to the index contract the law of the chunk codec; the abstract
  state of a store is, per user, the set of chunks that were put. \<open>represents\<close> says which
  index entries stand for which chunks, and \<open>selects\<close> is the specification of a query.
\<close>

section \<open>The abstract store\<close>

type_synonym stored = "string \<Rightarrow> Chunk set"

definition descr :: "Chunk \<Rightarrow> Chunk" where
  "descr c = c\<lparr>Data := []\<rparr>"

lemma ID_descr [simp]: "ID (descr c) = ID c" "Metric (descr c) = Metric c"
  by (simp_all add: descr_def)

definition encodable :: "Chunk \<Rightarrow> bool" where
  "encodable c \<longleftrightarrow> wf_metric (Metric c) \<and> null_free (ID c) \<and>
     (\<forall>(l, v) \<in> set (Metric c). null_free l \<and> null_free v)"

text \<open>The index entries of a chunk: one per hour bucket and label other than the name.\<close>

definition entry_of :: "Chunk \<Rightarrow> LabelValue \<Rightarrow> int \<Rightarrow> LabelName \<Rightarrow> LabelValue \<Rightarrow> bool" where
  "entry_of c name hour l v \<longleftrightarrow>
     map_of (Metric c) MetricNameLabel = Some name \<and> hour \<in> set (bigBuckets (From c) (Through c)) \<and>
     map_of (Metric c) l = Some v \<and> l \<noteq> MetricNameLabel"

definition stored_ok :: "(Chunk \<Rightarrow> bool) \<Rightarrow> string set \<Rightarrow> stored \<Rightarrow> bool" where
  "stored_ok valid U C \<longleftrightarrow>
     (\<forall>u\<in>U. CHR '':'' \<notin> set u \<and> CHR ''/'' \<notin> set u \<and> inj_on ID (C u) \<and>
       (\<forall>c \<in> C u. valid c \<and> encodable c))"

definition label_ok :: "LabelMatcher list \<Rightarrow> Chunk \<Rightarrow> bool" where
  "label_ok ms c \<longleftrightarrow>
     (if ms = [] then \<exists>l v. map_of (Metric c) l = Some v \<and> l \<noteq> MetricNameLabel
      else \<forall>m\<in>set ms. m_Name m \<noteq> MetricNameLabel \<and> (\<exists>v. map_of (Metric c) (m_Name m) = Some v \<and> Match m v))"

definition selects_hour :: "int \<Rightarrow> LabelValue \<Rightarrow> LabelMatcher list \<Rightarrow> Chunk \<Rightarrow> bool" where
  "selects_hour hour name ms c \<longleftrightarrow>
     map_of (Metric c) MetricNameLabel = Some name \<and> hour \<in> set (bigBuckets (From c) (Through c)) \<and> label_ok ms c"

text \<open>
  A query selects a chunk if the metric name is the one asked for, the two time ranges share
  an hour bucket, and every matcher is satisfied by a label of the chunk.
\<close>

definition selects :: "Time \<Rightarrow> Time \<Rightarrow> LabelValue \<Rightarrow> LabelMatcher list \<Rightarrow> Chunk \<Rightarrow> bool" where
  "selects from through name ms c \<longleftrightarrow>
     map_of (Metric c) MetricNameLabel = Some name \<and>
     set (bigBuckets (From c) (Through c)) \<inter> set (bigBuckets from through) \<noteq> {} \<and> label_ok ms c"

lemma selects_hours:
  "selects from through name ms c \<longleftrightarrow> (\<exists>h \<in> set (bigBuckets from through). selects_hour h name ms c)"
  by (auto simp: selects_def selects_hour_def)

text \<open>The matchers whose scan range is well defined.\<close>

definition scan_ok :: "LabelMatcher \<Rightarrow> bool" where
  "scan_ok m \<longleftrightarrow> null_free (m_Name m) \<and>
     (if m_Type m = Equal then next_ok (m_Value m) \<and> null_free (m_Value m) else next_ok (m_Name m))"

text \<open>The scan range of a matcher contains every entry the matcher can accept.\<close>

lemma scan_range_covers:
  assumes "scan_ok m"
  obtains lo hi where "scan_range m = Ret (lo, hi)" "lo \<le> hi"
    "\<forall>v i. null_free v \<and> null_free i \<and> Match m v \<longrightarrow> lo \<le> enc3 (m_Name m, v, i) \<and> enc3 (m_Name m, v, i) \<le> hi"
proof (cases "m_Type m = Equal")
  case True
  then have ok: "next_ok (m_Value m)" "null_free (m_Value m)" "null_free (m_Name m)"
    using assms by (simp_all add: scan_ok_def)
  obtain v' where v': "next_str (m_Value m) = Ret v'" "m_Value m < v'" using next_str_gt [OF ok(1)] .
  have nf: "null_free v'" using next_str_null_free [OF ok(1,2) v'(1)] .
  show ?thesis
  proof
    show "scan_range m = Ret (enc3 (m_Name m, m_Value m, []), enc3 (m_Name m, v', []))"
      using True ok nf v'(1) by (simp add: scan_range_def rangeValue_eq)
    show "enc3 (m_Name m, m_Value m, []) \<le> enc3 (m_Name m, v', [])"
      using lex3.enc_range2 [of "m_Name m" "m_Value m" v' "[]"] ok nf v'(2) by simp
    show "\<forall>v i. null_free v \<and> null_free i \<and> Match m v \<longrightarrow>
        enc3 (m_Name m, m_Value m, []) \<le> enc3 (m_Name m, v, i) \<and> enc3 (m_Name m, v, i) \<le> enc3 (m_Name m, v', [])"
      using True lex3.enc_range2 [of "m_Name m" "m_Value m" v'] ok nf v'(2) by (simp add: Match_def)
  qed
next
  case False
  then have ok: "next_ok (m_Name m)" "null_free (m_Name m)"
    using assms by (simp_all add: scan_ok_def)
  obtain l' where l': "next_str (m_Name m) = Ret l'" "m_Name m < l'" using next_str_gt [OF ok(1)] .
  have nf: "null_free l'" using next_str_null_free [OF ok l'(1)] .
  show ?thesis
  proof
    show "scan_range m = Ret (enc3 (m_Name m, [], []), enc3 (l', [], []))"
      using False ok nf l'(1) by (simp add: scan_range_def rangeValue_eq)
    show "enc3 (m_Name m, [], []) \<le> enc3 (l', [], [])"
      using lex3.enc_range1 [of "m_Name m" l' "[]" "[]"] ok nf l'(2) by simp
    show "\<forall>v i. null_free v \<and> null_free i \<and> Match m v \<longrightarrow>
        enc3 (m_Name m, [], []) \<le> enc3 (m_Name m, v, i) \<and> enc3 (m_Name m, v, i) \<le> enc3 (l', [], [])"
      using lex3.enc_range1 [of "m_Name m" l'] ok nf l'(2) by simp
  qed
qed

section \<open>Merging and collecting\<close>

lemma gather_Ret: "gather (map (\<lambda>x. Ret (f x)) xs) = Ret (map f xs)"
  by (induction xs) simp_all

lemma received_Inr [simp]: "received (map (\<lambda>x. Inr (f x)) xs) = map f xs"
  by (induction xs) (simp_all add: received_def)

lemma last_err_Inr [simp]: "last_err (map err_of (map (\<lambda>x. Inr (f x)) xs)) = None"
  by (simp add: last_err_None_iff err_of_def)

text \<open>Goroutines that all succeed: the values arrive in the order of completion.\<close>

lemma gather_permute_ok:
  assumes "fair s" and "\<And>x. x \<in> set xs \<Longrightarrow> f x = Ret (Inr (g x))"
  shows "gather (permute s (map f xs)) = Ret (map (\<lambda>x. Inr (g x)) (permute s xs))"
proof -
  have "map f (permute s xs) = map (\<lambda>x. Ret (Inr (g x))) (permute s xs)"
    using assms(2) by (auto simp: set_permute [OF assms(1)])
  then show ?thesis by (simp only: permute_map [OF assms(1)] gather_Ret)
qed

lemma inj_on_ID_descr: "inj_on ID X \<Longrightarrow> inj_on ID (descr ` X)"
  by (auto simp: inj_on_def)

lemma foldl_merge:
  assumes "byid_set acc" "\<forall>s\<in>set sets. byid_set s" "inj_on ID (set acc \<union> (\<Union>s\<in>set sets. set s))"
  shows "byid_set (foldl merge acc sets) \<and> set (foldl merge acc sets) = set acc \<union> (\<Union>s\<in>set sets. set s)"
  using assms
proof (induction sets arbitrary: acc)
  case Nil
  then show ?case by simp
next
  case (Cons s sets)
  have "b \<in> set acc" if b: "b \<in> set s" "ID b \<in> ids acc" for b
  proof -
    obtain a where "a \<in> set acc" "ID a = ID b" using b(2) by (auto simp: ids_def)
    then have "a = b" using b(1) by (intro inj_onD [OF Cons.prems(3)]) auto
    then show ?thesis using \<open>a \<in> set acc\<close> by simp
  qed
  then have m: "set (merge acc s) = set acc \<union> set s"
    using set_merge_eq [of acc s] Cons.prems by auto
  moreover have "byid_set (merge acc s)" using Cons.prems by (simp add: byid_set_merge)
  ultimately show ?case using Cons.IH [of "merge acc s"] Cons.prems by (simp add: Un_assoc)
qed

lemma set_nWayIntersect:
  assumes "sets \<noteq> []" "\<forall>s\<in>set sets. byid_set s" "inj_on ID (\<Union>s\<in>set sets. set s)"
  shows "set (nWayIntersect sets) = (\<Inter>s\<in>set sets. set s)"
proof -
  have mem: "c \<in> set s \<longleftrightarrow> ID c \<in> ids s" if c: "c \<in> set (hd sets)" "s \<in> set sets" for c s
  proof
    assume "ID c \<in> ids s"
    then obtain d where "d \<in> set s" "ID c = ID d" by (auto simp: ids_def)
    moreover have "c = d" using calculation c hd_in_set [OF assms(1)] by (intro inj_onD [OF assms(3)]) auto
    ultimately show "c \<in> set s" by simp
  qed (simp add: ids_def)
  have "set (nWayIntersect sets) = {c \<in> set (hd sets). \<forall>s\<in>set sets. c \<in> set s}"
    using mem by (auto simp: nWayIntersect_eq [OF assms(1,2)])
  then show ?thesis using hd_in_set [OF assms(1)] by blast
qed

lemma set_unique_inj:
  assumes "inj_on ID (set cs)"
  shows "set (unique cs) = set cs"
proof
  show "set (unique cs) \<subseteq> set cs" by (rule set_unique)
  show "set cs \<subseteq> set (unique cs)"
  proof
    fix c assume "c \<in> set cs"
    then have "ID c \<in> ids (unique cs)" unfolding ids_unique by (simp add: ids_def)
    then obtain d where "d \<in> set (unique cs)" "ID d = ID c" by (auto simp: ids_def)
    then have "d = c" using set_unique \<open>c \<in> set cs\<close> by (intro inj_onD [OF assms]) auto
    with \<open>d \<in> set (unique cs)\<close> show "c \<in> set (unique cs)" by simp
  qed
qed

lemma list_all2_choice: "\<forall>x\<in>set xs. \<exists>y. P x y \<Longrightarrow> \<exists>ys. list_all2 P xs ys"
  by (induction xs) (auto intro: list_all2_Cons [THEN iffD2])

section \<open>The index as a representation of the stored chunks\<close>

locale chunk_index = index_service client table idx inv
  for client :: "'d dynamodbClient" and table :: string and idx :: "'d \<Rightarrow> index" and inv :: "'d \<Rightarrow> bool" +
  fixes J :: Codec and valid :: "Chunk \<Rightarrow> bool"
  assumes codec: "valid c \<Longrightarrow>
    \<exists>b. marshal J c = Inr b \<and>
      (\<forall>i. unmarshal J b (empty_chunk i) =
         Inr ((empty_chunk i)\<lparr>From := From c, Through := Through c, Metric := Metric c\<rparr>))"
begin

definition represents :: "string set \<Rightarrow> index \<Rightarrow> stored \<Rightarrow> bool" where
  "represents U ix C \<longleftrightarrow>
     (\<forall>u\<in>U. \<forall>name hour r b. ix (hashValue u hour name) r = Some b \<longleftrightarrow>
        (\<exists>c\<in>C u. \<exists>l v. entry_of c name hour l v \<and> r = enc3 (l, v, ID c) \<and> marshal J c = Inr b))"

text \<open>An index row, read as the label, the value and the chunk it was written for.\<close>

definition row :: "Chunk set \<Rightarrow> LabelValue \<Rightarrow> int \<Rightarrow> bytes \<times> bytes \<Rightarrow> LabelName \<times> LabelValue \<times> Chunk \<Rightarrow> bool" where
  "row X name hour rc e \<longleftrightarrow> (case e of (l, v, c) \<Rightarrow>
     c \<in> X \<and> entry_of c name hour l v \<and> fst rc = enc3 (l, v, ID c) \<and> marshal J c = Inr (snd rc))"

definition passes :: "LabelMatcher option \<Rightarrow> LabelName \<Rightarrow> LabelValue \<Rightarrow> bool" where
  "passes mo l v \<longleftrightarrow> (case mo of None \<Rightarrow> True | Some m \<Rightarrow> l = m_Name m \<and> Match m v)"

lemma unmarshal_descr:
  assumes "valid c" "marshal J c = Inr b"
  shows "unmarshal J b (empty_chunk (ID c)) = Inr (descr c)"
  using codec [OF assms(1)] assms(2) by (cases c) (auto simp: empty_chunk_def descr_def)

lemma entry_null_free:
  assumes "encodable c" "entry_of c name hour l v"
  shows "null_free l \<and> null_free v \<and> null_free (ID c)"
  using assms map_of_SomeD [of "Metric c" l v] by (auto simp: encodable_def entry_of_def)

lemma processItems_rows:
  assumes "list_all2 (row X name hour) rs es" "\<forall>c\<in>X. valid c \<and> encodable c"
  shows "processItems J mo (Items (page_of h rs)) acc =
    Ret (None, acc @ map (\<lambda>(l, v, c). descr c) (filter (\<lambda>(l, v, c). passes mo l v) es))"
  using assms(1)
proof (induction rs es arbitrary: acc rule: list_all2_induct)
  case Nil
  then show ?case by (simp add: page_of_def)
next
  case (Cons rc rs e es)
  obtain l v c where e: "e = (l, v, c)" by (cases e)
  with Cons.hyps(1) have c: "c \<in> X" "entry_of c name hour l v" "fst rc = enc3 (l, v, ID c)" "marshal J c = Inr (snd rc)"
    by (simp_all add: row_def)
  have nf: "null_free l" "null_free v" "null_free (ID c)"
    using entry_null_free [of c name hour l v] assms(2) c(1,2) by blast+
  have p: "parseRangeValue (enc3 (l, v, ID c)) = Inr (l, v, ID c)"
    unfolding parseRangeValue_def using nf by (rule lex3.dec_enc)
  have "unmarshal J (snd rc) (empty_chunk (ID c)) = Inr (descr c)"
    using unmarshal_descr assms(2) c(1,4) by blast
  then show ?case
    using Cons.IH by (simp add: page_of_def e c(3) p B_attr_def passes_def split: option.splits)
qed

lemma page_callback_rows:
  assumes "list_all2 (row X name hour) rs es" "\<forall>c\<in>X. valid c \<and> encodable c"
  shows "query_result (None, fst (page_callback J mo (Ret ([], None)) (page_of h rs) True)) =
    Ret (Inr (map (\<lambda>(l, v, c). descr c) (filter (\<lambda>(l, v, c). passes mo l v) es)))"
  using processItems_rows [OF assms, of mo h "[]"]
  by (simp add: page_callback_def processResponse_def query_result_def)

text \<open>The rows a query returns, read as entries: each row stands for exactly one.\<close>

lemma row_exists:
  assumes "represents U ix C" "u \<in> U" "ix (hashValue u hour name) (fst rc) = Some (snd rc)"
  shows "\<exists>e. row (C u) name hour rc e"
proof -
  obtain c l v where "c \<in> C u" "entry_of c name hour l v" "fst rc = enc3 (l, v, ID c)" "marshal J c = Inr (snd rc)"
    using assms unfolding represents_def by blast
  then have "row (C u) name hour rc (l, v, c)" by (simp add: row_def)
  then show ?thesis ..
qed

lemma row_unique:
  assumes "inj_on ID X" "\<forall>c\<in>X. encodable c" "row X name hour rc e" "row X name hour rc e'"
  shows "e = e'"
proof -
  obtain l v c where e: "e = (l, v, c)" by (cases e)
  obtain l' v' c' where e': "e' = (l', v', c')" by (cases e')
  have r: "c \<in> X" "entry_of c name hour l v" "c' \<in> X" "entry_of c' name hour l' v'"
    and enc: "enc3 (l, v, ID c) = enc3 (l', v', ID c')"
    using assms(3,4) by (simp_all add: row_def e e')
  have "lex3.ok3 (l, v, ID c)" "lex3.ok3 (l', v', ID c')"
    using entry_null_free [OF _ r(2)] entry_null_free [OF _ r(4)] r(1,3) assms(2)
    by (simp_all add: lex3.ok3_def)
  then have "(l, v, ID c) = (l', v', ID c')" using enc by (rule lex3.enc_inj)
  then show ?thesis using inj_onD [OF assms(1) _ r(1,3)] by (simp add: e e')
qed

lemma rows_entries:
  assumes rep: "represents U ix C" and ok: "stored_ok valid U C" and u: "u \<in> U"
    and rs: "distinct (map fst rs)" "map_of rs = ix (hashValue u hour name) |` R"
  obtains es where "list_all2 (row (C u) name hour) rs es" "distinct es"
    "set es = {(l, v, c). c \<in> C u \<and> entry_of c name hour l v \<and> enc3 (l, v, ID c) \<in> R}"
proof -
  have inj: "inj_on ID (C u)" and enc: "\<forall>c\<in>C u. encodable c" and val: "\<forall>c\<in>C u. valid c"
    using ok u by (simp_all add: stored_ok_def)
  have mem: "(r, b) \<in> set rs \<longleftrightarrow> r \<in> R \<and> ix (hashValue u hour name) r = Some b" for r b
    using map_of_eq_Some_iff [OF rs(1), of r b] by (auto simp: rs(2) restrict_map_def split: if_splits)
  have "\<forall>rc\<in>set rs. \<exists>e. row (C u) name hour rc e"
    using row_exists [OF rep u] mem by (metis prod.collapse)
  then obtain es where es: "list_all2 (row (C u) name hour) rs es" using list_all2_choice by blast
  have rows: "e \<in> set es \<longleftrightarrow> (\<exists>rc\<in>set rs. row (C u) name hour rc e)" for e
  proof
    assume "\<exists>rc\<in>set rs. row (C u) name hour rc e"
    then obtain i where i: "i < length rs" "row (C u) name hour (rs ! i) e" by (auto simp: in_set_conv_nth)
    then have "row (C u) name hour (rs ! i) (es ! i)" "i < length es"
      using es by (simp_all add: list_all2_conv_all_nth)
    then show "e \<in> set es" using row_unique [OF inj enc i(2)] by simp
  next
    assume "e \<in> set es"
    then obtain i where "i < length es" "e = es ! i" by (auto simp: in_set_conv_nth)
    then have "row (C u) name hour (rs ! i) e" "rs ! i \<in> set rs"
      using es by (simp_all add: list_all2_conv_all_nth)
    then show "\<exists>rc\<in>set rs. row (C u) name hour rc e" ..
  qed
  have "distinct es"
  proof (unfold distinct_conv_nth, intro allI impI)
    fix i j assume ij: "i < length es" "j < length es" "i \<noteq> j"
    then have "row (C u) name hour (rs ! i) (es ! i)" "row (C u) name hour (rs ! j) (es ! j)"
      and "fst (rs ! i) \<noteq> fst (rs ! j)"
      using es rs(1) by (auto simp: list_all2_conv_all_nth distinct_conv_nth)
    then show "es ! i \<noteq> es ! j" by (auto simp: row_def split: prod.splits)
  qed
  moreover have "e \<in> set es \<longleftrightarrow> e \<in> {(l, v, c). c \<in> C u \<and> entry_of c name hour l v \<and> enc3 (l, v, ID c) \<in> R}" for e
  proof -
    obtain l v c where e: "e = (l, v, c)" by (cases e)
    have m: "\<exists>b. marshal J c = Inr b" if "c \<in> C u" using codec val that by blast
    have ix: "ix (hashValue u hour name) (enc3 (l, v, ID c)) = Some b"
      if "c \<in> C u" "entry_of c name hour l v" "marshal J c = Inr b" for b
      using rep u that unfolding represents_def by blast
    have "(\<exists>rc\<in>set rs. row (C u) name hour rc e) \<longleftrightarrow>
        (\<exists>b. (enc3 (l, v, ID c), b) \<in> set rs \<and> c \<in> C u \<and> entry_of c name hour l v \<and> marshal J c = Inr b)"
      by (force simp: e row_def)
    also have "\<dots> \<longleftrightarrow> c \<in> C u \<and> entry_of c name hour l v \<and> enc3 (l, v, ID c) \<in> R"
      unfolding mem using m ix by blast
    finally show ?thesis unfolding rows by (simp add: e)
  qed
  ultimately show ?thesis using es that by blast
qed

section \<open>Lookups return what the specification selects\<close>

lemma inj_descr: "stored_ok valid U C \<Longrightarrow> u \<in> U \<Longrightarrow> X \<subseteq> C u \<Longrightarrow> inj_on ID (descr ` X)"
  by (rule inj_on_ID_descr) (auto simp: stored_ok_def intro: inj_on_subset)

definition wf_state :: "string set \<Rightarrow> 'd \<Rightarrow> stored \<Rightarrow> bool" where
  "wf_state U d C \<longleftrightarrow> inv d \<and> represents U (idx d) C \<and> stored_ok valid U C"

lemma lookup_matcher:
  assumes wf: "wf_state U d C" and u: "u \<in> U" and st: "dynamodb st = client" "tableName st = table" and m: "scan_ok m"
  shows "\<exists>X. lookupChunksForMatcher J st d u hour name m = Ret (Inr X) \<and> byid_set X \<and>
    set X = descr ` {c \<in> C u. selects_hour hour name [m] c}"
proof -
  have inv: "inv d" and rep: "represents U (idx d) C" and ok: "stored_ok valid U C"
    using wf by (simp_all add: wf_state_def)
  obtain lo hi where sr: "scan_range m = Ret (lo, hi)" "lo \<le> hi"
    and cov: "\<forall>v i. null_free v \<and> null_free i \<and> Match m v \<longrightarrow> lo \<le> enc3 (m_Name m, v, i) \<and> enc3 (m_Name m, v, i) \<le> hi"
    using scan_range_covers [OF m] .
  obtain rs where rs: "distinct (map fst rs)" "map_of rs = idx d (hashValue u hour name) |` {lo..hi}"
    and q: "\<And>f acc. QueryPages client (range_query table (hashValue u hour name) lo hi) d f acc =
      (None, fst (f acc (page_of (hashValue u hour name) rs) True))"
    using query_between [OF inv sr(2), of "hashValue u hour name"] by blast
  obtain es where es: "list_all2 (row (C u) name hour) rs es" "distinct es"
    "set es = {(l, v, c). c \<in> C u \<and> entry_of c name hour l v \<and> enc3 (l, v, ID c) \<in> {lo..hi}}"
    using rows_entries [OF rep ok u rs] .
  let ?es = "filter (\<lambda>(l, v, c). passes (Some m) l v) es"
  let ?X = "map (\<lambda>(l, v, c). descr c) ?es"
  have vc: "\<forall>c\<in>C u. valid c \<and> encodable c" using ok u by (simp add: stored_ok_def)
  have "query_result (QueryPages (dynamodb st) (range_query (tableName st) (hashValue u hour name) lo hi) d
      (page_callback J (Some m)) (Ret ([], None))) = Ret (Inr ?X)"
    unfolding st q by (rule page_callback_rows [OF es(1) vc])
  then have res: "lookupChunksForMatcher J st d u hour name m = Ret (Inr (sort_ByID ?X))"
    by (simp add: lookupChunksForMatcher_def sr(1) Let_def)
  have mem: "(l, v, c) \<in> set ?es \<longleftrightarrow> c \<in> C u \<and> entry_of c name hour l v \<and> l = m_Name m \<and> Match m v" for l v c
    using cov entry_null_free [of c name hour l v] vc by (auto simp: es(3) passes_def)
  have "set ?X = descr ` {c \<in> C u. selects_hour hour name [m] c}"
  proof (intro set_eqI iffI)
    fix x assume "x \<in> set ?X"
    then obtain l v c where "(l, v, c) \<in> set ?es" "x = descr c" by auto
    then show "x \<in> descr ` {c \<in> C u. selects_hour hour name [m] c}"
      unfolding mem by (auto simp: selects_hour_def entry_of_def label_ok_def)
  next
    fix x assume "x \<in> descr ` {c \<in> C u. selects_hour hour name [m] c}"
    then obtain c v where c: "c \<in> C u" "x = descr c" "entry_of c name hour (m_Name m) v" "Match m v"
      by (auto simp: selects_hour_def entry_of_def label_ok_def)
    then have "(m_Name m, v, c) \<in> set ?es" unfolding mem by simp
    then show "x \<in> set ?X" using c(2) by force
  qed
  moreover have "distinct (map ID ?X)"
  proof -
    have "inj_on (\<lambda>(l, v, c). ID c) (set ?es)"
    proof (rule inj_onI)
      fix e e' assume *: "e \<in> set ?es" "e' \<in> set ?es" "(case e of (l, v, c) \<Rightarrow> ID c) = (case e' of (l, v, c) \<Rightarrow> ID c)"
      obtain l v c l' v' c' where e: "e = (l, v, c)" "e' = (l', v', c')" by (cases e, cases e')
      have "inj_on ID (C u)" using ok u by (simp add: stored_ok_def)
      then have "c = c'" using * unfolding e mem by (auto dest: inj_onD)
      then show "e = e'" using * unfolding e mem by (auto simp: entry_of_def)
    qed
    moreover have "map ID ?X = map (\<lambda>(l, v, c). ID c) ?es" by auto
    ultimately show ?thesis using es(2) by (simp only: distinct_map distinct_filter)
  qed
  ultimately show ?thesis
    using res gosort.sort_set [of ID ?X] byid_set_sort [of ?X] by (auto simp: sort_ByID_def)
qed

lemma lookup_metric_name:
  assumes wf: "wf_state U d C" and u: "u \<in> U" and st: "dynamodb st = client" "tableName st = table"
  shows "\<exists>X. lookupChunksForMetricName J st d u hour name = Ret (Inr X) \<and> byid_set X \<and>
    set X = descr ` {c \<in> C u. selects_hour hour name [] c}"
proof -
  have inv: "inv d" and rep: "represents U (idx d) C" and ok: "stored_ok valid U C"
    using wf by (simp_all add: wf_state_def)
  obtain rs where rs: "distinct (map fst rs)" "map_of rs = idx d (hashValue u hour name) |` UNIV"
    and q: "\<And>f acc. QueryPages client (hash_query table (hashValue u hour name)) d f acc =
      (None, fst (f acc (page_of (hashValue u hour name) rs) True))"
    using query_hash [OF inv, of "hashValue u hour name"] by (auto simp: restrict_map_def)
  obtain es where es: "list_all2 (row (C u) name hour) rs es" "distinct es"
    "set es = {(l, v, c). c \<in> C u \<and> entry_of c name hour l v \<and> enc3 (l, v, ID c) \<in> UNIV}"
    using rows_entries [OF rep ok u rs] .
  let ?X = "map (\<lambda>(l, v, c). descr c) (filter (\<lambda>(l, v, c). passes None l v) es)"
  have vc: "\<forall>c\<in>C u. valid c \<and> encodable c" using ok u by (simp add: stored_ok_def)
  have "query_result (QueryPages (dynamodb st) (hash_query (tableName st) (hashValue u hour name)) d
      (page_callback J None) (Ret ([], None))) = Ret (Inr ?X)"
    unfolding st q by (rule page_callback_rows [OF es(1) vc])
  then have res: "lookupChunksForMetricName J st d u hour name = Ret (Inr (unique (sort_ByID ?X)))"
    by (simp add: lookupChunksForMetricName_def Let_def)
  have X: "set ?X = descr ` {c \<in> C u. selects_hour hour name [] c}"
    by (force simp: es(3) passes_def selects_hour_def entry_of_def label_ok_def)
  have srt: "set (sort_ByID ?X) = set ?X" "sorted (map ID (sort_ByID ?X))"
    by (simp_all only: sort_ByID_def gosort.sort_set gosort.sort_sorted)
  have "inj_on ID (set (sort_ByID ?X))"
    unfolding srt X by (rule inj_descr [OF ok u]) auto
  then have "set (unique (sort_ByID ?X)) = descr ` {c \<in> C u. selects_hour hour name [] c}"
    unfolding X [symmetric] srt(1) [symmetric] by (rule set_unique_inj)
  then show ?thesis
    using res byid_set_unique [OF srt(2)] by blast
qed

lemma lookup_hour:
  assumes wf: "wf_state U d C" and u: "u \<in> U" and st: "dynamodb st = client" "tableName st = table"
    and S: "fair_orders S" and ms: "\<forall>m\<in>set ms. scan_ok m"
  shows "\<exists>X. lookupChunksFor J S st d u hour name ms = Ret (Inr X) \<and> byid_set X \<and>
    set X = descr ` {c \<in> C u. selects_hour hour name ms c}"
proof (cases "ms = []")
  case True
  then show ?thesis using lookup_metric_name [OF wf u st] by (simp add: lookupChunksFor_def)
next
  case False
  have fair: "fair (matchers_ord S hour)" using S by (simp add: fair_orders_def)
  have "\<forall>m\<in>set ms. \<exists>X. lookupChunksForMatcher J st d u hour name m = Ret (Inr X) \<and>
      byid_set X \<and> set X = descr ` {c \<in> C u. selects_hour hour name [m] c}"
    using lookup_matcher [OF wf u st] ms by blast
  from bchoice [OF this] obtain X where
    X: "\<forall>m\<in>set ms. lookupChunksForMatcher J st d u hour name m = Ret (Inr (X m)) \<and>
      byid_set (X m) \<and> set (X m) = descr ` {c \<in> C u. selects_hour hour name [m] c}" by blast
  obtain m0 where m0: "m0 \<in> set ms" using False by (cases ms) auto
  let ?sets = "map X (permute (matchers_ord S hour) ms)"
  have "gather (permute (matchers_ord S hour) (map (lookupChunksForMatcher J st d u hour name) ms)) =
      Ret (map (\<lambda>m. Inr (X m)) (permute (matchers_ord S hour) ms))"
    using fair X by (intro gather_permute_ok) auto
  then have res: "lookupChunksFor J S st d u hour name ms = Ret (Inr (nWayIntersect ?sets))"
    using False by (simp add: lookupChunksFor_def del: map_map)
  have el: "set ?sets = X ` set ms" by (simp add: set_permute [OF fair])
  have ne: "?sets \<noteq> []" using False el by (metis empty_set image_is_empty set_empty)
  have bys: "\<forall>s\<in>set ?sets. byid_set s" unfolding el using X by auto
  have ok: "stored_ok valid U C" using wf by (simp add: wf_state_def)
  have "(\<Union>s\<in>set ?sets. set s) = descr ` (\<Union>m\<in>set ms. {c \<in> C u. selects_hour hour name [m] c})"
    unfolding el using X by auto
  moreover have "inj_on ID (descr ` (\<Union>m\<in>set ms. {c \<in> C u. selects_hour hour name [m] c}))"
    by (rule inj_descr [OF ok u]) auto
  ultimately have "set (nWayIntersect ?sets) = (\<Inter>s\<in>set ?sets. set s)"
    using set_nWayIntersect [OF ne bys] by simp
  also have "\<dots> = (\<Inter>m\<in>set ms. descr ` {c \<in> C u. selects_hour hour name [m] c})"
    unfolding el using X by auto
  also have "\<dots> = descr ` (\<Inter>m\<in>set ms. {c \<in> C u. selects_hour hour name [m] c})"
  proof (rule image_INT [symmetric, of descr "C u" _ _ "hd ms"])
    show "inj_on descr (C u)" using ok u by (metis (no_types, lifting) ID_descr(1) inj_on_def stored_ok_def)
  qed (use False in auto)
  also have "(\<Inter>m\<in>set ms. {c \<in> C u. selects_hour hour name [m] c}) = {c \<in> C u. selects_hour hour name ms c}"
    using m0 by (auto simp: selects_hour_def label_ok_def)
  finally show ?thesis using res byid_set_nWayIntersect [OF bys] by blast
qed

lemma lookup_all:
  assumes wf: "wf_state U d C" and u: "u \<in> U" and st: "dynamodb st = client" "tableName st = table"
    and S: "fair_orders S" and ex: "fst (extractMetricName matchers) = Inr (name, ms)" and ms: "\<forall>m\<in>set ms. scan_ok m"
  shows "\<exists>X. lookupChunks J S st d u from through matchers = Ret (Inr X) \<and> byid_set X \<and>
    set X = descr ` {c \<in> C u. selects from through name ms c}"
proof -
  have fair: "fair (hours_ord S)" using S by (simp add: fair_orders_def)
  let ?hs = "bigBuckets from through"
  have "\<forall>h\<in>set ?hs. \<exists>X. lookupChunksFor J S st d u h name ms = Ret (Inr X) \<and> byid_set X \<and>
      set X = descr ` {c \<in> C u. selects_hour h name ms c}"
    using lookup_hour [OF wf u st S ms] by blast
  from bchoice [OF this] obtain X where
    X: "\<forall>h\<in>set ?hs. lookupChunksFor J S st d u h name ms = Ret (Inr (X h)) \<and> byid_set (X h) \<and>
      set (X h) = descr ` {c \<in> C u. selects_hour h name ms c}" by blast
  let ?sets = "map X (permute (hours_ord S) ?hs)"
  have "gather (permute (hours_ord S) (map (\<lambda>h. lookupChunksFor J S st d u h name ms) ?hs)) =
      Ret (map (\<lambda>h. Inr (X h)) (permute (hours_ord S) ?hs))"
    using fair X by (intro gather_permute_ok) auto
  then have res: "lookupChunks J S st d u from through matchers = Ret (Inr (foldl merge [] ?sets))"
    by (simp add: lookupChunks_def ex del: map_map)
  have el: "set ?sets = X ` set ?hs" by (simp add: set_permute [OF fair])
  have bys: "\<forall>s\<in>set ?sets. byid_set s" unfolding el using X by auto
  have un: "(\<Union>s\<in>set ?sets. set s) = descr ` {c \<in> C u. selects from through name ms c}"
    unfolding el selects_hours using X by auto
  have "stored_ok valid U C" using wf by (simp add: wf_state_def)
  then have "inj_on ID (descr ` {c \<in> C u. selects from through name ms c})"
    using u by (rule inj_descr) auto
  then have "byid_set (foldl merge [] ?sets) \<and> set (foldl merge [] ?sets) = (\<Union>s\<in>set ?sets. set s)"
    using foldl_merge [of "[]" ?sets] bys unfolding un by simp
  with res show ?thesis unfolding un by (intro exI conjI) auto
qed

end

section \<open>Get\<close>

text \<open>
  The contracts of the index, the codec and the object store together. The abstract state of
  a world is a set of chunks per user: the index represents it and every chunk's data is in
  the bucket under the chunk's name.
\<close>

locale chunk_store = chunk_index client table idx inv J valid + obj: object_store s3c bucket objs
  for client :: "'d dynamodbClient" and table :: string and idx :: "'d \<Rightarrow> index" and inv :: "'d \<Rightarrow> bool"
    and J :: Codec and valid :: "Chunk \<Rightarrow> bool"
    and s3c :: "'s s3Client" and bucket :: string and objs :: "'s \<Rightarrow> string \<rightharpoonup> bytes"
begin

definition uses_services :: "('d, 's, 'm) AWSStore \<Rightarrow> bool" where
  "uses_services st \<longleftrightarrow> dynamodb st = client \<and> tableName st = table \<and> s3 st = s3c \<and> bucketName st = bucket"

definition holds :: "string set \<Rightarrow> stored \<Rightarrow> ('d, 's, 'm) World \<Rightarrow> bool" where
  "holds U C w \<longleftrightarrow> wf_state U (db_state w) C \<and>
     (\<forall>u\<in>U. \<forall>c\<in>C u. objs (s3_state w) (chunkName u (ID c)) = Some (Data c))"

lemma fetch_one_descr:
  assumes "holds U C w" "u \<in> U" "uses_services st" "c \<in> C u"
  shows "fetch_one st (s3_state w) u (descr c) = Inr c"
proof -
  have "objs (s3_state w) (chunkName u (ID c)) = Some (Data c)" using assms(1,2,4) by (simp add: holds_def)
  then have "GetObject s3c bucket (chunkName u (ID c)) (s3_state w) = Inr (Inr (Data c))" by (rule obj.get_some)
  then show ?thesis using assms(3) by (cases c) (simp add: uses_services_def fetch_one_def descr_def)
qed

lemma fetch_descr:
  assumes "holds U C w" "u \<in> U" "uses_services st" "fair_orders S" "set X \<subseteq> descr ` C u"
  obtains Y where "fetchChunkData S st (s3_state w) u X = Inr Y" "mset (map descr Y) = mset X" "set Y \<subseteq> C u"
proof -
  have fair: "fair (fetch_ord S)" using assms(4) by (simp add: fair_orders_def)
  have "\<forall>x\<in>set X. \<exists>c. c \<in> C u \<and> x = descr c" using assms(5) by auto
  from bchoice [OF this] obtain g where g: "\<forall>x\<in>set X. g x \<in> C u \<and> x = descr (g x)" by blast
  let ?P = "permute (fetch_ord S) X"
  have P: "set ?P = set X" "mset ?P = mset X" by (simp_all only: set_permute [OF fair] mset_permute [OF fair])
  have one: "\<forall>x\<in>set X. fetch_one st (s3_state w) u x = Inr (g x)"
  proof
    fix x assume "x \<in> set X"
    with g have "g x \<in> C u" "x = descr (g x)" by blast+
    with fetch_one_descr [OF assms(1-3) this(1)] show "fetch_one st (s3_state w) u x = Inr (g x)" by simp
  qed
  have "permute (fetch_ord S) (map (fetch_one st (s3_state w) u) X) = map (\<lambda>x. Inr (g x)) ?P"
    using one P(1) by (simp add: permute_map [OF fair])
  then have "fetchChunkData S st (s3_state w) u X = Inr (map g ?P)"
    by (simp add: fetchChunkData_def Let_def del: map_map)
  moreover have "map descr (map g ?P) = ?P"
    unfolding map_map by (rule map_idI) (use g P(1) in force)
  then have "mset (map descr (map g ?P)) = mset X" using P(2) by (simp only:)
  moreover have "set (map g ?P) \<subseteq> C u" using g P(1) by auto
  ultimately show ?thesis by (rule that)
qed

text \<open>Chunks that are the found descriptors with their data, once sorted, are the selected set.\<close>

lemma assemble:
  assumes "inj_on ID B" "byid_set X" "set X = descr ` A" "A \<subseteq> B" "mset (map descr Y) = mset X" "set Y \<subseteq> B"
  shows "byid_set (sort_ByID Y) \<and> set (sort_ByID Y) = A"
proof -
  have "descr ` set Y = descr ` A" using mset_eq_setD [OF assms(5)] assms(3) by simp
  moreover have "inj_on descr B" using assms(1) by (metis (no_types, lifting) ID_descr(1) inj_on_def)
  ultimately have "set Y = A" using assms(4,6) by (simp add: inj_on_image_eq_iff)
  moreover have "mset (map ID (map descr Y)) = mset (map ID X)" using assms(5) by (metis mset_map)
  then have "distinct (map ID Y)"
    using assms(2) mset_eq_imp_distinct_iff [of "map ID (map descr Y)" "map ID X"] by (simp add: byid_set_iff o_def)
  ultimately show ?thesis
    using byid_set_sort [of Y] gosort.sort_set [of ID Y] by (auto simp: sort_ByID_def)
qed

text \<open>
  Without a cache, \<open>Get\<close> returns exactly the selected chunks with their data, in the order
  of their IDs, whatever the completion orders, and leaves the services as they are.
\<close>

lemma Get_selects:
  assumes H: "holds U C w" and u: "u \<in> U" "GetID ctx = Inr u" and st: "uses_services st" "chunkCache st = None"
    and S: "fair_orders S" and ex: "fst (extractMetricName matchers) = Inr (name, ms)" and ms: "\<forall>m\<in>set ms. scan_ok m"
  shows "\<exists>cs. Get J S st ctx from through matchers w = Ret (Inr (cs, w)) \<and> byid_set cs \<and>
    set cs = {c \<in> C u. selects from through name ms c}"
proof -
  have wf: "wf_state U (db_state w) C" using H by (simp add: holds_def)
  then have inj: "inj_on ID (C u)" using u(1) by (simp add: wf_state_def stored_ok_def)
  have db: "dynamodb st = client" "tableName st = table" using st(1) by (simp_all add: uses_services_def)
  obtain X where X: "lookupChunks J S st (db_state w) u from through matchers = Ret (Inr X)" "byid_set X"
    "set X = descr ` {c \<in> C u. selects from through name ms c}"
    using lookup_all [OF wf u(1) db(1) db(2) S ex ms] by blast
  obtain Y where Y: "fetchChunkData S st (s3_state w) u X = Inr Y" "mset (map descr Y) = mset X" "set Y \<subseteq> C u"
    using fetch_descr [OF H u(1) st(1) S] X(3) by blast
  have "Get J S st ctx from through matchers w = Ret (Inr (sort_ByID Y, w))"
    by (simp add: Get_def u(2) X(1) st(2) Y(1) fill_cache_def)
  then show ?thesis using assemble [OF inj X(2,3) _ Y(2,3)] by simp
qed

end

end
