(* ===== verification/Chunk_Write.thy ===== *)
theory Chunk_Write
  imports Chunk_Read
begin

text \<open>
  The write path of the chunk store (\<open>chunk/chunk_store.go\<close>, \<open>CreateTables\<close>, \<open>Put\<close>
  and what it calls): the data of every chunk goes to the object store and to the cache, then
  one index entry per hour bucket and label is written, in batches of at most
  \<open>dynamoMaxBatchSize\<close>. The number of goroutines is bounded by a semaphore whose permits are
  only released after the result was received, which blocks the call for good when there are
  more tasks than permits (\<open>Put_Limiter\<close> derives this from the steps of the goroutines).
\<close>

section \<open>Constants\<close>

definition dynamoMaxBatchSize :: nat where "dynamoMaxBatchSize = 25"
definition maxConcurrentPuts :: nat where "maxConcurrentPuts = 100"

section \<open>CreateTables\<close>

definition CreateTables :: "('d, 's, 'm) AWSStore \<Rightarrow> 'd \<Rightarrow> err option \<times> 'd" where
  "CreateTables c d =
     (case ListTables (dynamodb c) 10 d of
        Inl e \<Rightarrow> (Some e, d)
      | Inr names \<Rightarrow>
          if tableName c \<in> set names then (None, d)
          else CreateTable (dynamodb c)
                 \<lparr>ct_TableName = tableName c, ct_KeySchema = [(hashKey, ''HASH''), (rangeKey, ''RANGE'')]\<rparr> d)"

section \<open>Goroutines behind the limiter\<close>

text \<open>Tasks that run one after the other, each returning an error or nil.\<close>

fun run_tasks :: "('a \<Rightarrow> 'w \<Rightarrow> (err option \<times> 'w) go) \<Rightarrow> 'a list \<Rightarrow> 'w \<Rightarrow> (err option list \<times> 'w) go" where
  "run_tasks f [] w = Ret ([], w)"
| "run_tasks f (x # xs) w =
     bind_go (f x w) (\<lambda>(e, w1). bind_go (run_tasks f xs w1) (\<lambda>(es, w2). Ret (e # es, w2)))"

definition completes :: "nat option \<Rightarrow> nat \<Rightarrow> bool" where
  "completes limiter n \<longleftrightarrow> (case limiter of None \<Rightarrow> True | Some k \<Rightarrow> n \<le> k)"

text \<open>
  One goroutine per element, started behind the limiter, then one receive per element. With
  more elements than permits only the first ones start, and the loop that starts them waits.
\<close>

definition spawn_limited ::
  "nat option \<Rightarrow> schedule \<Rightarrow> ('a \<Rightarrow> 'w \<Rightarrow> (err option \<times> 'w) go) \<Rightarrow> 'a list \<Rightarrow> 'w \<Rightarrow> (err option \<times> 'w) go" where
  "spawn_limited limiter sched f xs w =
     (if completes limiter (length xs)
      then bind_go (run_tasks f (permute sched xs) w) (\<lambda>(es, w'). Ret (last_err es, w'))
      else bind_go (run_tasks f (permute sched (take (the limiter) xs)) w) (\<lambda>_. Blocked))"

section \<open>Writing the data\<close>

definition putChunk :: "('d, 's, 'm) AWSStore \<Rightarrow> string \<Rightarrow> Chunk \<Rightarrow> ('d, 's, 'm) World \<Rightarrow> err option \<times> ('d, 's, 'm) World" where
  "putChunk c userID chunk w =
     (case PutObject (s3 c) (bucketName c) (chunkName userID (ID chunk)) (Data chunk) (s3_state w) of
        (Some e, s') \<Rightarrow> (Some e, w\<lparr>s3_state := s'\<rparr>)
      | (None, s') \<Rightarrow>
          (None, case chunkCache c of
             None \<Rightarrow> w\<lparr>s3_state := s'\<rparr>
           | Some cache \<Rightarrow>
               w\<lparr>s3_state := s', mem_state := snd (StoreChunkData cache userID chunk (mem_state w))\<rparr>))"

definition putChunks ::
  "Orders \<Rightarrow> ('d, 's, 'm) AWSStore \<Rightarrow> string \<Rightarrow> Chunk list \<Rightarrow> ('d, 's, 'm) World \<Rightarrow> (err option \<times> ('d, 's, 'm) World) go" where
  "putChunks S c userID chunks w =
     spawn_limited (putLimiter c) (put_ord S) (\<lambda>chunk w. Ret (putChunk c userID chunk w)) chunks w"

section \<open>Writing the index\<close>

fun label_writes :: "string \<Rightarrow> string \<Rightarrow> bytes \<Rightarrow> metric \<Rightarrow> item list go" where
  "label_writes hv chunkID chunkValue [] = Ret []"
| "label_writes hv chunkID chunkValue ((label, value) # ls) =
     (if label = MetricNameLabel then label_writes hv chunkID chunkValue ls
      else bind_go (rangeValue label value chunkID) (\<lambda>rv.
           bind_go (label_writes hv chunkID chunkValue ls) (\<lambda>rest. Ret (mk_item hv rv chunkValue # rest))))"

fun hour_writes :: "Orders \<Rightarrow> string \<Rightarrow> LabelValue \<Rightarrow> Chunk \<Rightarrow> bytes \<Rightarrow> int list \<Rightarrow> item list go" where
  "hour_writes S userID metricName chunk chunkValue [] = Ret []"
| "hour_writes S userID metricName chunk chunkValue (hour # hs) =
     bind_go (label_writes (hashValue userID hour metricName) (ID chunk) chunkValue
                (permute (range_ord S (ID chunk) hour) (Metric chunk))) (\<lambda>ws.
     bind_go (hour_writes S userID metricName chunk chunkValue hs) (\<lambda>rest. Ret (ws @ rest)))"

fun calculateDynamoWrites :: "Codec \<Rightarrow> Orders \<Rightarrow> string \<Rightarrow> Chunk list \<Rightarrow> (err + item list) go" where
  "calculateDynamoWrites J S userID [] = Ret (Inr [])"
| "calculateDynamoWrites J S userID (chunk # cs) =
     (case map_of (Metric chunk) MetricNameLabel of
        None \<Rightarrow> Ret (Inl (Err ''no MetricNameLabel for chunk''))
      | Some metricName \<Rightarrow>
          (case marshal J chunk of
             Inl e \<Rightarrow> Ret (Inl e)
           | Inr chunkValue \<Rightarrow>
               bind_go (hour_writes S userID metricName chunk chunkValue (bigBuckets (From chunk) (Through chunk))) (\<lambda>ws.
               bind_err (calculateDynamoWrites J S userID cs) (\<lambda>rest. Ret (Inr (ws @ rest))))))"

function batch_loop :: "'a list \<Rightarrow> nat \<Rightarrow> 'a list list" where
  "batch_loop writeReqs i =
     (if i < length writeReqs then
        (if i + dynamoMaxBatchSize > length writeReqs then drop i writeReqs
         else take dynamoMaxBatchSize (drop i writeReqs)) # batch_loop writeReqs (i + dynamoMaxBatchSize)
      else [])"
  by pat_completeness auto
termination
  by (relation "measure (\<lambda>(rs, i). length rs - i)") (auto simp: dynamoMaxBatchSize_def)

declare batch_loop.simps [simp del]

definition batchRequests :: "'a list \<Rightarrow> 'a list list" where
  "batchRequests writeReqs = batch_loop writeReqs 0"

definition batchWriteDynamo ::
  "('d, 's, 'm) AWSStore \<Rightarrow> item list \<Rightarrow> ('d, 's, 'm) World \<Rightarrow> (err option \<times> ('d, 's, 'm) World) go" where
  "batchWriteDynamo c reqs w =
     bind_go (BatchWriteItem (dynamodb c) (tableName c) reqs (db_state w)) (\<lambda>(e, d'). Ret (e, w\<lparr>db_state := d'\<rparr>))"

definition updateIndex ::
  "Codec \<Rightarrow> Orders \<Rightarrow> ('d, 's, 'm) AWSStore \<Rightarrow> string \<Rightarrow> Chunk list \<Rightarrow> ('d, 's, 'm) World \<Rightarrow>
   (err option \<times> ('d, 's, 'm) World) go" where
  "updateIndex J S c userID chunks w =
     bind_go (calculateDynamoWrites J S userID chunks) (\<lambda>r.
       case r of
         Inl e \<Rightarrow> Ret (Some e, w)
       | Inr writeReqs \<Rightarrow>
           spawn_limited (putLimiter c) (batch_ord S) (batchWriteDynamo c) (batchRequests writeReqs) w)"

section \<open>Put\<close>

definition Put ::
  "Codec \<Rightarrow> Orders \<Rightarrow> ('d, 's, 'm) AWSStore \<Rightarrow> Context \<Rightarrow> Chunk list \<Rightarrow> ('d, 's, 'm) World \<Rightarrow>
   (err option \<times> ('d, 's, 'm) World) go" where
  "Put J S c ctx chunks w =
     (case GetID ctx of
        Inl e \<Rightarrow> Ret (Some e, w)
      | Inr userID \<Rightarrow>
          bind_go (putChunks S c userID chunks w) (\<lambda>(e, w1).
            case e of
              Some e' \<Rightarrow> Ret (Some e', w1)
            | None \<Rightarrow> updateIndex J S c userID chunks w1))"

section \<open>Batches\<close>

lemma batch_loop_concat: "concat (batch_loop xs i) = drop i xs"
proof (induction xs i rule: batch_loop.induct)
  case (1 xs i)
  show ?case
  proof (cases "i < length xs")
    case True
    then have "concat (batch_loop xs (i + dynamoMaxBatchSize)) = drop (i + dynamoMaxBatchSize) xs" by (rule 1)
    moreover have "take dynamoMaxBatchSize (drop i xs) @ drop (i + dynamoMaxBatchSize) xs = drop i xs"
      by (metis add.commute append_take_drop_id drop_drop)
    ultimately show ?thesis using True by (subst batch_loop.simps) simp
  next
    case False
    then show ?thesis by (subst batch_loop.simps) simp
  qed
qed

lemma batch_loop_sizes: "b \<in> set (batch_loop xs i) \<Longrightarrow> b \<noteq> [] \<and> length b \<le> dynamoMaxBatchSize"
proof (induction xs i rule: batch_loop.induct)
  case (1 xs i)
  show ?case
  proof (cases "i < length xs")
    case True
    with 1 show ?thesis
      by (subst (asm) (2) batch_loop.simps) (auto simp: dynamoMaxBatchSize_def split: if_splits)
  next
    case False
    with 1(2) show ?thesis by (subst (asm) batch_loop.simps) simp
  qed
qed

lemma div_ceil_step:
  assumes "0 < n" "0 < (k :: nat)"
  shows "Suc ((n - k + k - 1) div k) = (n + k - 1) div k"
proof -
  have "n + k - 1 = (n - 1) + k" using assms by simp
  then have r: "(n + k - 1) div k = Suc ((n - 1) div k)" using assms(2) by (simp only: div_add_self2)
  show ?thesis
  proof (cases "n \<le> k")
    case True
    then have "n - k + k - 1 = k - 1" "n - 1 < k" using assms by simp_all
    then show ?thesis unfolding r using assms by simp
  next
    case False
    then have "n - k + k - 1 = n - 1" by simp
    then show ?thesis unfolding r by (simp only:)
  qed
qed

lemma batch_loop_length:
  "length (batch_loop xs i) = (length xs - i + dynamoMaxBatchSize - 1) div dynamoMaxBatchSize"
proof (induction xs i rule: batch_loop.induct)
  case (1 xs i)
  show ?case
  proof (cases "i < length xs")
    case True
    have "length (batch_loop xs i) = Suc ((length xs - (i + dynamoMaxBatchSize) + dynamoMaxBatchSize - 1) div dynamoMaxBatchSize)"
      using True 1 [OF True] by (subst batch_loop.simps) simp
    also have "\<dots> = (length xs - i + dynamoMaxBatchSize - 1) div dynamoMaxBatchSize"
      using div_ceil_step [of "length xs - i" dynamoMaxBatchSize] True by (simp add: dynamoMaxBatchSize_def)
    finally show ?thesis .
  next
    case False
    then show ?thesis by (subst batch_loop.simps) (simp add: dynamoMaxBatchSize_def)
  qed
qed

lemma batchRequests_concat: "concat (batchRequests xs) = xs"
  by (simp add: batchRequests_def batch_loop_concat)

lemma run_tasks_ok:
  assumes "\<And>x w. x \<in> set xs \<Longrightarrow> I w \<Longrightarrow> \<exists>w'. f x w = Ret (None, w') \<and> I w'" "I w"
  shows "\<exists>es w'. run_tasks f xs w = Ret (es, w') \<and> I w' \<and> last_err es = None"
proof -
  have "\<exists>w'. run_tasks f xs w = Ret (replicate (length xs) None, w') \<and> I w'"
    using assms
  proof (induction xs arbitrary: w)
    case Nil
    then show ?case by simp
  next
    case (Cons x xs)
    obtain w1 where w1: "f x w = Ret (None, w1)" "I w1" using Cons.prems by force
    then obtain w2 where "run_tasks f xs w1 = Ret (replicate (length xs) None, w2)" "I w2"
      using Cons.IH [of w1] Cons.prems(1) by auto
    with w1 show ?case by simp
  qed
  then show ?thesis using last_err_None_iff by fastforce
qed

text \<open>What every task keeps, the whole fan-out keeps, whatever the order and the errors.\<close>

lemma run_tasks_invariant:
  assumes "\<And>x w e w'. x \<in> set xs \<Longrightarrow> I w \<Longrightarrow> f x w = Ret (e, w') \<Longrightarrow> I w'" "I w" "run_tasks f xs w = Ret (es, w')"
  shows "I w'"
  using assms
proof (induction xs arbitrary: w es)
  case (Cons x xs)
  then obtain e w1 es' where w1: "f x w = Ret (e, w1)" "run_tasks f xs w1 = Ret (es', w')"
    by (auto simp: bind_go_eq_Ret)
  then have "I w1" using Cons.prems(1) [of x w] Cons.prems(2) by simp
  show ?case by (rule Cons.IH [OF _ \<open>I w1\<close> w1(2)]) (use Cons.prems(1) in auto)
qed simp

lemma spawn_limited_invariant:
  assumes "\<And>x w e w'. x \<in> set xs \<Longrightarrow> I w \<Longrightarrow> f x w = Ret (e, w') \<Longrightarrow> I w'" "I w" "fair s"
    and "spawn_limited limiter s f xs w = Ret (e, w')"
  shows "I w'"
proof -
  obtain es where "run_tasks f (permute s xs) w = Ret (es, w')"
    using assms(4) by (auto simp: spawn_limited_def bind_go_eq_Ret split: if_splits)
  then show ?thesis
    by (rule run_tasks_invariant [of "permute s xs" I f w es w', rotated 2])
      (use assms(1,2) in \<open>simp_all add: set_permute [OF assms(3)]\<close>)
qed

end
