(* ===== verification/Store_Update.thy ===== *)
theory Store_Update
  imports Store_Lookup Chunk_Write
begin

text \<open>
  Correctness of the write path: the index entries that \<open>calculateDynamoWrites\<close> produces
  are exactly the entries of the chunks, writing them in any order of batches extends the
  representation, and \<open>Put\<close> adds the chunks to the abstract store.
\<close>

section \<open>Writing many entries\<close>

type_synonym entry = "string \<times> bytes \<times> bytes"

definition functional :: "entry set \<Rightarrow> bool" where
  "functional W \<longleftrightarrow> (\<forall>h r b b'. (h, r, b) \<in> W \<longrightarrow> (h, r, b') \<in> W \<longrightarrow> b = b')"

lemma foldl_put_entry:
  assumes "functional (set ws)"
  shows "foldl put_entry ix ws h r = Some b \<longleftrightarrow>
    (h, r, b) \<in> set ws \<or> ((\<nexists>b'. (h, r, b') \<in> set ws) \<and> ix h r = Some b)"
  using assms
proof (induction ws rule: rev_induct)
  case Nil
  then show ?case by simp
next
  case (snoc w ws)
  obtain h1 r1 b1 where w: "w = (h1, r1, b1)" by (cases w)
  have f: "functional (set ws)" using snoc.prems by (auto simp: functional_def)
  show ?case
  proof (cases "h = h1 \<and> r = r1")
    case True
    then show ?thesis using snoc.prems by (auto simp: w put_entry_def functional_def)
  next
    case False
    then have "foldl put_entry ix (ws @ [w]) h r = foldl put_entry ix ws h r"
      by (auto simp: w put_entry_def)
    then show ?thesis using snoc.IH [OF f] False by (auto simp: w)
  qed
qed

section \<open>The entries of a chunk\<close>

definition label_entries :: "string \<Rightarrow> string \<Rightarrow> bytes \<Rightarrow> metric \<Rightarrow> entry list" where
  "label_entries hv i b ls =
     map (\<lambda>(l, v). (hv, enc3 (l, v, i), b)) (filter (\<lambda>(l, v). l \<noteq> MetricNameLabel) ls)"

lemma label_writes_eq:
  assumes "null_free i" "\<forall>(l, v) \<in> set ls. null_free l \<and> null_free v"
  shows "label_writes hv i b ls = Ret (items_of (label_entries hv i b ls))"
  using assms(2) by (induction ls) (auto simp: assms(1) label_entries_def items_of_def rangeValue_eq)

lemma items_of_append: "items_of (ws @ ws') = items_of ws @ items_of ws'"
  by (simp add: items_of_def)

definition hour_entries :: "Orders \<Rightarrow> string \<Rightarrow> LabelValue \<Rightarrow> Chunk \<Rightarrow> bytes \<Rightarrow> int list \<Rightarrow> entry list" where
  "hour_entries S u name c b hs =
     concat (map (\<lambda>h. label_entries (hashValue u h name) (ID c) b (permute (range_ord S (ID c) h) (Metric c))) hs)"

lemma hour_writes_eq:
  assumes "fair_orders S" "encodable c"
  shows "hour_writes S u name c b hs = Ret (items_of (hour_entries S u name c b hs))"
proof (induction hs)
  case Nil
  show ?case by (simp add: hour_entries_def items_of_def)
next
  case (Cons h hs)
  have f: "fair (range_ord S (ID c) h)" using assms(1) by (simp add: fair_orders_def)
  have "label_writes (hashValue u h name) (ID c) b (permute (range_ord S (ID c) h) (Metric c)) =
      Ret (items_of (label_entries (hashValue u h name) (ID c) b (permute (range_ord S (ID c) h) (Metric c))))"
    by (rule label_writes_eq) (use assms(2) in \<open>auto simp: encodable_def set_permute [OF f]\<close>)
  then show ?case using Cons by (simp add: hour_entries_def items_of_append)
qed

lemma set_hour_entries:
  assumes "fair_orders S" "encodable c" "map_of (Metric c) MetricNameLabel = Some name"
  shows "set (hour_entries S u name c b (bigBuckets (From c) (Through c))) =
    {(hashValue u h name, enc3 (l, v, ID c), b) |h l v. entry_of c name h l v}"
proof -
  have f: "fair (range_ord S (ID c) h)" for h using assms(1) by (simp add: fair_orders_def)
  have "distinct (map fst (Metric c))"
    using assms(2) by (simp add: encodable_def wf_metric_def strict_sorted_iff)
  then have m: "(l, v) \<in> set (Metric c) \<longleftrightarrow> map_of (Metric c) l = Some v" for l v by simp
  have "x \<in> set (hour_entries S u name c b (bigBuckets (From c) (Through c))) \<longleftrightarrow>
      (\<exists>h l v. entry_of c name h l v \<and> x = (hashValue u h name, enc3 (l, v, ID c), b))" for x
    unfolding hour_entries_def label_entries_def entry_of_def assms(3) m [symmetric]
    by (auto simp: set_permute [OF f] image_iff Bex_def)
  then show ?thesis by blast
qed

context chunk_index
begin

definition entries :: "string \<Rightarrow> Chunk set \<Rightarrow> entry set" where
  "entries u X = {(hashValue u h name, enc3 (l, v, ID c), b) |h name l v b c.
     c \<in> X \<and> entry_of c name h l v \<and> marshal J c = Inr b}"

definition writable :: "Chunk \<Rightarrow> bool" where
  "writable c \<longleftrightarrow> valid c \<and> encodable c \<and> map_of (Metric c) MetricNameLabel \<noteq> None"

lemma entriesE:
  assumes "(h, r, b) \<in> entries u X"
  obtains hr name l v c where "h = hashValue u hr name" "r = enc3 (l, v, ID c)" "c \<in> X"
    "entry_of c name hr l v" "marshal J c = Inr b"
  using assms unfolding entries_def by blast

lemma entriesI:
  "c \<in> X \<Longrightarrow> entry_of c name h l v \<Longrightarrow> marshal J c = Inr b \<Longrightarrow>
   (hashValue u h name, enc3 (l, v, ID c), b) \<in> entries u X"
  unfolding entries_def by blast

lemma entries_insert:
  assumes "marshal J c = Inr b" "map_of (Metric c) MetricNameLabel = Some name"
  shows "entries u (insert c X) = {(hashValue u h name, enc3 (l, v, ID c), b) |h l v. entry_of c name h l v} \<union> entries u X"
proof -
  have "name' = name \<and> b' = b" if "entry_of c name' h l v" "marshal J c = Inr b'" for name' h l v b'
    using that assms by (simp add: entry_of_def)
  then show ?thesis unfolding entries_def using assms(1) by blast
qed

lemma calculateDynamoWrites_entries:
  assumes "fair_orders S" "\<forall>c\<in>set cs. writable c"
  shows "\<exists>ws. calculateDynamoWrites J S u cs = Ret (Inr (items_of ws)) \<and> set ws = entries u (set cs)"
  using assms(2)
proof (induction cs)
  case Nil
  then show ?case by (intro exI [of _ "[]"]) (simp add: items_of_def entries_def)
next
  case (Cons c cs)
  then obtain ws where ws: "calculateDynamoWrites J S u cs = Ret (Inr (items_of ws))" "set ws = entries u (set cs)"
    by auto
  have c: "valid c" "encodable c" and "map_of (Metric c) MetricNameLabel \<noteq> None"
    using Cons.prems by (simp_all add: writable_def)
  then obtain name where name: "map_of (Metric c) MetricNameLabel = Some name" by blast
  obtain b where b: "marshal J c = Inr b" using codec [OF c(1)] by blast
  let ?hs = "hour_entries S u name c b (bigBuckets (From c) (Through c))"
  have "calculateDynamoWrites J S u (c # cs) = Ret (Inr (items_of (?hs @ ws)))"
    using ws(1) by (simp add: name b hour_writes_eq [OF assms(1) c(2)] items_of_append)
  moreover have "set (?hs @ ws) = entries u (set (c # cs))"
    by (simp add: ws(2) set_hour_entries [OF assms(1) c(2) name] entries_insert [OF b name])
  ultimately show ?case by blast
qed

lemma entries_functional:
  assumes "CHR '':'' \<notin> set u" "inj_on ID X" "\<forall>c\<in>X. encodable c"
  shows "functional (entries u X)"
  unfolding functional_def
proof (intro allI impI)
  fix h r b b' assume *: "(h, r, b) \<in> entries u X" "(h, r, b') \<in> entries u X"
  obtain hr name l v c where c: "c \<in> X" "entry_of c name hr l v" "marshal J c = Inr b" "r = enc3 (l, v, ID c)"
    using *(1) by (rule entriesE)
  obtain hr' name' l' v' c' where
    c': "c' \<in> X" "entry_of c' name' hr' l' v'" "marshal J c' = Inr b'" "r = enc3 (l', v', ID c')"
    using *(2) by (rule entriesE)
  have eq: "enc3 (l, v, ID c) = enc3 (l', v', ID c')" using c(4) c'(4) by simp
  have "lex3.ok3 (l, v, ID c)" "lex3.ok3 (l', v', ID c')"
    using entry_null_free [OF _ c(2)] entry_null_free [OF _ c'(2)] c(1) c'(1) assms(3)
    by (simp_all add: lex3.ok3_def)
  then have "(l, v, ID c) = (l', v', ID c')" using eq by (rule lex3.enc_inj)
  then have "c = c'" using inj_onD [OF assms(2) _ c(1) c'(1)] by simp
  then show "b = b'" using c(3) c'(3) by simp
qed

lemma entries_own:
  assumes "(hashValue u' hour name, r, b) \<in> entries u X" "CHR '':'' \<notin> set u" "CHR '':'' \<notin> set u'"
  shows "u' = u \<and> (\<exists>c\<in>X. \<exists>l v. entry_of c name hour l v \<and> r = enc3 (l, v, ID c) \<and> marshal J c = Inr b)"
proof -
  obtain h n l v c where e: "hashValue u' hour name = hashValue u h n" "r = enc3 (l, v, ID c)"
    "c \<in> X" "entry_of c n h l v" "marshal J c = Inr b"
    using assms(1) by (rule entriesE)
  then show ?thesis using hashValue_inj [OF assms(3,2) e(1)] by blast
qed

text \<open>Writing the entries of new chunks extends the represented set of that user only.\<close>

lemma represents_put:
  assumes rep: "represents U ix C" and ok: "stored_ok valid U C" and u: "u \<in> U"
    and X: "\<forall>c\<in>X. writable c" "inj_on ID (C u \<union> X)" and ws: "set ws = entries u X"
  shows "represents U (foldl put_entry ix ws) (C(u := C u \<union> X))"
  unfolding represents_def
proof (intro ballI allI)
  fix u' name hour r b assume u': "u' \<in> U"
  have nc: "CHR '':'' \<notin> set u" "CHR '':'' \<notin> set u'" using ok u u' by (simp_all add: stored_ok_def)
  have encX: "\<forall>c\<in>X. encodable c" using X(1) by (simp add: writable_def)
  have fn: "functional (set ws)"
    unfolding ws by (rule entries_functional [OF nc(1) _ encX]) (use X(2) in \<open>auto intro: inj_on_subset\<close>)
  let ?E = "\<lambda>Y b. \<exists>c\<in>Y. \<exists>l v. entry_of c name hour l v \<and> r = enc3 (l, v, ID c) \<and> marshal J c = Inr b"
  have old: "ix (hashValue u' hour name) r = Some b \<longleftrightarrow> ?E (C u') b"
    using rep u' unfolding represents_def by blast
  have new: "(hashValue u' hour name, r, b) \<in> set ws \<longleftrightarrow> u' = u \<and> ?E X b" for b
    unfolding ws using entries_own [OF _ nc] entriesI by blast
  have both: "b = b'" if "?E (C u) b" "?E X b'" for b'
  proof -
    have "functional (entries u (C u \<union> X))"
      by (rule entries_functional [OF nc(1) X(2)]) (use encX ok u in \<open>auto simp: stored_ok_def\<close>)
    moreover have "(hashValue u hour name, r, b) \<in> entries u (C u \<union> X)" "(hashValue u hour name, r, b') \<in> entries u (C u \<union> X)"
      using that by (auto intro: entriesI)
    ultimately show ?thesis unfolding functional_def by blast
  qed
  show "foldl put_entry ix ws (hashValue u' hour name) r = Some b \<longleftrightarrow> ?E ((C(u := C u \<union> X)) u') b"
  proof (cases "u' = u")
    case True
    have "?E X b \<or> (\<nexists>b'. ?E X b') \<and> ?E (C u) b \<longleftrightarrow> ?E (C u \<union> X) b" using both by blast
    then show ?thesis unfolding foldl_put_entry [OF fn] new old using True by simp
  next
    case False
    then show ?thesis unfolding foldl_put_entry [OF fn] new old by simp
  qed
qed

lemma stored_ok_put [wf_intros]:
  assumes "stored_ok valid U C" "u \<in> U" "\<forall>c\<in>X. writable c" "inj_on ID (C u \<union> X)"
  shows "stored_ok valid U (C(u := C u \<union> X))"
  using assms by (auto simp: stored_ok_def writable_def)

lemma batches_entries:
  assumes inv: "inv (db_state w)" and st: "dynamodb st = client" "tableName st = table"
  shows "\<exists>es w'. run_tasks (batchWriteDynamo st) (map items_of wss) w = Ret (es, w') \<and> last_err es = None \<and>
    inv (db_state w') \<and> idx (db_state w') = foldl put_entry (idx (db_state w)) (concat wss) \<and>
    s3_state w' = s3_state w \<and> mem_state w' = mem_state w"
proof -
  have "\<exists>w'. run_tasks (batchWriteDynamo st) (map items_of wss) w = Ret (replicate (length wss) None, w') \<and>
    inv (db_state w') \<and> idx (db_state w') = foldl put_entry (idx (db_state w)) (concat wss) \<and>
    s3_state w' = s3_state w \<and> mem_state w' = mem_state w"
    using inv
  proof (induction wss arbitrary: w)
    case Nil
    then show ?case by simp
  next
    case (Cons ws wss)
    obtain d' where d': "BatchWriteItem client table (items_of ws) (db_state w) = Ret (None, d')" "inv d'"
      "idx d' = foldl put_entry (idx (db_state w)) ws"
      using write_items [OF Cons.prems] by blast
    have b: "batchWriteDynamo st (items_of ws) w = Ret (None, w\<lparr>db_state := d'\<rparr>)"
      by (simp add: batchWriteDynamo_def st d'(1))
    show ?case using Cons.IH [of "w\<lparr>db_state := d'\<rparr>"] d'(2,3) by (auto simp: b)
  qed
  then show ?thesis using last_err_None_iff by fastforce
qed

lemma items_of_batches:
  assumes "fair s"
  obtains wss where "permute s (batchRequests (items_of ws)) = map items_of wss" "set (concat wss) = set ws"
proof -
  have "\<exists>wss. batch_loop (items_of ws) i = map items_of wss \<and> concat wss = drop i ws" for i
  proof (induction "items_of ws" i rule: batch_loop.induct)
    case (1 i)
    show ?case
    proof (cases "i < length ws")
      case True
      then obtain wss where wss: "batch_loop (items_of ws) (i + dynamoMaxBatchSize) = map items_of wss"
        "concat wss = drop (i + dynamoMaxBatchSize) ws"
        using 1 by (auto simp: items_of_def)
      have "take dynamoMaxBatchSize (drop i ws) @ drop (i + dynamoMaxBatchSize) ws = drop i ws"
        by (metis add.commute append_take_drop_id drop_drop)
      then show ?thesis
        using True wss
        by (intro exI [of _ "take dynamoMaxBatchSize (drop i ws) # wss"], subst batch_loop.simps)
          (auto simp: items_of_def take_map drop_map)
    next
      case False
      then show ?thesis by (intro exI [of _ "[]"], subst batch_loop.simps) (simp add: items_of_def)
    qed
  qed
  from this [of 0] obtain wss where wss: "batchRequests (items_of ws) = map items_of wss" "concat wss = ws"
    by (auto simp: batchRequests_def)
  have "set (concat (permute s wss)) = set (concat wss)" by (simp add: set_permute [OF assms])
  then show thesis using that [of "permute s wss"] wss by (simp add: permute_map [OF assms])
qed

text \<open>\<open>updateIndex\<close> makes the index represent the new chunks as well and touches nothing else.\<close>

lemma updateIndex_ok:
  assumes wf: "wf_state U (db_state w) C" and u: "u \<in> U" and st: "dynamodb st = client" "tableName st = table"
    and S: "fair_orders S" and X: "\<forall>c\<in>set cs. writable c" "inj_on ID (C u \<union> set cs)"
    and lim: "\<forall>ws. calculateDynamoWrites J S u cs = Ret (Inr ws) \<longrightarrow> completes (putLimiter st) (length (batchRequests ws))"
  shows "\<exists>w'. updateIndex J S st u cs w = Ret (None, w') \<and> wf_state U (db_state w') (C(u := C u \<union> set cs)) \<and>
    s3_state w' = s3_state w \<and> mem_state w' = mem_state w"
proof -
  have inv: "inv (db_state w)" and rep: "represents U (idx (db_state w)) C" and ok: "stored_ok valid U C"
    using wf by (simp_all add: wf_state_def)
  have fair: "fair (batch_ord S)" using S by (simp add: fair_orders_def)
  obtain ws where ws: "calculateDynamoWrites J S u cs = Ret (Inr (items_of ws))" "set ws = entries u (set cs)"
    using calculateDynamoWrites_entries [OF S X(1)] by blast
  obtain wss where wss: "permute (batch_ord S) (batchRequests (items_of ws)) = map items_of wss" "set (concat wss) = set ws"
    using items_of_batches [OF fair] .
  obtain es w' where w': "run_tasks (batchWriteDynamo st) (map items_of wss) w = Ret (es, w')" "last_err es = None"
    "inv (db_state w')" "idx (db_state w') = foldl put_entry (idx (db_state w)) (concat wss)"
    "s3_state w' = s3_state w" "mem_state w' = mem_state w"
    using batches_entries [OF inv st] by blast
  have "updateIndex J S st u cs w = Ret (None, w')"
    using lim w'(1,2) by (simp add: updateIndex_def ws(1) spawn_limited_def wss(1))
  moreover have "represents U (idx (db_state w')) (C(u := C u \<union> set cs))"
    unfolding w'(4) using represents_put [OF rep ok u X] wss(2) ws(2) by simp
  moreover have "stored_ok valid U (C(u := C u \<union> set cs))" by (rule stored_ok_put [OF ok u X])
  ultimately show ?thesis using w'(3,5,6) by (auto simp: wf_state_def)
qed

end

section \<open>Put\<close>

definition put_objects :: "string \<Rightarrow> Chunk list \<Rightarrow> (string \<rightharpoonup> bytes) \<Rightarrow> string \<rightharpoonup> bytes" where
  "put_objects u cs objs = foldl (\<lambda>o' c. o'(chunkName u (ID c) \<mapsto> Data c)) objs cs"

lemma put_objects_other:
  "(\<forall>c\<in>set cs. k \<noteq> chunkName u (ID c)) \<Longrightarrow> put_objects u cs objs k = objs k"
  unfolding put_objects_def by (induction cs rule: rev_induct) simp_all

lemma put_objects_new:
  assumes "inj_on ID (set cs)" "c \<in> set cs"
  shows "put_objects u cs objs (chunkName u (ID c)) = Some (Data c)"
  using assms
proof (induction cs rule: rev_induct)
  case Nil
  then show ?case by simp
next
  case (snoc d cs)
  show ?case
  proof (cases "ID d = ID c")
    case True
    then have "d = c" using snoc.prems by (auto dest: inj_onD)
    then show ?thesis by (simp add: put_objects_def)
  next
    case False
    then have "c \<in> set cs" "chunkName u (ID d) \<noteq> chunkName u (ID c)"
      using snoc.prems(2) by (auto simp: chunkName_def)
    moreover have "inj_on ID (set cs)" using snoc.prems(1) by (auto intro: inj_on_subset)
    ultimately show ?thesis using snoc.IH by (simp add: put_objects_def)
  qed
qed

context chunk_store
begin

lemma putChunk_ok:
  assumes "uses_services st"
  obtains w' where "putChunk st u c w = (None, w')" "db_state w' = db_state w"
    "objs (s3_state w') = (objs (s3_state w))(chunkName u (ID c) \<mapsto> Data c)"
    "mem_state w' = (case chunkCache st of None \<Rightarrow> mem_state w
       | Some cache \<Rightarrow> snd (StoreChunkData cache u c (mem_state w)))"
proof -
  let ?p = "PutObject s3c bucket (chunkName u (ID c)) (Data c) (s3_state w)"
  have "fst ?p = None" "objs (snd ?p) = (objs (s3_state w))(chunkName u (ID c) \<mapsto> Data c)"
    by (rule obj.put_ok, rule obj.put_objs)
  then show thesis
    using assms by (intro that [of "snd (putChunk st u c w)"])
      (auto simp: putChunk_def uses_services_def split: prod.splits option.splits)
qed

lemma put_tasks_ok:
  assumes "uses_services st"
  shows "\<exists>es w'. run_tasks (\<lambda>chunk w. Ret (putChunk st u chunk w)) cs w = Ret (es, w') \<and> last_err es = None \<and>
    db_state w' = db_state w \<and> objs (s3_state w') = put_objects u cs (objs (s3_state w))"
proof -
  have "\<exists>w'. run_tasks (\<lambda>chunk w. Ret (putChunk st u chunk w)) cs w = Ret (replicate (length cs) None, w') \<and>
      db_state w' = db_state w \<and> objs (s3_state w') = put_objects u cs (objs (s3_state w))"
  proof (induction cs arbitrary: w)
    case Nil
    show ?case by (simp add: put_objects_def)
  next
    case (Cons c cs)
    obtain w1 where w1: "putChunk st u c w = (None, w1)" "db_state w1 = db_state w"
      "objs (s3_state w1) = (objs (s3_state w))(chunkName u (ID c) \<mapsto> Data c)"
      using putChunk_ok [OF assms] .
    obtain w2 where w2: "run_tasks (\<lambda>chunk w. Ret (putChunk st u chunk w)) cs w1 = Ret (replicate (length cs) None, w2)"
      "db_state w2 = db_state w1" "objs (s3_state w2) = put_objects u cs (objs (s3_state w1))"
      using Cons.IH [of w1] by blast
    have "objs (s3_state w2) = put_objects u (c # cs) (objs (s3_state w))"
      unfolding w2(3) w1(3) by (simp add: put_objects_def)
    then show ?case using w1(1,2) w2(1,2) by simp
  qed
  then show ?thesis using last_err_None_iff by fastforce
qed

text \<open>What a batch of chunks must satisfy so that it can be added to the store.\<close>

definition puttable :: "Orders \<Rightarrow> ('d, 's, 'm) AWSStore \<Rightarrow> stored \<Rightarrow> string \<Rightarrow> Chunk list \<Rightarrow> bool" where
  "puttable S st C u cs \<longleftrightarrow> (\<forall>c\<in>set cs. writable c) \<and> inj_on ID (C u \<union> set cs) \<and>
     completes (putLimiter st) (length cs) \<and>
     (\<forall>ws. calculateDynamoWrites J S u cs = Ret (Inr ws) \<longrightarrow> completes (putLimiter st) (length (batchRequests ws)))"

lemma objects_put:
  assumes "stored_ok valid U C" "u \<in> U" "inj_on ID (C u \<union> set cs)"
    and "\<forall>u\<in>U. \<forall>c\<in>C u. o' (chunkName u (ID c)) = Some (Data c)"
  shows "\<forall>u'\<in>U. \<forall>c\<in>(C(u := C u \<union> set cs)) u'. put_objects u cs o' (chunkName u' (ID c)) = Some (Data c)"
proof (intro ballI)
  fix u' c assume u': "u' \<in> U" and c: "c \<in> (C(u := C u \<union> set cs)) u'"
  show "put_objects u cs o' (chunkName u' (ID c)) = Some (Data c)"
  proof (cases "\<exists>d\<in>set cs. chunkName u' (ID c) = chunkName u (ID d)")
    case True
    then obtain d where d: "d \<in> set cs" "chunkName u' (ID c) = chunkName u (ID d)" by blast
    then have "u' = u" "ID c = ID d"
      using chunkName_inj [of u' u "ID c" "ID d"] assms(1,2) u' by (simp_all add: stored_ok_def)
    then have "c = d" using c d(1) by (intro inj_onD [OF assms(3)]) auto
    moreover have "inj_on ID (set cs)" using assms(3) by (rule inj_on_subset) simp
    ultimately show ?thesis using put_objects_new d(1) \<open>u' = u\<close> by simp
  next
    case False
    then have "c \<in> C u'" using c by (auto split: if_splits)
    then show ?thesis using assms(4) u' False by (simp add: put_objects_other)
  qed
qed

lemma Put_holds:
  assumes H: "holds U C w" and u: "u \<in> U" "GetID ctx = Inr u" and st: "uses_services st"
    and S: "fair_orders S" and P: "puttable S st C u cs"
  shows "\<exists>w'. Put J S st ctx cs w = Ret (None, w') \<and> holds U (C(u := C u \<union> set cs)) w'"
proof -
  have fair: "fair (put_ord S)" using S by (simp add: fair_orders_def)
  have X: "\<forall>c\<in>set cs. writable c" "inj_on ID (C u \<union> set cs)" and lim: "completes (putLimiter st) (length cs)"
    "\<forall>ws. calculateDynamoWrites J S u cs = Ret (Inr ws) \<longrightarrow> completes (putLimiter st) (length (batchRequests ws))"
    using P by (simp_all add: puttable_def)
  have wf: "wf_state U (db_state w) C" using H by (simp add: holds_def)
  then have ok: "stored_ok valid U C" by (simp add: wf_state_def)
  let ?P = "permute (put_ord S) cs"
  have sP: "set ?P = set cs" by (rule set_permute [OF fair])
  obtain es w1 where w1: "run_tasks (\<lambda>chunk w. Ret (putChunk st u chunk w)) ?P w = Ret (es, w1)" "last_err es = None"
    "db_state w1 = db_state w" "objs (s3_state w1) = put_objects u ?P (objs (s3_state w))"
    using put_tasks_ok [OF st] by blast
  have put: "putChunks S st u cs w = Ret (None, w1)"
    using w1(1,2) lim(1) by (simp add: putChunks_def spawn_limited_def)
  have wf1: "wf_state U (db_state w1) C" unfolding w1(3) by (rule wf)
  have db: "dynamodb st = client" "tableName st = table" using st by (simp_all add: uses_services_def)
  obtain w2 where w2: "updateIndex J S st u cs w1 = Ret (None, w2)"
    "wf_state U (db_state w2) (C(u := C u \<union> set cs))" "s3_state w2 = s3_state w1"
    using updateIndex_ok [OF wf1 u(1) db S X lim(2)] by blast
  have "\<forall>u'\<in>U. \<forall>c\<in>(C(u := C u \<union> set ?P)) u'. put_objects u ?P (objs (s3_state w)) (chunkName u' (ID c)) = Some (Data c)"
    by (rule objects_put [OF ok u(1)]) (use H X(2) sP in \<open>simp_all add: holds_def\<close>)
  then have "holds U (C(u := C u \<union> set cs)) w2"
    using w2(2) unfolding holds_def w2(3) w1(4) sP by simp
  moreover have "Put J S st ctx cs w = Ret (None, w2)"
    by (simp add: Put_def u(2) put w2(1))
  ultimately show ?thesis by blast
qed

end

end
