(* ===== verification/Time_Json.thy ===== *)
theory Time_Json
  imports Labels
begin

text \<open>
  Timestamps as text (vendored \<open>model/time.go\<close>): \<open>String\<close> prints the seconds with up to
  three decimals, as \<open>strconv.FormatFloat\<close> does for magnitudes below 10^15 milliseconds, where
  a float64 holds every millisecond and the shortest decimal that reads back is the exact one.
  \<open>UnmarshalJSON\<close> reads it back with \<open>strconv.ParseInt\<close>.
\<close>

section \<open>Decimal numbers\<close>

definition is_digit :: "char \<Rightarrow> bool" where
  "is_digit c \<longleftrightarrow> 48 \<le> (of_char c :: nat) \<and> (of_char c :: nat) \<le> 57"

definition digit_val :: "char \<Rightarrow> nat" where
  "digit_val c = of_char c - 48"

definition digits_val :: "string \<Rightarrow> nat" where
  "digits_val ds = foldl (\<lambda>n c. 10 * n + digit_val c) 0 ds"

text \<open>\<open>strconv.ParseInt(s, 10, bits)\<close>.\<close>

definition ParseInt :: "nat \<Rightarrow> string \<Rightarrow> err + int" where
  "ParseInt bits s =
     (let neg = (s \<noteq> [] \<and> hd s = CHR ''-'');
          ds = (if s \<noteq> [] \<and> (hd s = CHR ''-'' \<or> hd s = CHR ''+'') then tl s else s)
      in if ds = [] \<or> \<not> (\<forall>c\<in>set ds. is_digit c) then Inl (Err ''invalid syntax'')
         else
           let n = digits_val ds
           in if neg then (if n > 2 ^ (bits - 1) then Inl (Err ''value out of range'') else Inr (- int n))
              else (if n \<ge> 2 ^ (bits - 1) then Inl (Err ''value out of range'') else Inr (int n)))"

text \<open>\<open>strings.Split\<close> on one separator byte.\<close>

fun split_on :: "char \<Rightarrow> string \<Rightarrow> string list" where
  "split_on d [] = [[]]"
| "split_on d (c # cs) =
     (if c = d then [] # split_on d cs
      else (case split_on d cs of [] \<Rightarrow> [[c]] | p # ps \<Rightarrow> (c # p) # ps))"

section \<open>Timestamps\<close>

definition millis_digits :: "nat \<Rightarrow> string" where
  "millis_digits f = [digit_char (f div 100), digit_char (f div 10 mod 10), digit_char (f mod 10)]"

definition strip_zeros :: "string \<Rightarrow> string" where
  "strip_zeros s = rev (dropWhile (\<lambda>c. c = CHR ''0'') (rev s))"

definition Time_String :: "Time \<Rightarrow> string" where
  "Time_String t =
     (let a = nat \<bar>t\<bar>; fr = strip_zeros (millis_digits (a mod 1000))
      in (if t < 0 then ''-'' else []) @ show_nat (a div 1000) @ (if fr = [] then [] else CHR ''.'' # fr))"

definition dotPrecision :: nat where "dotPrecision = 3"

definition Time_UnmarshalJSON :: "string \<Rightarrow> err + Time" where
  "Time_UnmarshalJSON b =
     (case split_on CHR ''.'' b of
        [p0] \<Rightarrow> (case ParseInt 64 p0 of Inl e \<Rightarrow> Inl e | Inr v \<Rightarrow> Inr (wrap64 (v * 1000)))
      | [p0, p1] \<Rightarrow>
          (case ParseInt 64 p0 of
             Inl e \<Rightarrow> Inl e
           | Inr v \<Rightarrow>
               let p1' = (if length p1 > dotPrecision then take dotPrecision p1
                          else p1 @ replicate (dotPrecision - length p1) CHR ''0'')
               in (case ParseInt 32 p1' of
                     Inl e \<Rightarrow> Inl e
                   | Inr va \<Rightarrow> Inr (wrap64 (wrap64 (v * 1000) + va))))
      | _ \<Rightarrow> Inl (Err (''invalid time '' @ b)))"

section \<open>Printing and reading\<close>

lemma digit_char_facts:
  assumes "d < 10"
  shows "is_digit (digit_char d)" "digit_val (digit_char d) = d" "digit_char d \<noteq> CHR ''-''" "digit_char d \<noteq> CHR ''+''"
    "digit_char d \<noteq> CHR ''.''"
proof -
  have v: "(of_char (digit_char d) :: nat) = 48 + d" by (rule of_char_digit [OF assms])
  then show "is_digit (digit_char d)" "digit_val (digit_char d) = d" using assms by (simp_all add: is_digit_def digit_val_def)
  show "digit_char d \<noteq> CHR ''-''" "digit_char d \<noteq> CHR ''+''" "digit_char d \<noteq> CHR ''.''"
  proof -
    have "(of_char CHR ''-'' :: nat) = 45" "(of_char CHR ''+'' :: nat) = 43" "(of_char CHR ''.'' :: nat) = 46" by simp_all
    then show "digit_char d \<noteq> CHR ''-''" "digit_char d \<noteq> CHR ''+''" "digit_char d \<noteq> CHR ''.''" using v by auto
  qed
qed

lemma digits_val_snoc: "digits_val (ds @ [c]) = 10 * digits_val ds + digit_val c"
  by (simp add: digits_val_def)

lemma show_nat_reads: "digits_val (show_nat n) = n \<and> (\<forall>c\<in>set (show_nat n). is_digit c)"
proof (induction n rule: show_nat.induct)
  case (1 n)
  show ?case
  proof (cases "n < 10")
    case True
    then show ?thesis
      using digit_char_facts [OF True] by (subst (1 2) show_nat.simps) (simp add: digits_val_def)
  next
    case False
    have "n mod 10 < 10" by simp
    note d = digit_char_facts [OF this]
    show ?thesis
      using False 1 [OF False] d by (subst (1 2) show_nat.simps) (simp add: digits_val_snoc)
  qed
qed

lemma digit_not_special: "is_digit c \<Longrightarrow> c \<noteq> CHR ''-'' \<and> c \<noteq> CHR ''+'' \<and> c \<noteq> CHR ''.''"
  by (auto simp: is_digit_def)

lemma ParseInt_digits:
  assumes "ds \<noteq> []" "\<forall>c\<in>set ds. is_digit c" "digits_val ds < 2 ^ (bits - 1)"
  shows "ParseInt bits ds = Inr (int (digits_val ds))"
proof -
  have "hd ds \<noteq> CHR ''-''" "hd ds \<noteq> CHR ''+''" using assms(1,2) digit_not_special hd_in_set by blast+
  then show ?thesis using assms by (simp add: ParseInt_def Let_def not_le)
qed

lemma split_on_none: "d \<notin> set s \<Longrightarrow> split_on d s = [s]"
  by (induction s) auto

lemma split_on_one: "d \<notin> set s \<Longrightarrow> d \<notin> set t \<Longrightarrow> split_on d (s @ d # t) = [s, t]"
  by (induction s) (auto simp: split_on_none)

lemma strip_zeros_pad: "length s = n \<Longrightarrow> strip_zeros s @ replicate (n - length (strip_zeros s)) CHR ''0'' = s"
proof (induction s arbitrary: n rule: rev_induct)
  case Nil
  then show ?case by (simp add: strip_zeros_def)
next
  case (snoc c s)
  show ?case
  proof (cases "c = CHR ''0''")
    case True
    have le: "length (strip_zeros s) \<le> length s" using length_dropWhile_le [of _ "rev s"] by (simp add: strip_zeros_def)
    have s: "strip_zeros (s @ [c]) = strip_zeros s" using True by (simp add: strip_zeros_def)
    have "n - length (strip_zeros s) = Suc (length s - length (strip_zeros s))" using snoc.prems le by simp
    then have "strip_zeros s @ replicate (n - length (strip_zeros s)) CHR ''0'' =
        (strip_zeros s @ replicate (length s - length (strip_zeros s)) CHR ''0'') @ [CHR ''0'']"
      by (simp add: replicate_append_same)
    also have "\<dots> = s @ [c]" using snoc.IH [OF refl] True by (simp only:)
    finally show ?thesis unfolding s .
  next
    case False
    then show ?thesis using snoc.prems by (simp add: strip_zeros_def)
  qed
qed

lemma millis_digits_reads:
  assumes "f < 1000"
  shows "digits_val (millis_digits f) = f \<and> (\<forall>c\<in>set (millis_digits f). is_digit c) \<and> length (millis_digits f) = 3"
proof -
  have "f div 100 < 10" "f div 10 mod 10 < 10" "f mod 10 < 10" using assms by simp_all
  note d = digit_char_facts [OF this(1)] digit_char_facts [OF this(2)] digit_char_facts [OF this(3)]
  have "10 * (10 * (f div 100) + f div 10 mod 10) + f mod 10 = f"
  proof -
    have "10 * (f div 100) + f div 10 mod 10 = f div 10" using mult_div_mod_eq [of 10 "f div 10"] by (simp flip: div_mult2_eq)
    then show ?thesis using mult_div_mod_eq [of 10 f] by simp
  qed
  then show ?thesis using d by (simp add: millis_digits_def digits_val_def)
qed

text \<open>A timestamp that is not negative reads back what was printed.\<close>

lemma Time_roundtrip:
  assumes "0 \<le> t" "t < 10 ^ 15"
  shows "Time_UnmarshalJSON (Time_String t) = Inr t"
proof -
  define a where "a = nat t"
  let ?s = "show_nat (a div 1000)" and ?f = "a mod 1000"
  let ?fr = "strip_zeros (millis_digits ?f)"
  have t: "t = int a" "a < 10 ^ 15" using assms by (simp_all add: a_def nat_less_iff)
  have s: "digits_val ?s = a div 1000" "\<forall>c\<in>set ?s. is_digit c" "?s \<noteq> []"
    using show_nat_reads [of "a div 1000"] show_nat_nonempty [of "a div 1000"] by blast+
  then have nd: "CHR ''.'' \<notin> set ?s" using digit_not_special by blast
  have p0: "ParseInt 64 ?s = Inr (int (a div 1000))"
    using ParseInt_digits [OF s(3,2), of 64] s(1) t(2) by simp
  have md: "digits_val (millis_digits ?f) = ?f" "\<forall>c\<in>set (millis_digits ?f). is_digit c" "length (millis_digits ?f) = 3"
    using millis_digits_reads [of ?f] by simp_all
  have p1: "ParseInt 32 (millis_digits ?f) = Inr (int ?f)"
  proof -
    have "digits_val (millis_digits ?f) < 2 ^ (32 - 1)" unfolding md(1) by (rule less_trans [of _ 1000]) simp_all
    moreover have "millis_digits ?f \<noteq> []" using md(3) by auto
    ultimately show ?thesis using ParseInt_digits [of "millis_digits ?f" 32] md(1,2) by simp
  qed
  have sum: "int (a div 1000) * 1000 + int ?f = t" using t(1) by (metis mult.commute mult_div_mod_eq of_nat_add of_nat_mult of_nat_numeral)
  have wrap: "wrap64 (int (a div 1000) * 1000) = int (a div 1000) * 1000" "wrap64 t = t"
    using t(2) sum assms by (auto intro!: wrap64_id simp: int64_def)
  have str: "Time_String t = ?s @ (if ?fr = [] then [] else CHR ''.'' # ?fr)"
    using assms(1) by (simp add: Time_String_def Let_def a_def)
  have sub: "set ?fr \<subseteq> set (millis_digits ?f)" by (auto simp: strip_zeros_def dest: set_dropWhileD)
  have pad: "?fr @ replicate (3 - length ?fr) CHR ''0'' = millis_digits ?f" by (rule strip_zeros_pad [OF md(3)])
  show ?thesis
  proof (cases "?fr = []")
    case True
    then have "millis_digits ?f = replicate 3 CHR ''0''" using pad by simp
    then have "?f = digits_val (replicate 3 CHR ''0'')" using md(1) by simp
    also have "\<dots> = 0" by (simp add: digits_val_def digit_val_def numeral_3_eq_3)
    finally show ?thesis using True str p0 wrap sum split_on_none [OF nd] by (simp add: Time_UnmarshalJSON_def)
  next
    case False
    have "CHR ''.'' \<notin> set ?fr" using sub md(2) digit_not_special by blast
    then have "split_on CHR ''.'' (Time_String t) = [?s, ?fr]" using str False split_on_one [OF nd] by simp
    moreover have "length ?fr \<le> 3" using length_dropWhile_le [of _ "rev (millis_digits ?f)"] md(3) by (simp add: strip_zeros_def)
    ultimately show ?thesis
      using p0 p1 pad wrap sum by (simp add: Time_UnmarshalJSON_def dotPrecision_def Let_def)
  qed
qed

end
