(* ===== verification/Json_Text.thy ===== *)
theory Json_Text
  imports Frank_Prelude
begin

text \<open>
  The part of \<open>encoding/json\<close> and \<open>unicode/utf8\<close> that the chunk index uses: strings are
  quoted and unquoted the way Go does it, and a document is parsed into a tree. The parser
  takes the length of its input as fuel: every call consumes at least one byte.
\<close>

section \<open>UTF-8\<close>

abbreviation byte :: "char \<Rightarrow> nat" where "byte \<equiv> of_char"

definition cont :: "nat \<Rightarrow> nat \<Rightarrow> char \<Rightarrow> bool" where
  "cont lo hi c \<longleftrightarrow> lo \<le> byte c \<and> byte c \<le> hi"

text \<open>The length of the valid encoding a byte string starts with; 0 if there is none.\<close>

definition utf8_len :: "bytes \<Rightarrow> nat" where
  "utf8_len s =
     (case s of
        [] \<Rightarrow> 0
      | a # r \<Rightarrow>
          if byte a < 128 then 1
          else if 194 \<le> byte a \<and> byte a \<le> 223 then
            (case r of b # _ \<Rightarrow> if cont 128 191 b then 2 else 0 | _ \<Rightarrow> 0)
          else if 224 \<le> byte a \<and> byte a \<le> 239 then
            (case r of
               b # c # _ \<Rightarrow>
                 if cont (if byte a = 224 then 160 else 128) (if byte a = 237 then 159 else 191) b \<and> cont 128 191 c then 3 else 0
             | _ \<Rightarrow> 0)
          else if 240 \<le> byte a \<and> byte a \<le> 244 then
            (case r of
               b # c # d # _ \<Rightarrow>
                 if cont (if byte a = 240 then 144 else 128) (if byte a = 244 then 143 else 191) b \<and> cont 128 191 c \<and> cont 128 191 d then 4 else 0
             | _ \<Rightarrow> 0)
          else 0)"

text \<open>\<open>utf8.EncodeRune\<close> for code points of the basic plane and above.\<close>

definition encode_rune :: "nat \<Rightarrow> bytes" where
  "encode_rune r =
     (if r < 128 then [char_of r]
      else if r < 2048 then [char_of (192 + r div 64), char_of (128 + r mod 64)]
      else if r > 1114111 \<or> (55296 \<le> r \<and> r \<le> 57343) then [char_of (239 :: nat), char_of (191 :: nat), char_of (189 :: nat)]
      else if r < 65536 then [char_of (224 + r div 4096), char_of (128 + r div 64 mod 64), char_of (128 + r mod 64)]
      else [char_of (240 + r div 262144), char_of (128 + r div 4096 mod 64), char_of (128 + r div 64 mod 64), char_of (128 + r mod 64)])"

function valid_utf8 :: "bytes \<Rightarrow> bool" where
  "valid_utf8 s = (if s = [] then True else if utf8_len s = 0 then False else valid_utf8 (drop (utf8_len s) s))"
  by pat_completeness auto
termination
  by (relation "measure length") auto

declare valid_utf8.simps [simp del]

section \<open>Strings\<close>

definition hex :: "nat \<Rightarrow> char" where
  "hex n = (if n < 10 then char_of (48 + n) else char_of (87 + n))"

definition unhex :: "char \<Rightarrow> nat option" where
  "unhex c =
     (let n = byte c in
      if 48 \<le> n \<and> n \<le> 57 then Some (n - 48)
      else if 97 \<le> n \<and> n \<le> 102 then Some (n - 87)
      else if 65 \<le> n \<and> n \<le> 70 then Some (n - 55)
      else None)"

definition backslash :: char where "backslash = CHR 0x5C"
definition quote :: char where "quote = CHR 0x22"

text \<open>One ASCII byte inside a string; \<open>HTML\<close> characters are escaped too.\<close>

definition escape_byte :: "char \<Rightarrow> bytes" where
  "escape_byte b =
     (if b = backslash \<or> b = quote then [backslash, b]
      else if b = CHR 0x0A then [backslash, CHR ''n'']
      else if b = CHR 0x0D then [backslash, CHR ''r'']
      else if b = CHR 0x09 then [backslash, CHR ''t'']
      else if byte b < 32 \<or> b = CHR ''<'' \<or> b = CHR ''>'' \<or> b = CHR ''&''
      then [backslash, CHR ''u'', CHR ''0'', CHR ''0'', hex (byte b div 16), hex (byte b mod 16)]
      else [b])"

definition is_line_sep :: "bytes \<Rightarrow> bool" where
  "is_line_sep s \<longleftrightarrow> take 2 s = [CHR 0xE2, CHR 0x80] \<and> (take 1 (drop 2 s) = [CHR 0xA8] \<or> take 1 (drop 2 s) = [CHR 0xA9])"

function escape :: "bytes \<Rightarrow> bytes" where
  "escape s =
     (case s of
        [] \<Rightarrow> []
      | a # r \<Rightarrow>
          if byte a < 128 then escape_byte a @ escape r
          else if utf8_len s = 0 then [backslash] @ ''ufffd'' @ escape r
          else if is_line_sep s then [backslash] @ ''u202'' @ [hex (byte (s ! 2) mod 16)] @ escape (drop 3 s)
          else take (utf8_len s) s @ escape (drop (utf8_len s) s))"
  by pat_completeness auto
termination
  by (relation "measure length") (auto simp: is_line_sep_def)

declare escape.simps [simp del]

definition json_string :: "bytes \<Rightarrow> bytes" where
  "json_string s = quote # escape s @ [quote]"

text \<open>The four hex digits of a \<open>u\<close> escape.\<close>

definition hex4 :: "bytes \<Rightarrow> nat option" where
  "hex4 s =
     (case s of
        a # b # c # d # _ \<Rightarrow>
          (case (unhex a, unhex b, unhex c, unhex d) of
             (Some a', Some b', Some c', Some d') \<Rightarrow> Some (a' * 4096 + b' * 256 + c' * 16 + d')
           | _ \<Rightarrow> None)
      | _ \<Rightarrow> None)"

definition surrogate :: "nat \<Rightarrow> bool" where
  "surrogate r \<longleftrightarrow> 55296 \<le> r \<and> r < 57344"

text \<open>
  A \<open>u\<close> escape: the bytes it stands for and how many bytes after the \<open>u\<close> it takes. Two
  escapes that form a surrogate pair are one rune.
\<close>

definition unescape_u :: "bytes \<Rightarrow> (bytes \<times> nat) option" where
  "unescape_u s =
     (case hex4 s of
        None \<Rightarrow> None
      | Some r \<Rightarrow>
          if surrogate r then
            (case (if take 2 (drop 4 s) = [backslash, CHR ''u''] then hex4 (drop 6 s) else None) of
               Some r2 \<Rightarrow>
                 if r < 56320 \<and> 56320 \<le> r2 \<and> r2 < 57344
                 then Some (encode_rune ((r - 55296) * 1024 + (r2 - 56320) + 65536), 10)
                 else Some (encode_rune 65533, 4)
             | None \<Rightarrow> Some (encode_rune 65533, 4))
          else Some (encode_rune r, 4))"

definition unescape_char :: "char \<Rightarrow> char option" where
  "unescape_char c =
     (if c = quote \<or> c = backslash \<or> c = CHR ''/'' then Some c
      else if c = CHR ''b'' then Some CHR 0x08
      else if c = CHR ''f'' then Some CHR 0x0C
      else if c = CHR ''n'' then Some CHR 0x0A
      else if c = CHR ''r'' then Some CHR 0x0D
      else if c = CHR ''t'' then Some CHR 0x09
      else None)"

text \<open>The rest of a string literal after its opening quote: its value and what follows.\<close>

function unquote :: "bytes \<Rightarrow> (bytes \<times> bytes) option" where
  "unquote s =
     (case s of
        [] \<Rightarrow> None
      | a # r \<Rightarrow>
          if a = quote then Some ([], r)
          else if a = backslash then
            (case r of
               [] \<Rightarrow> None
             | e # r' \<Rightarrow>
                 if e = CHR ''u'' then
                   (case unescape_u r' of
                      None \<Rightarrow> None
                    | Some (bs, n) \<Rightarrow> map_option (\<lambda>(v, rest). (bs @ v, rest)) (unquote (drop n r')))
                 else
                   (case unescape_char e of
                      None \<Rightarrow> None
                    | Some c \<Rightarrow> map_option (\<lambda>(v, rest). (c # v, rest)) (unquote r')))
          else if byte a < 32 then None
          else if byte a < 128 then map_option (\<lambda>(v, rest). (a # v, rest)) (unquote r)
          else if utf8_len s = 0 then map_option (\<lambda>(v, rest). (encode_rune 65533 @ v, rest)) (unquote r)
          else map_option (\<lambda>(v, rest). (take (utf8_len s) s @ v, rest)) (unquote (drop (utf8_len s) s)))"
  by pat_completeness auto
termination
  by (relation "measure length") auto

declare unquote.simps [simp del]

section \<open>Documents\<close>

datatype json = JNull | JBool bool | JNum bytes | JStr bytes | JArr "json list" | JObj "(bytes \<times> json) list"

fun skip_ws :: "bytes \<Rightarrow> bytes" where
  "skip_ws [] = []"
| "skip_ws (c # s) = (if c \<in> {CHR '' '', CHR 0x09, CHR 0x0A, CHR 0x0D} then skip_ws s else c # s)"

definition dig :: "char \<Rightarrow> bool" where "dig c \<longleftrightarrow> 48 \<le> byte c \<and> byte c \<le> 57"

text \<open>The number grammar: sign, integer part without leading zeros, fraction, exponent.\<close>

definition valid_exp :: "bytes \<Rightarrow> bool" where
  "valid_exp s \<longleftrightarrow> s = [] \<or>
     (hd s \<in> {CHR ''e'', CHR ''E''} \<and>
      (let t = tl s; u = (if t \<noteq> [] \<and> hd t \<in> {CHR ''+'', CHR ''-''} then tl t else t) in u \<noteq> [] \<and> list_all dig u))"

definition valid_number :: "bytes \<Rightarrow> bool" where
  "valid_number s \<longleftrightarrow>
     (let s1 = (if s \<noteq> [] \<and> hd s = CHR ''-'' then tl s else s);
          ip = takeWhile dig s1; s2 = dropWhile dig s1
      in ip \<noteq> [] \<and> (hd ip = CHR ''0'' \<longrightarrow> length ip = 1) \<and>
         (if s2 \<noteq> [] \<and> hd s2 = CHR ''.''
          then takeWhile dig (tl s2) \<noteq> [] \<and> valid_exp (dropWhile dig (tl s2))
          else valid_exp s2))"

definition number_char :: "char \<Rightarrow> bool" where
  "number_char c \<longleftrightarrow> dig c \<or> c \<in> {CHR ''+'', CHR ''-'', CHR ''.'', CHR ''e'', CHR ''E''}"

definition parse_number :: "bytes \<Rightarrow> (json \<times> bytes) option" where
  "parse_number s =
     (let l = takeWhile number_char s in if valid_number l then Some (JNum l, dropWhile number_char s) else None)"

fun parse_value :: "nat \<Rightarrow> bytes \<Rightarrow> (json \<times> bytes) option"
  and parse_members :: "nat \<Rightarrow> bytes \<Rightarrow> ((bytes \<times> json) list \<times> bytes) option"
  and parse_elements :: "nat \<Rightarrow> bytes \<Rightarrow> (json list \<times> bytes) option" where
  "parse_value 0 s = None"
| "parse_value (Suc n) s =
     (case skip_ws s of
        [] \<Rightarrow> None
      | a # r \<Rightarrow>
          if a = quote then map_option (\<lambda>(v, rest). (JStr v, rest)) (unquote r)
          else if a = CHR ''{'' then
            (case skip_ws r of
               [] \<Rightarrow> None
             | b # r' \<Rightarrow> if b = CHR ''}'' then Some (JObj [], r') else map_option (\<lambda>(v, rest). (JObj v, rest)) (parse_members n r))
          else if a = CHR ''['' then
            (case skip_ws r of
               [] \<Rightarrow> None
             | b # r' \<Rightarrow> if b = CHR '']'' then Some (JArr [], r') else map_option (\<lambda>(v, rest). (JArr v, rest)) (parse_elements n r))
          else if take 4 (a # r) = ''null'' then Some (JNull, drop 4 (a # r))
          else if take 4 (a # r) = ''true'' then Some (JBool True, drop 4 (a # r))
          else if take 5 (a # r) = ''false'' then Some (JBool False, drop 5 (a # r))
          else parse_number (a # r))"
| "parse_members 0 s = None"
| "parse_members (Suc n) s =
     (case skip_ws s of
        [] \<Rightarrow> None
      | a # r \<Rightarrow>
          if a \<noteq> quote then None
          else
            (case unquote r of
               None \<Rightarrow> None
             | Some (k, r1) \<Rightarrow>
                 (case skip_ws r1 of
                    [] \<Rightarrow> None
                  | b # r2 \<Rightarrow>
                      if b \<noteq> CHR '':'' then None
                      else
                        (case parse_value n r2 of
                           None \<Rightarrow> None
                         | Some (v, r3) \<Rightarrow>
                             (case skip_ws r3 of
                                [] \<Rightarrow> None
                              | d # r4 \<Rightarrow>
                                  if d = CHR ''}'' then Some ([(k, v)], r4)
                                  else if d = CHR '','' then map_option (\<lambda>(ms, rest). ((k, v) # ms, rest)) (parse_members n r4)
                                  else None)))))"
| "parse_elements 0 s = None"
| "parse_elements (Suc n) s =
     (case parse_value n s of
        None \<Rightarrow> None
      | Some (v, r1) \<Rightarrow>
          (case skip_ws r1 of
             [] \<Rightarrow> None
           | d # r2 \<Rightarrow>
               if d = CHR '']'' then Some ([v], r2)
               else if d = CHR '','' then map_option (\<lambda>(vs, rest). (v # vs, rest)) (parse_elements n r2)
               else None))"

text \<open>A whole document: one value and nothing but white space after it.\<close>

definition parse_json :: "bytes \<Rightarrow> json option" where
  "parse_json s =
     (case parse_value (length s + 1) s of
        Some (j, rest) \<Rightarrow> if skip_ws rest = [] then Some j else None
      | None \<Rightarrow> None)"

section \<open>Unquoting what was quoted\<close>

lemma byte_less: "byte c < 256"
  by simp

lemma unhex_hex: "n < 16 \<Longrightarrow> unhex (hex n) = Some n"
  by (auto simp: hex_def unhex_def Let_def)

lemma unquote_ascii:
  "a \<noteq> quote \<Longrightarrow> a \<noteq> backslash \<Longrightarrow> 32 \<le> byte a \<Longrightarrow> byte a < 128 \<Longrightarrow>
   unquote (a # X) = map_option (\<lambda>(v, rest). (a # v, rest)) (unquote X)"
  by (subst unquote.simps) simp

lemma unquote_short:
  "unescape_char e = Some c \<Longrightarrow> e \<noteq> CHR ''u'' \<Longrightarrow>
   unquote (backslash # e # X) = map_option (\<lambda>(v, rest). (c # v, rest)) (unquote X)"
  by (subst unquote.simps) (simp add: backslash_def quote_def)

lemma unquote_u:
  "unescape_u (a # b # c # d # X) = Some (bs, 4) \<Longrightarrow>
   unquote (backslash # CHR ''u'' # a # b # c # d # X) = map_option (\<lambda>(v, rest). (bs @ v, rest)) (unquote X)"
  by (subst unquote.simps) (simp add: backslash_def quote_def)

lemma unescape_hex_byte:
  assumes "byte a < 128"
  shows "unescape_u (CHR ''0'' # CHR ''0'' # hex (byte a div 16) # hex (byte a mod 16) # X) = Some ([a], 4)"
proof -
  have "byte a div 16 < 16" "byte a mod 16 < 16" using assms by simp_all
  moreover have "byte a div 16 * 16 + byte a mod 16 = byte a" by simp
  moreover have "unhex CHR ''0'' = Some 0" by (simp add: unhex_def)
  ultimately have "hex4 (CHR ''0'' # CHR ''0'' # hex (byte a div 16) # hex (byte a mod 16) # X) = Some (byte a)"
    by (simp add: hex4_def unhex_hex)
  then show ?thesis using assms by (simp add: unescape_u_def surrogate_def encode_rune_def)
qed

lemma unquote_escape_byte:
  assumes "byte a < 128"
  shows "unquote (escape_byte a @ X) = map_option (\<lambda>(v, rest). (a # v, rest)) (unquote X)"
proof -
  have u: "unquote (backslash # CHR ''u'' # CHR ''0'' # CHR ''0'' # hex (byte a div 16) # hex (byte a mod 16) # X) =
      map_option (\<lambda>(v, rest). (a # v, rest)) (unquote X)"
    using unquote_u [OF unescape_hex_byte [OF assms]] by simp
  show ?thesis
  proof (cases "a \<in> {backslash, quote, CHR 0x0A, CHR 0x0D, CHR 0x09}")
    case True
    then obtain e where "escape_byte a = [backslash, e]" "unescape_char e = Some a" "e \<noteq> CHR ''u''"
      by (auto simp: escape_byte_def unescape_char_def quote_def backslash_def)
    then show ?thesis using unquote_short [of e a X] by simp
  next
    case False
    show ?thesis
    proof (cases "byte a < 32 \<or> a = CHR ''<'' \<or> a = CHR ''>'' \<or> a = CHR ''&''")
      case True
      then show ?thesis using u False by (simp add: escape_byte_def)
    next
      case nt: False
      then show ?thesis using False unquote_ascii [of a X] assms by (simp add: escape_byte_def)
    qed
  qed
qed

lemma char_of_byte: "byte c = n \<Longrightarrow> char_of n = c"
  by auto

lemma line_sep_runes:
  "unhex CHR ''2'' = Some 2" "unhex CHR ''0'' = Some 0"
  "encode_rune 8232 = [CHR 0xE2, CHR 0x80, CHR 0xA8]" "encode_rune 8233 = [CHR 0xE2, CHR 0x80, CHR 0xA9]"
  using char_of_byte [of "CHR 0xE2" 226] char_of_byte [of "CHR 0x80" 128] char_of_byte [of "CHR 0xA8" 168] char_of_byte [of "CHR 0xA9" 169]
  by (simp_all add: unhex_def encode_rune_def)

lemma unquote_line_sep:
  assumes "is_line_sep s"
  shows "unquote (backslash # ''u202'' @ hex (byte (s ! 2) mod 16) # X) = map_option (\<lambda>(v, rest). (take 3 s @ v, rest)) (unquote X)"
proof -
  obtain c r where s: "s = CHR 0xE2 # CHR 0x80 # c # r" "c = CHR 0xA8 \<or> c = CHR 0xA9"
    using assms by (cases s; cases "tl s"; cases "tl (tl s)") (auto simp: is_line_sep_def)
  have "unescape_u (CHR ''2'' # CHR ''0'' # CHR ''2'' # hex (byte c mod 16) # X) = Some ([CHR 0xE2, CHR 0x80, c], 4)"
    using s(2) by (auto simp: unescape_u_def hex4_def surrogate_def line_sep_runes unhex_hex)
  then show ?thesis using unquote_u [of "CHR ''2''" "CHR ''0''" "CHR ''2''"] by (simp add: s(1) numeral_3_eq_3)
qed

text \<open>The length of an encoding depends on its own bytes only.\<close>

lemma utf8_len_le: "utf8_len s \<le> length s"
  by (simp add: utf8_len_def split: list.splits)

lemma utf8_len_take:
  assumes "0 < utf8_len s"
  shows "utf8_len (take (utf8_len s) s @ X) = utf8_len s"
proof -
  obtain a r where s: "s = a # r" using assms by (cases s) (simp_all add: utf8_len_def)
  consider "byte a < 128" | "\<not> byte a < 128" "194 \<le> byte a" "byte a \<le> 223" | "224 \<le> byte a" "byte a \<le> 239"
    | "240 \<le> byte a" "byte a \<le> 244"
    using assms unfolding s utf8_len_def by (simp split: if_splits)
  then show ?thesis
  proof cases
    case 1
    then show ?thesis by (simp add: s utf8_len_def)
  next
    case 2
    then obtain b t where r: "r = b # t" "cont 128 191 b"
      using assms unfolding s utf8_len_def by (simp split: list.splits if_splits)
    then have "utf8_len s = 2" using 2 by (simp add: s utf8_len_def)
    then show ?thesis using 2 r by (simp add: s utf8_len_def numeral_2_eq_2)
  next
    case 3
    let ?c = "\<lambda>b. cont (if byte a = 224 then 160 else 128) (if byte a = 237 then 159 else 191) b"
    obtain b c t where r: "r = b # c # t" "?c b" "cont 128 191 c"
      using assms 3 unfolding s utf8_len_def by (simp split: list.splits if_splits)
    then have "utf8_len s = 3" using 3 by (simp add: s utf8_len_def)
    then show ?thesis using 3 r by (simp add: s utf8_len_def numeral_3_eq_3)
  next
    case 4
    let ?c = "\<lambda>b. cont (if byte a = 240 then 144 else 128) (if byte a = 244 then 143 else 191) b"
    obtain b c d t where r: "r = b # c # d # t" "?c b" "cont 128 191 c" "cont 128 191 d"
      using assms 4 unfolding s utf8_len_def by (simp split: list.splits if_splits)
    then have "utf8_len s = 4" using 4 by (simp add: s utf8_len_def)
    then show ?thesis using 4 r by (simp add: s utf8_len_def eval_nat_numeral)
  qed
qed

lemma unquote_multi:
  assumes "\<not> byte a < 128" "0 < utf8_len (a # r)"
  shows "unquote (take (utf8_len (a # r)) (a # r) @ X) = map_option (\<lambda>(v, rest). (take (utf8_len (a # r)) (a # r) @ v, rest)) (unquote X)"
proof -
  let ?n = "utf8_len (a # r)"
  let ?s = "take ?n (a # r) @ X"
  have n: "utf8_len ?s = ?n" by (rule utf8_len_take [OF assms(2)])
  have len: "length (take ?n (a # r)) = ?n" using utf8_len_le [of "a # r"] by simp
  obtain t where t: "?s = a # t" using assms(2) by (cases ?n) simp_all
  have q: "a \<noteq> quote" "a \<noteq> backslash" using assms(1) by (auto simp: quote_def backslash_def)
  have "unquote (a # t) = map_option (\<lambda>(v, rest). (take ?n (a # t) @ v, rest)) (unquote (drop ?n (a # t)))"
    using assms q n unfolding t by (subst unquote.simps) simp
  then have "unquote ?s = map_option (\<lambda>(v, rest). (take ?n ?s @ v, rest)) (unquote (drop ?n ?s))" unfolding t .
  moreover have "take ?n ?s = take ?n (a # r)" "drop ?n ?s = X" using len by simp_all
  ultimately show ?thesis by (simp only:)
qed

lemma unquote_escape:
  "valid_utf8 s \<Longrightarrow> unquote (escape s @ quote # rest) = Some (s, rest)"
proof (induction s rule: valid_utf8.induct)
  case (1 s)
  show ?case
  proof (cases s)
    case Nil
    then show ?thesis by (simp add: escape.simps unquote.simps)
  next
    case (Cons a r)
    let ?n = "utf8_len s"
    have ne: "s \<noteq> []" using Cons by simp
    have "0 < ?n \<and> valid_utf8 (drop ?n s)"
      using 1(2) ne by (subst (asm) valid_utf8.simps) (simp split: if_splits)
    then have n: "0 < ?n" "valid_utf8 (drop ?n s)" by blast+
    have IH: "unquote (escape (drop ?n s) @ quote # rest) = Some (drop ?n s, rest)" using 1(1) n Cons by simp
    show ?thesis
    proof (cases "byte a < 128")
      case True
      then have "?n = 1" by (simp add: utf8_len_def Cons)
      then have "escape s = escape_byte a @ escape (drop ?n s)" using True by (subst escape.simps) (simp add: Cons)
      then show ?thesis using unquote_escape_byte [OF True] IH \<open>?n = 1\<close> by (simp add: Cons)
    next
      case False
      show ?thesis
      proof (cases "is_line_sep s")
        case True
        then have "?n = 3"
          unfolding Cons by (cases r; cases "tl r") (auto simp: is_line_sep_def utf8_len_def cont_def)
        then have "escape s = backslash # ''u202'' @ hex (byte (s ! 2) mod 16) # escape (drop ?n s)"
          using False True by (subst escape.simps) (simp add: Cons)
        then have "unquote (escape s @ quote # rest) = map_option (\<lambda>(v, rest). (take 3 s @ v, rest)) (unquote (escape (drop ?n s) @ quote # rest))"
          using unquote_line_sep [OF True] by simp
        then show ?thesis using IH \<open>?n = 3\<close> by simp
      next
        case ns: False
        then have "escape s = take ?n s @ escape (drop ?n s)" using False n(1) by (subst escape.simps) (simp add: Cons)
        then have "unquote (escape s @ quote # rest) = map_option (\<lambda>(v, rest). (take ?n s @ v, rest)) (unquote (escape (drop ?n s) @ quote # rest))"
          using unquote_multi [OF False, of r] n(1) by (simp add: Cons)
        then show ?thesis using IH by simp
      qed
    qed
  qed
qed

end
