(* ===== verification/Chunk_Json.thy ===== *)
theory Chunk_Json
  imports Store_Update Time_Json Json_Text
begin

text \<open>
  The JSON form of a chunk in the index (\<open>chunk/chunk.go\<close>: \<open>from\<close>, \<open>through\<close> and
  \<open>metric\<close>, without \<open>ID\<close> and \<open>Data\<close>) as \<open>json.Marshal\<close> and \<open>json.Unmarshal\<close> treat the
  struct, and the proof that it reads back. With it the contracts of the index and of the chunk
  store are shown to hold for the in-memory services, so that what \<open>Store_Lookup\<close> and
  \<open>Store_Update\<close> derive from the contracts holds for runnable code.
\<close>

section \<open>The codec\<close>

fun metric_members :: "metric \<Rightarrow> bytes" where
  "metric_members [] = []"
| "metric_members [(k, v)] = json_string k @ CHR '':'' # json_string v"
| "metric_members ((k, v) # e # m) = json_string k @ CHR '':'' # json_string v @ CHR '','' # metric_members (e # m)"

definition marshal_chunk :: "Chunk \<Rightarrow> err + bytes" where
  "marshal_chunk c =
     Inr (CHR ''{'' # json_string ''from'' @ CHR '':'' # Time_String (From c) @ CHR '','' #
          json_string ''through'' @ CHR '':'' # Time_String (Through c) @ CHR '','' #
          json_string ''metric'' @ CHR '':'' # CHR ''{'' # metric_members (Metric c) @ ''}}'')"

text \<open>Field names match without regard to case.\<close>

definition ascii_lower :: "bytes \<Rightarrow> bytes" where
  "ascii_lower s = map (\<lambda>c. if 65 \<le> byte c \<and> byte c \<le> 90 then char_of (byte c + 32) else c) s"

definition type_error :: err where
  "type_error = Err ''json: cannot unmarshal value into Go value''"

definition decode_time :: "json \<Rightarrow> err + Time" where
  "decode_time j = (case j of JNum l \<Rightarrow> Time_UnmarshalJSON l | _ \<Rightarrow> Inl type_error)"

fun decode_labels :: "(bytes \<times> json) list \<Rightarrow> metric \<Rightarrow> err + metric" where
  "decode_labels [] m = Inr m"
| "decode_labels ((k, j) # ms) m = (case j of JStr v \<Rightarrow> decode_labels ms (label_set k v m) | _ \<Rightarrow> Inl type_error)"

definition decode_metric :: "json \<Rightarrow> metric \<Rightarrow> err + metric" where
  "decode_metric j m = (case j of JObj ms \<Rightarrow> decode_labels ms m | JNull \<Rightarrow> Inr [] | _ \<Rightarrow> Inl type_error)"

fun decode_fields :: "(bytes \<times> json) list \<Rightarrow> Chunk \<Rightarrow> err + Chunk" where
  "decode_fields [] c = Inr c"
| "decode_fields ((k, j) # fs) c =
     (if ascii_lower k = ''from'' then
        (case decode_time j of Inl e \<Rightarrow> Inl e | Inr t \<Rightarrow> decode_fields fs (c\<lparr>From := t\<rparr>))
      else if ascii_lower k = ''through'' then
        (case decode_time j of Inl e \<Rightarrow> Inl e | Inr t \<Rightarrow> decode_fields fs (c\<lparr>Through := t\<rparr>))
      else if ascii_lower k = ''metric'' then
        (case decode_metric j (Metric c) of Inl e \<Rightarrow> Inl e | Inr m \<Rightarrow> decode_fields fs (c\<lparr>Metric := m\<rparr>))
      else decode_fields fs c)"

definition unmarshal_chunk :: "bytes \<Rightarrow> Chunk \<Rightarrow> err + Chunk" where
  "unmarshal_chunk b c =
     (case parse_json b of
        None \<Rightarrow> Inl (Err ''invalid character'')
      | Some j \<Rightarrow> (case j of JObj fs \<Rightarrow> decode_fields fs c | JNull \<Rightarrow> Inr c | _ \<Rightarrow> Inl type_error))"

definition json_codec :: Codec where
  "json_codec = \<lparr>marshal = marshal_chunk, unmarshal = unmarshal_chunk\<rparr>"

section \<open>Reading back\<close>

definition time_ok :: "Time \<Rightarrow> bool" where
  "time_ok t \<longleftrightarrow> 0 \<le> t \<and> t < 10 ^ 15"

definition json_ok :: "Chunk \<Rightarrow> bool" where
  "json_ok c \<longleftrightarrow> time_ok (From c) \<and> time_ok (Through c) \<and> wf_metric (Metric c) \<and>
     (\<forall>(k, v) \<in> set (Metric c). valid_utf8 k \<and> valid_utf8 v)"

lemma not_ws [simp]:
  "skip_ws (quote # s) = quote # s" "skip_ws (CHR '':'' # s) = CHR '':'' # s" "skip_ws (CHR '','' # s) = CHR '','' # s"
  "skip_ws (CHR ''}'' # s) = CHR ''}'' # s" "skip_ws (CHR ''{'' # s) = CHR ''{'' # s"
  by (simp_all add: quote_def)

declare skip_ws.simps(2) [simp del]

lemma unquote_json_string: "valid_utf8 s \<Longrightarrow> unquote (escape s @ quote # rest) = Some (s, rest)"
  by (rule unquote_escape)

lemma quote_neq [simp]: "quote \<noteq> CHR ''}''" "CHR ''}'' \<noteq> quote" "quote \<noteq> CHR ''{''" "CHR ''{'' \<noteq> quote"
  by (simp_all add: quote_def)

lemma parse_value_string:
  "valid_utf8 s \<Longrightarrow> parse_value (Suc n) (json_string s @ rest) = Some (JStr s, rest)"
  by (simp add: json_string_def unquote_json_string)

lemma parse_member:
  assumes "valid_utf8 k" "parse_value n s = Some (v, d # r)"
  shows "parse_members (Suc n) (json_string k @ CHR '':'' # s) =
    (case skip_ws (d # r) of [] \<Rightarrow> None | d # r4 \<Rightarrow>
       if d = CHR ''}'' then Some ([(k, v)], r4)
       else if d = CHR '','' then map_option (\<lambda>(ms, rest). ((k, v) # ms, rest)) (parse_members n r4)
       else None)"
  using assms by (simp add: json_string_def unquote_json_string)

lemma parse_member_more:
  assumes "valid_utf8 k" "parse_value n s = Some (v, CHR '','' # r)" "parse_members n r = Some (ms, rest)"
  shows "parse_members (Suc n) (json_string k @ CHR '':'' # s) = Some ((k, v) # ms, rest)"
  unfolding parse_member [OF assms(1,2)] by (simp add: assms(3) del: parse_members.simps)

lemma parse_member_last:
  assumes "valid_utf8 k" "parse_value n s = Some (v, CHR ''}'' # r)"
  shows "parse_members (Suc n) (json_string k @ CHR '':'' # s) = Some ([(k, v)], r)"
  unfolding parse_member [OF assms] by simp

lemma parse_members_metric:
  assumes "m \<noteq> []" "\<forall>(k, v) \<in> set m. valid_utf8 k \<and> valid_utf8 v" "length m < n"
  shows "parse_members n (metric_members m @ CHR ''}'' # rest) = Some (map (\<lambda>(k, v). (k, JStr v)) m, rest)"
  using assms
proof (induction m arbitrary: n rule: metric_members.induct)
  case (2 k v)
  then obtain n' where n: "n = Suc (Suc n')" by (cases n; cases "n - 1") auto
  have "valid_utf8 k" "valid_utf8 v" using 2(2) by auto
  then show ?case
    using parse_member_last [of k "Suc n'" _ "JStr v" rest] parse_value_string [of v n' "CHR ''}'' # rest"]
    by (simp add: n del: parse_value.simps parse_members.simps)
next
  case (3 k v e m)
  then obtain n' where n: "n = Suc (Suc n')" by (cases n; cases "n - 1") auto
  have ok: "valid_utf8 k" "valid_utf8 v" "\<forall>(k, v) \<in> set (e # m). valid_utf8 k \<and> valid_utf8 v" using 3(3) by auto
  have IH: "parse_members (Suc n') (metric_members (e # m) @ CHR ''}'' # rest) = Some (map (\<lambda>(k, v). (k, JStr v)) (e # m), rest)"
    by (rule 3(1)) (use ok(3) 3(4) n in simp_all)
  show ?case
    using parse_member_more [OF ok(1) parse_value_string [OF ok(2)] IH]
    by (simp add: n del: parse_value.simps parse_members.simps)
qed simp

lemma length_metric_members: "length m \<le> length (metric_members m)"
  by (induction m rule: metric_members.induct) (auto simp: json_string_def)

text \<open>Printed timestamps are JSON numbers.\<close>

lemma show_nat_no_leading_zero: "hd (show_nat n) = CHR ''0'' \<Longrightarrow> length (show_nat n) = 1"
proof (induction n rule: show_nat.induct)
  case (1 n)
  show ?case
  proof (cases "n < 10")
    case True
    then show ?thesis by (simp add: show_nat.simps)
  next
    case False
    let ?p = "show_nat (n div 10)"
    have ne: "?p \<noteq> []" by (rule show_nat_nonempty)
    have "show_nat n = ?p @ [digit_char (n mod 10)]" using False by (subst show_nat.simps) simp
    then have "hd ?p = CHR ''0''" using 1(2) ne by simp
    then have "length ?p = 1" using 1(1) False by simp
    then have "?p = [CHR ''0'']" using \<open>hd ?p = CHR ''0''\<close> by (cases ?p) auto
    then have "n div 10 = digits_val [CHR ''0'']" using show_nat_reads [of "n div 10"] by simp
    also have "\<dots> = 0" by (simp add: digits_val_def digit_val_def)
    finally show ?thesis using False by simp
  qed
qed

lemma dig_is_digit: "dig c = is_digit c"
  by (simp add: dig_def is_digit_def)

lemma takeWhile_all: "\<forall>c\<in>set s. P c \<Longrightarrow> r = [] \<or> \<not> P (hd r) \<Longrightarrow> takeWhile P (s @ r) = s \<and> dropWhile P (s @ r) = r"
  by (cases r) (auto simp: takeWhile_append2 dropWhile_append2)

lemma valid_decimal:
  assumes "s \<noteq> []" "\<forall>c\<in>set s. dig c" "hd s = CHR ''0'' \<longrightarrow> length s = 1" "\<forall>c\<in>set f. dig c"
  shows "valid_number (s @ (if f = [] then [] else CHR ''.'' # f))"
proof -
  let ?r = "if f = [] then [] else CHR ''.'' # f"
  have "dig (hd s)" using assms(2) hd_in_set [OF assms(1)] by blast
  then have h: "hd (s @ ?r) \<noteq> CHR ''-''" using assms(1) by (auto simp: dig_def)
  have "?r = [] \<or> \<not> dig (hd ?r)" by (simp add: dig_def)
  then have tw: "takeWhile dig (s @ ?r) = s" "dropWhile dig (s @ ?r) = ?r"
    using takeWhile_all [OF assms(2)] by blast+
  have f: "takeWhile dig f = f" "dropWhile dig f = []" using takeWhile_all [OF assms(4), of "[]"] by auto
  have s1: "(if s @ ?r \<noteq> [] \<and> hd (s @ ?r) = CHR ''-'' then tl (s @ ?r) else s @ ?r) = s @ ?r" using h by simp
  have "if ?r \<noteq> [] \<and> hd ?r = CHR ''.'' then takeWhile dig (tl ?r) \<noteq> [] \<and> valid_exp (dropWhile dig (tl ?r)) else valid_exp ?r"
    by (cases "f = []") (simp_all add: f valid_exp_def)
  then show ?thesis
    unfolding valid_number_def Let_def s1 tw using assms(1,3) by blast
qed

lemma Time_String_number:
  assumes "0 \<le> t"
  shows "valid_number (Time_String t) \<and> (\<forall>c\<in>set (Time_String t). number_char c) \<and> (\<exists>c r. Time_String t = c # r \<and> dig c)"
proof -
  define a where "a = nat t"
  let ?s = "show_nat (a div 1000)" and ?fr = "strip_zeros (millis_digits (a mod 1000))"
  let ?r = "if ?fr = [] then [] else CHR ''.'' # ?fr"
  have str: "Time_String t = ?s @ ?r" using assms by (simp add: Time_String_def Let_def a_def)
  have s: "\<forall>c\<in>set ?s. dig c" "?s \<noteq> []" using show_nat_reads [of "a div 1000"] show_nat_nonempty dig_is_digit by blast+
  have fr: "\<forall>c\<in>set ?fr. dig c"
    using millis_digits_reads [of "a mod 1000"] by (auto simp: strip_zeros_def dig_is_digit dest: set_dropWhileD)
  have "valid_number (?s @ ?r)"
    by (rule valid_decimal [OF s(2,1) _ fr]) (use show_nat_no_leading_zero in blast)
  moreover have "\<forall>c\<in>set (?s @ ?r). number_char c" using s(1) fr by (auto simp: number_char_def)
  moreover have "\<exists>c r. ?s @ ?r = c # r \<and> dig c" using s by (cases ?s) auto
  ultimately show ?thesis unfolding str by blast
qed

lemma parse_value_time:
  assumes "0 \<le> t" "\<not> number_char d"
  shows "parse_value (Suc n) (Time_String t @ d # rest) = Some (JNum (Time_String t), d # rest)"
proof -
  note N = Time_String_number [OF assms(1)]
  then obtain c r where c: "Time_String t = c # r" "dig c" by blast
  have tw: "takeWhile number_char (Time_String t @ d # rest) = Time_String t" "dropWhile number_char (Time_String t @ d # rest) = d # rest"
    using takeWhile_all [of "Time_String t" number_char "d # rest"] N assms(2) by auto
  then have pn: "parse_number (c # r @ d # rest) = Some (JNum (Time_String t), d # rest)"
    using N c(1) by (simp add: parse_number_def Let_def)
  have ne: "c \<noteq> quote" "c \<noteq> CHR ''{''" "c \<noteq> CHR ''[''" "c \<noteq> CHR ''n''" "c \<noteq> CHR ''t''" "c \<noteq> CHR ''f''"
    "c \<notin> {CHR '' '', CHR 0x09, CHR 0x0A, CHR 0x0D}"
    using c(2) by (auto simp: dig_def quote_def)
  then have "skip_ws (c # r @ d # rest) = c # r @ d # rest" by (simp add: skip_ws.simps)
  then show ?thesis using pn ne by (simp add: c(1))
qed

lemma parse_value_metric:
  assumes "\<forall>(k, v) \<in> set m. valid_utf8 k \<and> valid_utf8 v" "length m < n"
  shows "parse_value (Suc n) (CHR ''{'' # metric_members m @ CHR ''}'' # rest) =
    Some (JObj (map (\<lambda>(k, v). (k, JStr v)) m), rest)"
proof (cases m)
  case Nil
  then show ?thesis by simp
next
  case (Cons e m')
  have "\<exists>r. metric_members m = quote # r"
    unfolding Cons by (cases e; cases m') (auto simp: json_string_def)
  then obtain r where r: "metric_members m = quote # r" by blast
  have "parse_members n (metric_members m @ CHR ''}'' # rest) = Some (map (\<lambda>(k, v). (k, JStr v)) m, rest)"
    by (rule parse_members_metric) (use Cons assms in auto)
  then show ?thesis by (simp add: r del: parse_members.simps)
qed

lemma field_names_valid: "valid_utf8 ''from''" "valid_utf8 ''through''" "valid_utf8 ''metric''"
  by code_simp+

lemma parse_marshalled:
  assumes "json_ok c" "marshal_chunk c = Inr b"
  shows "parse_json b = Some (JObj [(''from'', JNum (Time_String (From c))), (''through'', JNum (Time_String (Through c))),
    (''metric'', JObj (map (\<lambda>(k, v). (k, JStr v)) (Metric c)))])"
proof -
  let ?M = "CHR ''{'' # metric_members (Metric c) @ CHR ''}'' # ''}''"
  let ?m = "json_string ''metric'' @ CHR '':'' # ?M"
  let ?t = "json_string ''through'' @ CHR '':'' # Time_String (Through c) @ CHR '','' # ?m"
  let ?f = "json_string ''from'' @ CHR '':'' # Time_String (From c) @ CHR '','' # ?t"
  have b: "b = CHR ''{'' # ?f" using assms(2) by (simp add: marshal_chunk_def)
  have t: "0 \<le> From c" "0 \<le> Through c" and u: "\<forall>(k, v) \<in> set (Metric c). valid_utf8 k \<and> valid_utf8 v"
    using assms(1) by (simp_all add: json_ok_def time_ok_def)
  have "6 + length (Metric c) \<le> length b"
    using length_metric_members [of "Metric c"] by (simp add: b json_string_def)
  then obtain n where n: "length b + 1 = Suc (Suc (Suc (Suc (Suc n))))" "length (Metric c) < n"
    by (intro that [of "length b - 4"]) linarith+
  have comma: "\<not> number_char CHR '',''" by (simp add: number_char_def dig_def)
  have "parse_members (Suc (Suc n)) ?m = Some ([(''metric'', JObj (map (\<lambda>(k, v). (k, JStr v)) (Metric c)))], [])"
    by (rule parse_member_last [OF field_names_valid(3) parse_value_metric [OF u n(2)]])
  from parse_member_more [OF field_names_valid(2) parse_value_time [OF t(2) comma] this]
  have "parse_members (Suc (Suc (Suc n))) ?t = Some ([(''through'', JNum (Time_String (Through c))),
      (''metric'', JObj (map (\<lambda>(k, v). (k, JStr v)) (Metric c)))], [])" .
  from parse_member_more [OF field_names_valid(1) parse_value_time [OF t(1) comma] this]
  have "parse_members (Suc (Suc (Suc (Suc n)))) ?f = Some ([(''from'', JNum (Time_String (From c))),
      (''through'', JNum (Time_String (Through c))), (''metric'', JObj (map (\<lambda>(k, v). (k, JStr v)) (Metric c)))], [])" .
  moreover have "\<exists>r. ?f = quote # r" by (simp add: json_string_def)
  then obtain r where "?f = quote # r" by blast
  ultimately show ?thesis
    unfolding parse_json_def n(1) unfolding b by (simp del: parse_members.simps)
qed

section \<open>The round trip\<close>

lemma decode_labels_strings:
  "decode_labels (map (\<lambda>(k, v). (k, JStr v)) ms) m = Inr (foldl (\<lambda>m l. label_set (fst l) (snd l) m) m ms)"
  by (induction ms arbitrary: m) auto

lemma json_codec_law:
  assumes "json_ok c"
  shows "\<exists>b. marshal json_codec c = Inr b \<and>
    (\<forall>i. unmarshal json_codec b (empty_chunk i) =
       Inr ((empty_chunk i)\<lparr>From := From c, Through := Through c, Metric := Metric c\<rparr>))"
proof -
  obtain b where b: "marshal_chunk c = Inr b" by (simp add: marshal_chunk_def)
  have t: "Time_UnmarshalJSON (Time_String (From c)) = Inr (From c)" "Time_UnmarshalJSON (Time_String (Through c)) = Inr (Through c)"
    and m: "wf_metric (Metric c)"
    using assms by (simp_all add: json_ok_def time_ok_def Time_roundtrip)
  have low: "ascii_lower ''from'' = ''from''" "ascii_lower ''through'' = ''through''" "ascii_lower ''metric'' = ''metric''"
    by (simp_all add: ascii_lower_def)
  have "unmarshal_chunk b (empty_chunk i) = Inr ((empty_chunk i)\<lparr>From := From c, Through := Through c, Metric := Metric c\<rparr>)" for i
    by (simp add: unmarshal_chunk_def parse_marshalled [OF assms b] low t decode_time_def decode_metric_def
        empty_chunk_def decode_labels_strings rebuild_metric [OF m])
  then show ?thesis using b by (simp add: json_codec_def)
qed

section \<open>The contracts hold for the in-memory services\<close>

interpretation mockindex: chunk_index "mock_dynamodb names" table "mock_idx table" "mock_inv table" json_codec json_ok
  by unfold_locales (rule json_codec_law)

interpretation mockstore: chunk_store "mock_dynamodb names" table "mock_idx table" "mock_inv table" json_codec json_ok
  mock_s3 bucket "mock_objs bucket"
  by unfold_locales

end
