(* ===== verification/Store_Refinement.thy ===== *)
theory Store_Refinement
  imports Chunk_Json
begin

text \<open>
  The chunk store as an abstract data type. Its abstract state is a set of chunks per user;
  \<open>Put\<close> adds chunks, \<open>Get\<close> returns the selected ones. The locale \<open>cached_store\<close> adds
  the memcache contract to the contracts of the index and the object store, and histories of
  operations on the real store are shown to conform to the abstract one, with or without the
  cache in front. The last section shows what the loop variable of \<open>StoreChunks\<close> can do.
\<close>

section \<open>Histories and their specification\<close>

datatype store_op =
    PutOp Orders string "Chunk list"
  | GetOp Orders string Time Time "LabelMatcher list"

datatype store_resp = PutResp "err option" | GetResp "err + Chunk list"

definition run_op ::
  "Codec \<Rightarrow> ('d, 's, 'm) AWSStore \<Rightarrow> store_op \<Rightarrow> ('d, 's, 'm) World \<Rightarrow> (store_resp \<times> ('d, 's, 'm) World) go" where
  "run_op J st op w =
     (case op of
        PutOp S u cs \<Rightarrow> bind_go (Put J S st (WithID Background u) cs w) (\<lambda>(e, w'). Ret (PutResp e, w'))
      | GetOp S u from through matchers \<Rightarrow>
          bind_go (Get J S st (WithID Background u) from through matchers w) (\<lambda>r.
            case r of Inl e \<Rightarrow> Ret (GetResp (Inl e), w) | Inr (cs, w') \<Rightarrow> Ret (GetResp (Inr cs), w')))"

fun run_ops ::
  "Codec \<Rightarrow> ('d, 's, 'm) AWSStore \<Rightarrow> store_op list \<Rightarrow> ('d, 's, 'm) World \<Rightarrow> (store_resp list \<times> ('d, 's, 'm) World) go" where
  "run_ops J st [] w = Ret ([], w)"
| "run_ops J st (op # ops) w =
     bind_go (run_op J st op w) (\<lambda>(r, w1). bind_go (run_ops J st ops w1) (\<lambda>(rs, w2). Ret (r # rs, w2)))"

text \<open>The abstract store: what an operation may answer, and the state after it.\<close>

definition spec_resp :: "stored \<Rightarrow> store_op \<Rightarrow> store_resp \<Rightarrow> bool" where
  "spec_resp C op r =
     (case op of
        PutOp S u cs \<Rightarrow> r = PutResp None
      | GetOp S u from through matchers \<Rightarrow>
          (case fst (extractMetricName matchers) of
             Inl e \<Rightarrow> r = GetResp (Inl e)
           | Inr (name, ms) \<Rightarrow>
               (\<exists>cs. r = GetResp (Inr cs) \<and> byid_set cs \<and> set cs = {c \<in> C u. selects from through name ms c})))"

definition spec_next :: "stored \<Rightarrow> store_op \<Rightarrow> stored" where
  "spec_next C op = (case op of PutOp S u cs \<Rightarrow> C(u := C u \<union> set cs) | GetOp S u from through matchers \<Rightarrow> C)"

fun conforms :: "stored \<Rightarrow> store_op list \<Rightarrow> store_resp list \<Rightarrow> bool" where
  "conforms C [] rs \<longleftrightarrow> rs = []"
| "conforms C (op # ops) rs \<longleftrightarrow> (\<exists>r rs'. rs = r # rs' \<and> spec_resp C op r \<and> conforms (spec_next C op) ops rs')"

text \<open>
  What an operation must satisfy: chunks can be encoded and have a metric name, no two chunks
  of a user share an ID, the work fits behind the limiter, the scan ranges are well defined,
  and the goroutines that fill the cache read the loop variable before it moves on.
\<close>

definition clean_reads :: reads where
  "clean_reads i = (i, i)"

definition op_ok :: "Codec \<Rightarrow> (Chunk \<Rightarrow> bool) \<Rightarrow> ('d, 's, 'm) AWSStore \<Rightarrow> string set \<Rightarrow> stored \<Rightarrow> store_op \<Rightarrow> bool" where
  "op_ok J valid st U C op =
     (case op of
        PutOp S u cs \<Rightarrow>
          fair_orders S \<and> u \<in> U \<and>
          (\<forall>c\<in>set cs. valid c \<and> encodable c \<and> map_of (Metric c) MetricNameLabel \<noteq> None) \<and>
          inj_on ID (C u \<union> set cs) \<and> completes (putLimiter st) (length cs) \<and>
          (\<forall>ws. calculateDynamoWrites J S u cs = Ret (Inr ws) \<longrightarrow> completes (putLimiter st) (length (batchRequests ws)))
      | GetOp S u from through matchers \<Rightarrow>
          fair_orders S \<and> store_reads S = clean_reads \<and> u \<in> U \<and>
          (\<forall>name ms. fst (extractMetricName matchers) = Inr (name, ms) \<longrightarrow> (\<forall>m\<in>set ms. scan_ok m)))"

fun ops_ok :: "Codec \<Rightarrow> (Chunk \<Rightarrow> bool) \<Rightarrow> ('d, 's, 'm) AWSStore \<Rightarrow> string set \<Rightarrow> stored \<Rightarrow> store_op list \<Rightarrow> bool" where
  "ops_ok J valid st U C [] \<longleftrightarrow> True"
| "ops_ok J valid st U C (op # ops) \<longleftrightarrow> op_ok J valid st U C op \<and> ops_ok J valid st U (spec_next C op) ops"

section \<open>The cache in front of the store\<close>

lemma memcacheKey_chunkName: "memcacheKey = chunkName"
  by (simp add: memcacheKey_def chunkName_def fun_eq_iff)

lemma store_each_clean:
  "\<forall>i\<in>set is. i < length cs \<Longrightarrow>
   snd (store_each cache u cs clean_reads is m) = foldl (\<lambda>m c. snd (StoreChunkData cache u c m)) m (map (\<lambda>i. cs ! i) is)"
  by (induction "is" arbitrary: m) (auto simp: clean_reads_def StoreChunkData_def case_prod_beta)

lemma StoreChunks_clean:
  assumes "fair s"
  shows "snd (StoreChunks cache s clean_reads u cs m) = foldl (\<lambda>m c. snd (StoreChunkData cache u c m)) m (permute s cs)"
proof -
  have "set (s (length cs)) = {0..<length cs}"
    using assms by (metis fair_def mset_eq_setD mset_upt set_upt atLeastLessThan_upt)
  then show ?thesis
    using store_each_clean [of "s (length cs)" cs cache u m]
    by (simp add: StoreChunks_def permute_def case_prod_beta)
qed

locale cached_store = chunk_store client table idx inv J valid s3c bucket objs + memcache_service cache mem
  for client :: "'d dynamodbClient" and table :: string and idx :: "'d \<Rightarrow> index" and inv :: "'d \<Rightarrow> bool"
    and J :: Codec and valid :: "Chunk \<Rightarrow> bool"
    and s3c :: "'s s3Client" and bucket :: string and objs :: "'s \<Rightarrow> string \<rightharpoonup> bytes"
    and cache :: "'m Cache" and mem :: "'m \<Rightarrow> string \<rightharpoonup> bytes"
begin

text \<open>Every cached value is the data of a stored chunk, under its key.\<close>

definition backed :: "string set \<Rightarrow> stored \<Rightarrow> 'm \<Rightarrow> bool" where
  "backed U C m \<longleftrightarrow> (\<forall>k v. mem m k = Some v \<longrightarrow> (\<exists>u\<in>U. \<exists>c\<in>C u. k = chunkName u (ID c) \<and> v = Data c))"

definition cache_ok :: "('d, 's, 'm) AWSStore \<Rightarrow> bool" where
  "cache_ok st \<longleftrightarrow> chunkCache st = None \<or> chunkCache st = Some cache"

lemma backed_mono: "backed U C m \<Longrightarrow> (\<And>u. C u \<subseteq> C' u) \<Longrightarrow> backed U C' m"
  unfolding backed_def by blast

lemma backed_store:
  assumes "backed U C m" "u \<in> U" "c \<in> C u"
  shows "backed U C (snd (StoreChunkData cache u c m))"
  using assms set_sub unfolding backed_def StoreChunkData_def store_item_def memcacheKey_chunkName by blast

lemma backed_stores:
  assumes "u \<in> U" "set cs \<subseteq> C u" "backed U C m"
  shows "backed U C (foldl (\<lambda>m c. snd (StoreChunkData cache u c m)) m cs)"
  using assms(2,3) by (induction cs arbitrary: m) (auto intro: backed_store [OF _ assms(1)])

lemma backed_putChunk:
  assumes "cache_ok st" "u \<in> U" "c \<in> C u" "backed U C (mem_state w)"
  shows "backed U C (mem_state (snd (putChunk st u c w)))"
  using assms backed_store [OF assms(4,2,3)]
  by (auto simp: putChunk_def cache_ok_def split: prod.splits option.splits)

lemma Put_backed:
  assumes "cache_ok st" "u \<in> U" "GetID ctx = Inr u" "fair_orders S" "backed U C (mem_state w)"
    and P: "Put J S st ctx cs w = Ret (e, w')"
  shows "backed U (C(u := C u \<union> set cs)) (mem_state w')"
proof -
  let ?C = "C(u := C u \<union> set cs)"
  have fair: "fair (put_ord S)" "fair (batch_ord S)" using assms(4) by (simp_all add: fair_orders_def)
  obtain e1 w1 where put: "putChunks S st u cs w = Ret (e1, w1)"
    using P assms(3) by (auto simp: Put_def bind_go_eq_Ret)
  have b1: "backed U ?C (mem_state w1)"
  proof (rule spawn_limited_invariant [where I = "\<lambda>w. backed U ?C (mem_state w)", OF _ _ fair(1) put [unfolded putChunks_def]])
    show "\<And>x w e w'. x \<in> set cs \<Longrightarrow> backed U ?C (mem_state w) \<Longrightarrow> Ret (putChunk st u x w) = Ret (e, w') \<Longrightarrow>
        backed U ?C (mem_state w')"
      using backed_putChunk [OF assms(1,2), where C = ?C] by force
    show "backed U ?C (mem_state w)" by (rule backed_mono [OF assms(5)]) auto
  qed
  show ?thesis
  proof (cases e1)
    case (Some x)
    then show ?thesis using P b1 by (simp add: Put_def assms(3) put)
  next
    case None
    then have upd: "updateIndex J S st u cs w1 = Ret (e, w')" using P by (simp add: Put_def assms(3) put)
    then obtain r where r: "calculateDynamoWrites J S u cs = Ret r"
      by (auto simp: updateIndex_def bind_go_eq_Ret)
    have keeps: "batchWriteDynamo st x w2 = Ret (e', w3) \<Longrightarrow> mem_state w3 = mem_state w2" for x w2 e' w3
      by (auto simp: batchWriteDynamo_def bind_go_eq_Ret)
    have "mem_state w' = mem_state w1"
    proof (cases r)
      case (Inr ws)
      then have "spawn_limited (putLimiter st) (batch_ord S) (batchWriteDynamo st) (batchRequests ws) w1 = Ret (e, w')"
        using upd r by (simp add: updateIndex_def)
      then show ?thesis
        by (rule spawn_limited_invariant [where I = "\<lambda>w. mem_state w = mem_state w1", OF _ _ fair(2), rotated 2])
          (simp_all add: keeps)
    qed (use upd r in \<open>simp add: updateIndex_def\<close>)
    then show ?thesis using b1 by simp
  qed
qed

text \<open>What the cache returns for a descriptor is the stored chunk.\<close>

lemma fetch_cached:
  assumes ok: "stored_ok valid U C" and b: "backed U C m" and u: "u \<in> U" and X: "set X \<subseteq> descr ` C u"
    and f: "FetchChunkData cache u X m = (F, M, e)"
  shows "set F \<subseteq> C u \<and> mset (map descr F) + mset M = mset X \<and> set M \<subseteq> set X"
proof (cases "GetMulti (Memcache cache) (map (\<lambda>chunk. memcacheKey u (ID chunk)) X) m")
  case (Inl e')
  then show ?thesis using f by (simp add: FetchChunkData_def)
next
  case (Inr items)
  let ?P = "\<lambda>c. items (chunkName u (ID c)) \<noteq> None" and ?d = "\<lambda>c. c\<lparr>Data := the (items (chunkName u (ID c)))\<rparr>"
  have FM: "F = map ?d (filter ?P X)" "M = filter (\<lambda>c. \<not> ?P c) X"
    using f Inr by (simp_all add: FetchChunkData_def Let_def split_cached_filter memcacheKey_chunkName)
  have d: "descr (?d x) = x" if "x \<in> set X" for x using that X by (auto simp: descr_def)
  have "?d x \<in> C u" if x: "x \<in> set X" "?P x" for x
  proof -
    obtain v where v: "items (chunkName u (ID x)) = Some v" using x(2) by blast
    then have "mem m (chunkName u (ID x)) = Some v" by (rule get_sub [OF Inr])
    then obtain u' c' where c': "u' \<in> U" "c' \<in> C u'" "chunkName u (ID x) = chunkName u' (ID c')" "v = Data c'"
      using b unfolding backed_def by blast
    then have uu: "u = u'" "ID x = ID c'"
      using chunkName_inj [of u u' "ID x" "ID c'"] ok u by (simp_all add: stored_ok_def)
    obtain c0 where c0: "c0 \<in> C u" "x = descr c0" using X x(1) by blast
    then have "c0 = c'" using ok u c'(2) uu by (auto simp: stored_ok_def dest: inj_onD)
    then show ?thesis using c0 v c'(4) by (simp add: descr_def)
  qed
  then have "set F \<subseteq> C u" by (auto simp: FM(1))
  moreover have "map descr F = filter ?P X" unfolding FM(1) map_map by (rule map_idI) (simp add: d)
  ultimately show ?thesis unfolding FM(2) by (simp flip: multiset_partition)
qed

lemma Get_cached:
  assumes H: "holds U C w" and b: "backed U C (mem_state w)" and u: "u \<in> U" "GetID ctx = Inr u"
    and st: "uses_services st" "cache_ok st" and S: "fair_orders S" "store_reads S = clean_reads"
    and ex: "fst (extractMetricName matchers) = Inr (name, ms)" and ms: "\<forall>m\<in>set ms. scan_ok m"
  shows "\<exists>cs w'. Get J S st ctx from through matchers w = Ret (Inr (cs, w')) \<and> byid_set cs \<and>
    set cs = {c \<in> C u. selects from through name ms c} \<and> holds U C w' \<and> backed U C (mem_state w')"
proof (cases "chunkCache st")
  case None
  then show ?thesis using Get_selects [OF H u st(1) None S(1) ex ms] H b by blast
next
  case (Some c)
  then have cc: "chunkCache st = Some cache" using st(2) by (simp add: cache_ok_def)
  have wf: "wf_state U (db_state w) C" using H by (simp add: holds_def)
  then have ok: "stored_ok valid U C" by (simp add: wf_state_def)
  then have inj: "inj_on ID (C u)" using u(1) by (simp add: stored_ok_def)
  have db: "dynamodb st = client" "tableName st = table" using st(1) by (simp_all add: uses_services_def)
  let ?A = "{c \<in> C u. selects from through name ms c}"
  obtain X where X: "lookupChunks J S st (db_state w) u from through matchers = Ret (Inr X)" "byid_set X" "set X = descr ` ?A"
    using lookup_all [OF wf u(1) db(1) db(2) S(1) ex ms] by blast
  then have Xs: "set X \<subseteq> descr ` C u" by auto
  obtain F M e where f: "FetchChunkData cache u X (mem_state w) = (F, M, e)" by (rule prod_cases3)
  have F: "set F \<subseteq> C u" "mset (map descr F) + mset M = mset X" "set M \<subseteq> descr ` C u"
    using fetch_cached [OF ok b u(1) Xs f] Xs by blast+
  obtain Y where Y: "fetchChunkData S st (s3_state w) u M = Inr Y" "mset (map descr Y) = mset M" "set Y \<subseteq> C u"
    using fetch_descr [OF H u(1) st(1) S(1) F(3)] .
  let ?w = "w\<lparr>mem_state := fill_cache S st u Y (mem_state w)\<rparr>"
  have get: "Get J S st ctx from through matchers w = Ret (Inr (sort_ByID (F @ Y), ?w))"
    by (simp add: Get_def u(2) X(1) cc f Y(1))
  have sorted: "byid_set (sort_ByID (F @ Y)) \<and> set (sort_ByID (F @ Y)) = ?A"
    by (rule assemble [OF inj X(2,3)]) (use F(1,2) Y(2,3) in auto)
  have fair: "fair (store_ord S)" using S(1) by (simp add: fair_orders_def)
  have "fill_cache S st u Y (mem_state w) =
      foldl (\<lambda>m c. snd (StoreChunkData cache u c m)) (mem_state w) (permute (store_ord S) Y)"
    by (simp add: fill_cache_def cc S(2) StoreChunks_clean [OF fair])
  then have "backed U C (mem_state ?w)"
    using backed_stores [OF u(1) _ b] Y(3) by (simp add: set_permute [OF fair])
  moreover have "holds U C ?w" using H by (simp add: holds_def)
  ultimately show ?thesis using get sorted by blast
qed

section \<open>Histories conform\<close>

lemma run_op_conforms:
  assumes H: "holds U C w" "backed U C (mem_state w)" and st: "uses_services st" "cache_ok st" and op: "op_ok J valid st U C op"
  shows "\<exists>r w'. run_op J st op w = Ret (r, w') \<and> spec_resp C op r \<and> holds U (spec_next C op) w' \<and>
    backed U (spec_next C op) (mem_state w')"
proof (cases op)
  case (PutOp S u cs)
  have p: "fair_orders S" "u \<in> U" "puttable S st C u cs"
    using op by (simp_all add: PutOp op_ok_def puttable_def writable_def)
  obtain w' where w': "Put J S st (WithID Background u) cs w = Ret (None, w')" "holds U (C(u := C u \<union> set cs)) w'"
    using Put_holds [OF H(1) p(2) GetID_WithID st(1) p(1,3)] by blast
  have "backed U (C(u := C u \<union> set cs)) (mem_state w')"
    by (rule Put_backed [OF st(2) p(2) GetID_WithID p(1) H(2) w'(1)])
  then show ?thesis using w' by (simp add: PutOp run_op_def spec_resp_def spec_next_def)
next
  case (GetOp S u lo hi matchers)
  have g: "fair_orders S" "store_reads S = clean_reads" "u \<in> U"
    using op by (simp_all add: GetOp op_ok_def)
  show ?thesis
  proof (cases "fst (extractMetricName matchers)")
    case (Inl e)
    then show ?thesis using H by (simp add: GetOp run_op_def spec_resp_def spec_next_def Get_def lookupChunks_def)
  next
    case (Inr nm)
    obtain name ms where nm: "nm = (name, ms)" by (cases nm)
    have ex: "fst (extractMetricName matchers) = Inr (name, ms)" using Inr nm by simp
    then have "\<forall>m\<in>set ms. scan_ok m" using op by (simp add: GetOp op_ok_def)
    from Get_cached [OF H g(3) GetID_WithID [of Background u] st g(1,2) ex this, of lo hi] show ?thesis
      using ex by (fastforce simp: GetOp run_op_def spec_resp_def spec_next_def)
  qed
qed

lemma run_ops_conforms:
  assumes "holds U C w" "backed U C (mem_state w)" "uses_services st" "cache_ok st" "ops_ok J valid st U C ops"
  shows "\<exists>rs w'. run_ops J st ops w = Ret (rs, w') \<and> conforms C ops rs"
  using assms(1,2,5)
proof (induction ops arbitrary: C w)
  case (Cons op ops)
  obtain r w1 where w1: "run_op J st op w = Ret (r, w1)" "spec_resp C op r" "holds U (spec_next C op) w1"
    "backed U (spec_next C op) (mem_state w1)"
    using run_op_conforms [OF Cons.prems(1,2) assms(3,4), of op] Cons.prems(3) by (metis ops_ok.simps(2))
  obtain rs w2 where "run_ops J st ops w1 = Ret (rs, w2)" "conforms (spec_next C op) ops rs"
    using Cons.IH [OF w1(3,4)] Cons.prems(3) by auto
  then show ?case using w1(1,2) by auto
qed simp

end

section \<open>The store over the in-memory services\<close>

interpretation mockcached: cached_store "mock_dynamodb names" table "mock_idx table" "mock_inv table" json_codec json_ok
  mock_s3 bucket "mock_objs bucket" "\<lparr>Memcache = map_memcache, Expiration = e\<rparr>" "\<lambda>m. m"
  by unfold_locales

end
