(* ===== verification/Store_Properties.thy ===== *)
theory Store_Properties
  imports Store_Refinement
begin

text \<open>
  The properties of the chunk store: that it implements a set of chunks per user, on the
  in-memory services of \<open>go-mockaws\<close>, and what its helpers compute, together with the
  cases in which the code does not do what it is meant to do.
\<close>

section \<open>A store on the in-memory services\<close>

text \<open>The store as \<open>NewAWSStore\<close> assembles it, on in-memory clients.\<close>

definition mock_store ::
  "(MockDynamoDB \<Rightarrow> string list) \<Rightarrow> string \<Rightarrow> string \<Rightarrow> (string \<rightharpoonup> bytes) Cache option \<Rightarrow>
   (MockDynamoDB, MockS3, string \<rightharpoonup> bytes) AWSStore" where
  "mock_store names table bucket cache =
     \<lparr>dynamodb = mock_dynamodb names, s3 = mock_s3, chunkCache = cache, tableName = table,
      bucketName = bucket, putLimiter = Some maxConcurrentPuts\<rparr>"

definition fresh_world ::
  "(MockDynamoDB, MockS3, string \<rightharpoonup> bytes) AWSStore \<Rightarrow> (MockDynamoDB, MockS3, string \<rightharpoonup> bytes) World" where
  "fresh_world st = \<lparr>db_state = snd (CreateTables st Map.empty), s3_state = Map.empty, mem_state = Map.empty\<rparr>"

definition plain_orders :: Orders where
  "plain_orders =
     \<lparr>hours_ord = in_order, matchers_ord = (\<lambda>_. in_order), fetch_ord = in_order, store_ord = in_order,
      store_reads = clean_reads, put_ord = in_order, batch_ord = in_order, range_ord = (\<lambda>_ _. in_order)\<rparr>"

lemma plain_orders_fair [simp]: "fair_orders plain_orders" "store_reads plain_orders = clean_reads"
  by (simp_all add: plain_orders_def fair_orders_def)

lemma fresh_table:
  assumes "names Map.empty = []"
  shows "snd (CreateTables (mock_store names table bucket cache) Map.empty) =
    [table \<mapsto> \<lparr>t_hashKey = hashKey, t_rangeKey = rangeKey, t_items = Map.empty\<rparr>]"
  using assms by (simp add: CreateTables_def mock_store_def mock_dynamodb_def mock_CreateTable_def schema_key_def)

lemma fresh_holds:
  assumes "names Map.empty = []" "\<forall>u\<in>U. CHR '':'' \<notin> set u \<and> CHR ''/'' \<notin> set u"
  shows "mockstore.holds table bucket U (\<lambda>_. {}) (fresh_world (mock_store names table bucket cache))"
proof -
  let ?d = "snd (CreateTables (mock_store names table bucket cache) Map.empty)"
  have "mock_inv table ?d" "mock_idx table ?d = (\<lambda>_. Map.empty)"
    by (simp_all add: fresh_table [of names, OF assms(1)] mock_inv_def table_ok_def mock_idx_def table_idx_def fun_eq_iff)
  then show ?thesis
    using assms(2)
    by (simp add: mockstore.holds_def mockindex.wf_state_def mockindex.represents_def stored_ok_def fresh_world_def)
qed

text \<open>A user with one chunk.\<close>

definition demo_chunk :: Chunk where
  "demo_chunk =
     \<lparr>ID = ''c1'', From = 1000, Through = 2000,
      Metric = [(MetricNameLabel, ''up''), (''job'', ''web'')], Data = ''xyz''\<rparr>"

definition demo_matchers :: "LabelMatcher list" where
  "demo_matchers =
     [\<lparr>m_Type = Equal, m_Name = ''job'', m_Value = ''web'', m_re = (\<lambda>_. False)\<rparr>,
      \<lparr>m_Type = Equal, m_Name = MetricNameLabel, m_Value = ''up'', m_re = (\<lambda>_. False)\<rparr>]"

lemma extract_demo:
  "fst (extractMetricName demo_matchers) = Inr (''up'', [\<lparr>m_Type = Equal, m_Name = ''job'', m_Value = ''web'', m_re = (\<lambda>_. False)\<rparr>])"
  by (simp add: extractMetricName_def demo_matchers_def MetricNameLabel_def)

lemma demo_ok:
  "json_ok demo_chunk" "encodable demo_chunk" "map_of (Metric demo_chunk) MetricNameLabel = Some ''up''"
  "bigBuckets (From demo_chunk) (Through demo_chunk) = [0]"
  by code_simp+

lemma demo_writes:
  "calculateDynamoWrites json_codec plain_orders u [demo_chunk] = Ret (Inr ws) \<Longrightarrow> length (batchRequests ws) = 1"
proof -
  assume "calculateDynamoWrites json_codec plain_orders u [demo_chunk] = Ret (Inr ws)"
  moreover obtain b where "marshal json_codec demo_chunk = Inr b" by (simp add: json_codec_def marshal_chunk_def)
  ultimately have "length ws = 1"
    by (auto simp: demo_ok(3,4) bind_go_eq_Ret bind_err_eq_Inr) (auto simp: demo_chunk_def plain_orders_def MetricNameLabel_def bind_go_eq_Ret)
  then show ?thesis
    by (simp add: batchRequests_def batch_loop_length dynamoMaxBatchSize_def)
qed

definition demo_names :: "MockDynamoDB \<Rightarrow> string list" where
  "demo_names m = (if m ''t'' = None then [] else [''t''])"

definition demo_store :: "(MockDynamoDB, MockS3, string \<rightharpoonup> bytes) AWSStore" where
  "demo_store = mock_store demo_names ''t'' ''b'' (Some \<lparr>Memcache = map_memcache, Expiration = 0\<rparr>)"

definition demo_ops :: "store_op list" where
  "demo_ops = [PutOp plain_orders ''alice'' [demo_chunk], GetOp plain_orders ''alice'' 0 5000 demo_matchers]"

lemma demo_selected:
  "selects 0 5000 ''up'' [\<lparr>m_Type = Equal, m_Name = ''job'', m_Value = ''web'', m_re = (\<lambda>_. False)\<rparr>] demo_chunk"
proof -
  have "bigBuckets 0 5000 = [0]" by code_simp
  then show ?thesis
    by (simp add: selects_def demo_ok(3,4) label_ok_def) (simp add: demo_chunk_def MetricNameLabel_def Match_def)
qed

lemma demo_ops_ok:
  "ops_ok json_codec json_ok (mock_store names table bucket cache) {''alice''} (\<lambda>_. {}) demo_ops"
proof -
  have "scan_ok \<lparr>m_Type = Equal, m_Name = ''job'', m_Value = ''web'', m_re = (\<lambda>_. False)\<rparr>"
    by (simp add: scan_ok_def next_ok_def)
  then show ?thesis
    using demo_writes
    by (auto simp: demo_ops_def op_ok_def demo_ok(1-3) extract_demo mock_store_def completes_def maxConcurrentPuts_def)
qed

section \<open>The store is a set of chunks per user\<close>

lemma store_history:
  assumes "names Map.empty = []" "\<forall>u\<in>U. CHR '':'' \<notin> set u \<and> CHR ''/'' \<notin> set u"
    and "cache = None \<or> cache = Some \<lparr>Memcache = map_memcache, Expiration = e\<rparr>"
    and "ops_ok json_codec json_ok (mock_store names table bucket cache) U (\<lambda>_. {}) ops"
  shows "\<exists>rs w'. run_ops json_codec (mock_store names table bucket cache) ops
      (fresh_world (mock_store names table bucket cache)) = Ret (rs, w') \<and> conforms (\<lambda>_. {}) ops rs"
proof (rule mockcached.run_ops_conforms [OF fresh_holds [of names, OF assms(1,2)]])
  show "mockcached.backed U (\<lambda>_. {}) (mem_state (fresh_world (mock_store names table bucket cache)))"
    by (simp add: mockcached.backed_def fresh_world_def)
  show "mockstore.uses_services names table bucket (mock_store names table bucket cache)"
    by (simp add: mockstore.uses_services_def mock_store_def)
  show "mockcached.cache_ok e (mock_store names table bucket cache)"
    using assms(3) by (simp add: mockcached.cache_ok_def mock_store_def)
qed (rule assms(4))



text \<open>
  A chunk whose only label is the metric name gets no index entry: \<open>Put\<close> stores it and
  reports success, and a \<open>Get\<close> for that metric name over the chunk's own time range does not
  return it.
\<close>

lemma bare_metric_lost:
  assumes "names Map.empty = []" "CHR '':'' \<notin> set u" "CHR ''/'' \<notin> set u" "fair_orders S" "store_reads S = clean_reads"
    and "json_ok c" "encodable c" "Metric c = [(MetricNameLabel, name)]" "m_Name m = MetricNameLabel" "m_Type m = Equal" "m_Value m = name"
  shows "\<exists>w'. run_ops json_codec (mock_store names table bucket None)
      [PutOp S u [c], GetOp S u (From c) (Through c) [m]] (fresh_world (mock_store names table bucket None)) =
    Ret ([PutResp None, GetResp (Inr [])], w')"
proof -
  let ?st = "mock_store names table bucket None" and ?ops = "[PutOp S u [c], GetOp S u (From c) (Through c) [m]]"
  have ex: "fst (extractMetricName [m]) = Inr (name, [])"
    using assms(9-11) by (simp add: extractMetricName_def)
  have fair: "fair (range_ord S i h)" for i h using assms(4) by (simp add: fair_orders_def)
  have one: "permute (range_ord S i h) (Metric c) = Metric c" for i h
  proof -
    have "mset (range_ord S i h 1) = {#0#}" using fair [of i h] by (simp add: fair_def)
    then have "range_ord S i h 1 = [0]" by simp
    then show ?thesis by (simp add: permute_def assms(8))
  qed
  have hw: "hour_writes S u name c b hs = Ret []" for b hs
    by (induction hs) (simp_all only: hour_writes.simps one, simp_all add: assms(8))
  have "calculateDynamoWrites json_codec S u [c] = Ret (Inr [])"
    by (simp add: assms(8) hw json_codec_def marshal_chunk_def)
  then have ok: "ops_ok json_codec json_ok ?st {u} (\<lambda>_. {}) ?ops"
    using assms(4-8)
    by (simp add: op_ok_def ex mock_store_def completes_def maxConcurrentPuts_def batchRequests_def batch_loop_length dynamoMaxBatchSize_def)
  have "\<exists>rs w'. run_ops json_codec ?st ?ops (fresh_world ?st) = Ret (rs, w') \<and> conforms (\<lambda>_. {}) ?ops rs"
    by (rule store_history [of names, OF assms(1) _ _ ok]) (use assms(2,3) in simp_all)
  then obtain rs w' where r: "run_ops json_codec ?st ?ops (fresh_world ?st) = Ret (rs, w')" "conforms (\<lambda>_. {}) ?ops rs"
    by blast
  have "\<not> selects lo hi name [] c" for lo hi using assms(8) by (simp add: selects_def label_ok_def)
  then have "rs = [PutResp None, GetResp (Inr [])]"
    using r(2) by (auto simp: spec_resp_def spec_next_def ex cong: conj_cong)
  then show ?thesis using r(1) by blast
qed

definition bare_chunk :: Chunk where
  "bare_chunk = demo_chunk\<lparr>Metric := [(MetricNameLabel, ''up'')]\<rparr>"

section \<open>Responses in pages\<close>

text \<open>
  When DynamoDB splits the answer to a query over several pages, the lookup returns what
  the first page yields and reports success: the callback asks for the next page only after an
  error, so the SDK's page loop stops after the first page that is processed without one.
\<close>

lemma lookup_reads_one_page:
  assumes "processItems J matcher (Items page) [] = Ret (None, chunkSet)"
  shows "query_result (EachPage (Inr page # pages) (page_callback J matcher) (Ret ([], None))) = Ret (Inr chunkSet)"
  using assms by (simp add: page_callback_def processResponse_def query_result_def)

section \<open>The cache\<close>

text \<open>
  \<open>StoreChunks\<close> passes each goroutine a pointer to its loop variable. There is an
  interleaving in which a goroutine reads the ID of one chunk and the data of the next, so
  that the cache afterwards returns the second chunk's data for the first chunk.
\<close>

lemma StoreChunks_mixes_chunks:
  assumes "ID c0 \<noteq> ID c1"
  shows "racy_reads 2 (\<lambda>i. (i, 1)) \<and>
    FetchChunkData \<lparr>Memcache = map_memcache, Expiration = e\<rparr> u [c0]
      (snd (StoreChunks \<lparr>Memcache = map_memcache, Expiration = e\<rparr> in_order (\<lambda>i. (i, 1)) u [c0, c1] m)) =
    ([c0\<lparr>Data := Data c1\<rparr>], [], None)"
proof
  show "racy_reads 2 (\<lambda>i. (i, 1))" by (simp add: racy_reads_def)
  have "[0..<length [c0, c1]] = [0, 1]" by (simp add: upt_rec)
  then show "FetchChunkData \<lparr>Memcache = map_memcache, Expiration = e\<rparr> u [c0]
      (snd (StoreChunks \<lparr>Memcache = map_memcache, Expiration = e\<rparr> in_order (\<lambda>i. (i, 1)) u [c0, c1] m)) =
    ([c0\<lparr>Data := Data c1\<rparr>], [], None)"
    using assms
    by (simp add: StoreChunks_def in_order_def store_item_def map_memcache_def FetchChunkData_def memcacheKey_def)
qed

section \<open>Sets of chunks as sorted slices\<close>

text \<open>
  \<open>nWayIntersect\<close> of slices that are strictly ordered by ID is strictly ordered by ID, and
  it holds exactly the chunks of the first slice whose ID occurs in every slice; \<open>merge\<close> of two
  such slices is strictly ordered and its IDs are the union.
\<close>

lemma chunk_set_operations:
  assumes "sets \<noteq> []" "\<forall>s \<in> set sets. byid_set s" "byid_set as" "byid_set bs"
  shows "byid_set (nWayIntersect sets) \<and>
    set (nWayIntersect sets) = {c \<in> set (hd sets). \<forall>s \<in> set sets. ID c \<in> ids s} \<and>
    byid_set (merge as bs) \<and> ids (merge as bs) = ids as \<union> ids bs"
  using byid_set_nWayIntersect [OF assms(2)] nWayIntersect_eq [OF assms(1,2)] byid_set_merge [OF assms(3,4)]
  by (simp add: ids_merge)

section \<open>Keys of the index\<close>



text \<open>
  The hash key determines user, hour and metric name, and the object name determines user
  and chunk, for user IDs without colon and slash; a user ID with a colon can produce the hash
  key of another user.
\<close>

lemma hash_key_injective:
  assumes "CHR '':'' \<notin> set u" "CHR '':'' \<notin> set u'" "CHR ''/'' \<notin> set u" "CHR ''/'' \<notin> set u'"
  shows "(hashValue u h n = hashValue u' h' n' \<longrightarrow> u = u' \<and> h = h' \<and> n = n') \<and>
    (chunkName u i = chunkName u' i' \<longrightarrow> u = u' \<and> i = i') \<and>
    hashValue ''a:1'' 2 ''m'' = hashValue ''a'' 1 ''2:m''"
proof -
  have "hashValue ''a:1'' 2 ''m'' = hashValue ''a'' 1 ''2:m''" by code_simp
  then show ?thesis using hashValue_inj [OF assms(1,2)] chunkName_inj [OF assms(3,4)] by blast
qed

text \<open>
  \<open>bigBuckets\<close> lists the hours from the first to the last instant of a range in order and
  without gaps, and two time ranges that have an instant in common share a bucket.
\<close>

lemma buckets_cover:
  assumes "f \<le> t" "t \<le> th" "f' \<le> t" "t \<le> th'"
  shows "bigBuckets f th = [hour_of f..hour_of th] \<and> hour_of t \<in> set (bigBuckets f th) \<inter> set (bigBuckets f' th')"
  using bigBuckets_covers [OF assms(1,2)] bigBuckets_covers [OF assms(3,4)] by (simp add: bigBuckets_upto)

text \<open>
  \<open>next\<close>, which ends a scan range, returns a greater string when the last byte is at most
  195. For the empty string it panics, and for a last byte from 196 to 254 the incremented byte
  is re-encoded as UTF-8 and the result is smaller, so that the range ends before it starts.
\<close>

lemma next_of_string:
  fixes x :: nat
  assumes "0 < x" "x < 255"
  shows "(x \<le> 195 \<longrightarrow> (\<exists>s'. next_str (s @ [char_of x]) = Ret s' \<and> s @ [char_of x] < s')) \<and>
    (196 \<le> x \<longrightarrow> (\<exists>s'. next_str (s @ [char_of x]) = Ret s' \<and> s' < s @ [char_of x])) \<and>
    next_str [] = Panic ''runtime error: slice bounds out of range''"
proof (intro conjI impI)
  have x: "(of_char (char_of x) :: nat) = x" using assms by simp
  show "\<exists>s'. next_str (s @ [char_of x]) = Ret s' \<and> s @ [char_of x] < s'" if "x \<le> 195"
    using next_str_gt [of "s @ [char_of x]"] x that by (auto simp: next_ok_def)
  show "\<exists>s'. next_str (s @ [char_of x]) = Ret s' \<and> s' < s @ [char_of x]" if "196 \<le> x"
  proof -
    let ?b = "192 + (x + 1) div 64"
    have "(of_char (char_of ?b :: char) :: nat) < of_char (char_of x)" using assms that by (simp add: x)
    then have "[char_of ?b, char_of (128 + (x + 1) mod 64)] < [char_of x]" by (simp add: less_char_def)
    moreover have "string_of_byte (x + 1) = [char_of ?b, char_of (128 + (x + 1) mod 64)]" using that by (simp add: string_of_byte_def)
    ultimately show ?thesis using assms by (simp add: next_str_eq x append_less_iff)
  qed
qed (simp add: next_str_def)

section \<open>Batches and matchers\<close>

text \<open>
  \<open>batchRequests\<close> cuts the write requests into batches that hold them all in order, none
  empty and none above 25, with as few batches as possible; no request gives no batch.
\<close>

lemma batches_partition:
  "concat (batchRequests reqs) = reqs \<and>
   list_all (\<lambda>b. b \<noteq> [] \<and> length b \<le> dynamoMaxBatchSize) (batchRequests reqs) \<and>
   length (batchRequests reqs) = (length reqs + 24) div 25"
  using batch_loop_sizes batch_loop_length [of reqs 0]
  by (auto simp: batchRequests_def batch_loop_concat list_all_iff dynamoMaxBatchSize_def)

text \<open>
  \<open>extractMetricName\<close> returns the value of the first matcher on the metric name and the
  other matchers in order if that matcher is an equality, and an error otherwise or if there is
  none. On success it has shifted the elements after it in the caller's array one place down,
  so that the caller's slice has lost that matcher and has its last one twice.
\<close>

lemma extract_metric_name:
  assumes "\<forall>m\<in>set pre. m_Name m \<noteq> MetricNameLabel"
  shows "fst (extractMetricName pre) = Inl (Err ''no matcher for MetricNameLabel'') \<and>
    (m_Name m = MetricNameLabel \<longrightarrow>
      extractMetricName (pre @ m # post) =
        (if m_Type m = Equal then (Inr (m_Value m, pre @ post), pre @ post @ [last (m # post)])
         else (Inl (Err ''must have equality matcher for MetricNameLabel''), pre @ m # post)))"
proof -
  have "extract_loop acc (pre @ rest) = extract_loop (acc @ pre) rest" for acc rest
    using assms by (induction pre arbitrary: acc) auto
  from this [of "[]" "[]"] this [of "[]" "m # post"] show ?thesis by (simp add: extractMetricName_def)
qed

end
