(* ===== verification/Put_Limiter.thy ===== *)
theory Put_Limiter
  imports Chunk_Write
begin

text \<open>
  The semaphore of \<open>chunk/semaphore.go\<close> and the goroutines of \<open>putChunks\<close> and
  \<open>updateIndex\<close> as a step relation. A task's goroutine sends its result on an unbuffered
  channel and only then releases its permit, while the loop that starts the goroutines does not
  receive before it has started all of them. So the call returns, after a bounded number of
  steps, if there are at most as many tasks as permits, and otherwise every run ends in a
  state in which nobody can move.
\<close>

section \<open>The semaphore\<close>

text \<open>A buffered channel: its capacity and the number of buffered elements.\<close>

record semaphore =
  sem_cap :: nat
  sem_len :: nat

datatype Semaphore = Sem semaphore | NoopSemaphore

text \<open>\<open>None\<close>: the caller blocks.\<close>

fun Acquire :: "Semaphore \<Rightarrow> Semaphore option" where
  "Acquire (Sem s) = (if sem_len s = 0 then None else Some (Sem (s\<lparr>sem_len := sem_len s - 1\<rparr>)))"
| "Acquire NoopSemaphore = Some NoopSemaphore"

fun Release :: "Semaphore \<Rightarrow> Semaphore option" where
  "Release (Sem s) = (if sem_len s < sem_cap s then Some (Sem (s\<lparr>sem_len := sem_len s + 1\<rparr>)) else None)"
| "Release NoopSemaphore = Some NoopSemaphore"

fun release_times :: "nat \<Rightarrow> Semaphore \<Rightarrow> Semaphore option" where
  "release_times 0 s = Some s"
| "release_times (Suc n) s = (case Release s of None \<Rightarrow> None | Some s' \<Rightarrow> release_times n s')"

definition NewSemaphore :: "nat \<Rightarrow> Semaphore option" where
  "NewSemaphore n = release_times n (Sem \<lparr>sem_cap = n, sem_len = 0\<rparr>)"

lemma release_times_Sem:
  "n + l \<le> c \<Longrightarrow> release_times n (Sem \<lparr>sem_cap = c, sem_len = l\<rparr>) = Some (Sem \<lparr>sem_cap = c, sem_len = l + n\<rparr>)"
  by (induction n arbitrary: l) simp_all

lemma NewSemaphore_full: "NewSemaphore n = Some (Sem \<lparr>sem_cap = n, sem_len = n\<rparr>)"
  by (simp add: NewSemaphore_def release_times_Sem)

section \<open>The goroutines\<close>

datatype task = Waiting | Running | Sending | Releasing | Finished

record pstate =
  limiter :: Semaphore
  spawned :: nat
  collected :: nat
  tasks :: "task list"

definition start :: "Semaphore \<Rightarrow> nat \<Rightarrow> pstate" where
  "start sem n = \<lparr>limiter = sem, spawned = 0, collected = 0, tasks = replicate n Waiting\<rparr>"

inductive step :: "pstate \<Rightarrow> pstate \<Rightarrow> bool" where
  spawn: "spawned s < length (tasks s) \<Longrightarrow> Acquire (limiter s) = Some sem \<Longrightarrow>
    step s (s\<lparr>limiter := sem, spawned := spawned s + 1, tasks := (tasks s)[spawned s := Running]\<rparr>)"
| work: "i < length (tasks s) \<Longrightarrow> tasks s ! i = Running \<Longrightarrow>
    step s (s\<lparr>tasks := (tasks s)[i := Sending]\<rparr>)"
| receive: "spawned s = length (tasks s) \<Longrightarrow> collected s < length (tasks s) \<Longrightarrow>
    i < length (tasks s) \<Longrightarrow> tasks s ! i = Sending \<Longrightarrow>
    step s (s\<lparr>collected := collected s + 1, tasks := (tasks s)[i := Releasing]\<rparr>)"
| release: "i < length (tasks s) \<Longrightarrow> tasks s ! i = Releasing \<Longrightarrow> Release (limiter s) = Some sem \<Longrightarrow>
    step s (s\<lparr>limiter := sem, tasks := (tasks s)[i := Finished]\<rparr>)"

definition returned :: "pstate \<Rightarrow> bool" where
  "returned s \<longleftrightarrow> spawned s = length (tasks s) \<and> collected s = length (tasks s)"

definition quiescent :: "pstate \<Rightarrow> bool" where
  "quiescent s \<longleftrightarrow> returned s \<and> (\<forall>t\<in>set (tasks s). t = Finished)"

section \<open>Measures and counts\<close>

definition count_tasks :: "(task \<Rightarrow> nat) \<Rightarrow> task list \<Rightarrow> nat" where
  "count_tasks f ts = sum_list (map f ts)"

lemma total_update: "i < length ts \<Longrightarrow> count_tasks f (ts[i := t]) + f (ts ! i) = count_tasks f ts + f t"
proof (induction ts arbitrary: i)
  case Nil
  then show ?case by simp
next
  case (Cons a ts)
  then show ?case by (cases i) (auto simp: count_tasks_def)
qed

lemma total_zero: "count_tasks f ts = 0 \<longleftrightarrow> (\<forall>t\<in>set ts. f t = 0)"
  by (simp add: count_tasks_def)

lemma total_le: "(\<And>t. f t \<le> g t) \<Longrightarrow> count_tasks f ts \<le> count_tasks g ts"
  by (simp add: count_tasks_def sum_list_mono)

fun rank :: "task \<Rightarrow> nat" where
  "rank Waiting = 4" | "rank Running = 3" | "rank Sending = 2" | "rank Releasing = 1" | "rank Finished = 0"

definition holding :: "task \<Rightarrow> nat" where
  "holding t = (if t \<in> {Running, Sending, Releasing} then 1 else 0)"

definition delivered :: "task \<Rightarrow> nat" where
  "delivered t = (if t \<in> {Releasing, Finished} then 1 else 0)"

definition waiting :: "task \<Rightarrow> nat" where
  "waiting t = (if t = Waiting then 1 else 0)"

lemmas task_counts = holding_def delivered_def waiting_def

text \<open>
  The invariant of a run of \<open>n\<close> tasks: the first \<open>spawned\<close> tasks were started, results
  were received only after all were, every permit is in the channel or with one goroutine.
\<close>

definition pinv :: "Semaphore \<Rightarrow> nat \<Rightarrow> pstate \<Rightarrow> bool" where
  "pinv sem n s \<longleftrightarrow> length (tasks s) = n \<and> spawned s \<le> n \<and>
     (\<forall>i<n. tasks s ! i = Waiting \<longleftrightarrow> spawned s \<le> i) \<and>
     count_tasks waiting (tasks s) + spawned s = n \<and> count_tasks delivered (tasks s) = collected s \<and> (collected s > 0 \<longrightarrow> spawned s = n) \<and>
     (case sem of
        NoopSemaphore \<Rightarrow> limiter s = NoopSemaphore
      | Sem sm \<Rightarrow> \<exists>l. limiter s = Sem \<lparr>sem_cap = sem_cap sm, sem_len = l\<rparr> \<and> l + count_tasks holding (tasks s) = sem_cap sm)"

definition full :: "Semaphore \<Rightarrow> bool" where
  "full sem \<longleftrightarrow> (case sem of NoopSemaphore \<Rightarrow> True | Sem sm \<Rightarrow> sem_len sm = sem_cap sm)"

lemma pinv_start: "full sem \<Longrightarrow> pinv sem n (start sem n)"
  by (auto simp: pinv_def start_def full_def count_tasks_def task_counts sum_list_replicate split: Semaphore.splits)

lemma step_rank:
  assumes "pinv sem n s" "step s s'"
  shows "Suc (count_tasks rank (tasks s')) = count_tasks rank (tasks s)"
  using assms(2)
proof cases
  case (spawn sem')
  then have "tasks s ! spawned s = Waiting" using assms(1) by (auto simp: pinv_def)
  then show ?thesis using spawn total_update [of "spawned s" "tasks s" rank Running] by simp
next
  case (work i)
  then show ?thesis using total_update [of i "tasks s" rank Sending] by simp
next
  case (receive i)
  then show ?thesis using total_update [of i "tasks s" rank Releasing] by simp
next
  case (release i sem')
  then show ?thesis using total_update [of i "tasks s" rank Finished] by simp
qed

lemma pinv_step:
  assumes "pinv sem n s" "step s s'"
  shows "pinv sem n s'"
  using assms(2)
proof cases
  case (spawn sem')
  let ?i = "spawned s"
  have i: "?i < length (tasks s)" "tasks s ! ?i = Waiting" using assms(1) spawn by (simp_all add: pinv_def)
  have "count_tasks delivered ((tasks s)[?i := Running]) = count_tasks delivered (tasks s)"
    "count_tasks holding ((tasks s)[?i := Running]) = count_tasks holding (tasks s) + 1"
    "count_tasks waiting ((tasks s)[?i := Running]) + 1 = count_tasks waiting (tasks s)"
    using total_update [OF i(1), of waiting Running] total_update [OF i(1), of delivered Running] total_update [OF i(1), of holding Running] i(2)
    by (simp_all add: task_counts)
  then show ?thesis
    using assms(1) spawn i
    by (auto simp: pinv_def nth_list_update less_Suc_eq_le split: Semaphore.splits if_splits)
next
  case (work i)
  have "count_tasks delivered ((tasks s)[i := Sending]) = count_tasks delivered (tasks s)"
    "count_tasks holding ((tasks s)[i := Sending]) = count_tasks holding (tasks s)"
    "count_tasks waiting ((tasks s)[i := Sending]) = count_tasks waiting (tasks s)"
    using total_update [of i "tasks s" waiting Sending] total_update [of i "tasks s" delivered Sending] total_update [of i "tasks s" holding Sending] work
    by (simp_all add: task_counts)
  then show ?thesis using assms(1) work
    by (auto simp: pinv_def nth_list_update split: Semaphore.splits)
next
  case (receive i)
  have "count_tasks delivered ((tasks s)[i := Releasing]) = count_tasks delivered (tasks s) + 1"
    "count_tasks holding ((tasks s)[i := Releasing]) = count_tasks holding (tasks s)"
    "count_tasks waiting ((tasks s)[i := Releasing]) = count_tasks waiting (tasks s)"
    using total_update [of i "tasks s" waiting Releasing] total_update [of i "tasks s" delivered Releasing] total_update [of i "tasks s" holding Releasing] receive
    by (simp_all add: task_counts)
  then show ?thesis using assms(1) receive
    by (auto simp: pinv_def nth_list_update split: Semaphore.splits)
next
  case (release i sem')
  have "count_tasks delivered ((tasks s)[i := Finished]) = count_tasks delivered (tasks s)"
    "count_tasks holding ((tasks s)[i := Finished]) + 1 = count_tasks holding (tasks s)"
    "count_tasks waiting ((tasks s)[i := Finished]) = count_tasks waiting (tasks s)"
    using total_update [of i "tasks s" waiting Finished] total_update [of i "tasks s" delivered Finished] total_update [of i "tasks s" holding Finished] release
    by (simp_all add: task_counts)
  then show ?thesis using assms(1) release
    by (auto simp: pinv_def nth_list_update split: Semaphore.splits if_splits)
qed

section \<open>Progress\<close>

definition admits :: "Semaphore \<Rightarrow> nat \<Rightarrow> bool" where
  "admits sem n \<longleftrightarrow> (case sem of NoopSemaphore \<Rightarrow> True | Sem sm \<Rightarrow> n \<le> sem_cap sm)"

lemma total_member: "t \<in> set ts \<Longrightarrow> f t \<le> count_tasks f ts"
  by (simp add: count_tasks_def member_le_sum_list)

lemma total_split:
  "count_tasks holding ts + count_tasks waiting ts + count_tasks (\<lambda>t. if t = Finished then 1 else 0) ts = length ts"
  by (induction ts) (auto simp: count_tasks_def task_counts, (case_tac a; simp)+)

lemma total_sending:
  "count_tasks delivered ts + count_tasks waiting ts + count_tasks (\<lambda>t. if t \<in> {Running, Sending} then 1 else 0) ts = length ts"
  by (induction ts) (auto simp: count_tasks_def task_counts, (case_tac a; simp)+)

lemma progress_release:
  assumes "pinv sem n s" "i < n" "tasks s ! i = Releasing"
  shows "\<exists>s'. step s s'"
proof -
  have len: "length (tasks s) = n" using assms(1) by (simp add: pinv_def)
  have "holding Releasing \<le> count_tasks holding (tasks s)"
    using total_member [of Releasing "tasks s" holding] assms(2,3) len by (metis nth_mem)
  then have "\<exists>sem'. Release (limiter s) = Some sem'"
    using assms(1) by (auto simp: pinv_def holding_def split: Semaphore.splits)
  then show ?thesis using step.release [of i s] assms len by blast
qed

lemma progress_spawn:
  assumes "pinv sem n s" "spawned s < n" "admits sem n"
  shows "\<exists>s'. step s s'"
proof -
  have len: "length (tasks s) = n" and w: "count_tasks waiting (tasks s) + spawned s = n" using assms(1) by (simp_all add: pinv_def)
  have "count_tasks holding (tasks s) < n" using total_split [of "tasks s"] len w assms(2) by linarith
  then have "\<exists>sem'. Acquire (limiter s) = Some sem'"
    using assms(1,3) by (auto simp: pinv_def admits_def split: Semaphore.splits)
  then show ?thesis using step.spawn [of s] assms(2) len by blast
qed

lemma progress:
  assumes inv: "pinv sem n s" and "admits sem n"
  shows "quiescent s \<or> (\<exists>s'. step s s')"
proof (rule ccontr)
  assume no: "\<not> ?thesis"
  have len: "length (tasks s) = n" and sp: "spawned s \<le> n" and w: "count_tasks waiting (tasks s) + spawned s = n"
    and d: "count_tasks delivered (tasks s) = collected s"
    using inv by (simp_all add: pinv_def)
  have all: "spawned s = n" using progress_spawn [OF inv _ assms(2)] no sp by force
  have nw: "\<forall>t\<in>set (tasks s). t \<noteq> Waiting" using w all total_zero [of waiting "tasks s"] by (auto simp: waiting_def)
  have nr: "tasks s ! i \<noteq> Running" "tasks s ! i \<noteq> Releasing" if "i < n" for i
    using step.work [of i s] progress_release [OF inv that] no len that by blast+
  have "tasks s ! i \<noteq> Sending" if "i < n" for i
  proof
    assume i: "tasks s ! i = Sending"
    have "(if Sending \<in> {Running, Sending} then 1 else 0) \<le> count_tasks (\<lambda>t. if t \<in> {Running, Sending} then 1 else 0) (tasks s)"
      by (rule total_member) (use i that len nth_mem in metis)
    then have "collected s < n" using total_sending [of "tasks s"] len d by simp
    then have "step s (s\<lparr>collected := collected s + 1, tasks := (tasks s)[i := Releasing]\<rparr>)"
      using i all that len by (intro step.receive) simp_all
    then show False using no by blast
  qed
  then have fin: "\<forall>t\<in>set (tasks s). t = Finished"
    using nr nw len by (metis in_set_conv_nth task.exhaust)
  then have "count_tasks (\<lambda>t. if t \<in> {Running, Sending} then 1 else 0) (tasks s) = 0" by (auto simp: total_zero)
  then have "collected s = n" using total_sending [of "tasks s"] len d w all by simp
  then have "quiescent s" using fin all len by (simp add: quiescent_def returned_def)
  then show False using no by blast
qed

section \<open>Deadlock\<close>

lemma not_all_spawned:
  assumes "pinv (Sem sm) n s" "spawned s < n" "sem_cap sm < n" "step s s'"
  shows "spawned s' < n"
  using assms(4)
proof cases
  case (spawn sem')
  have len: "length (tasks s) = n" and w: "count_tasks waiting (tasks s) + spawned s = n"
    and d: "count_tasks delivered (tasks s) = collected s" and c: "collected s = 0"
    using assms(1,2) by (auto simp: pinv_def)
  have "count_tasks (\<lambda>t. if t = Finished then 1 else 0) (tasks s) \<le> count_tasks delivered (tasks s)"
    by (rule total_le) (simp add: delivered_def)
  then have "count_tasks holding (tasks s) = spawned s" using total_split [of "tasks s"] len w d c by linarith
  then have "spawned s < sem_cap sm" using assms(1) spawn by (auto simp: pinv_def split: if_splits)
  then show ?thesis using spawn assms(3) by simp
qed (use assms in simp_all)

text \<open>Runs of the step relation.\<close>

lemma run_pinv:
  assumes "(step ^^ k) (start sem n) s" "full sem"
  shows "pinv sem n s \<and> count_tasks rank (tasks s) + k = 4 * n"
  using assms(1)
proof (induction k arbitrary: s)
  case 0
  then show ?case using pinv_start [OF assms(2)] by (auto simp: start_def count_tasks_def sum_list_replicate)
next
  case (Suc k)
  then obtain s0 where "(step ^^ k) (start sem n) s0" "step s0 s" by auto
  with Suc.IH show ?case using pinv_step step_rank by (metis add_Suc_shift)
qed

lemma run_deadlock:
  assumes "(step ^^ k) (start (Sem sm) n) s" "full (Sem sm)" "sem_cap sm < n"
  shows "spawned s < n"
  using assms(1)
proof (induction k arbitrary: s)
  case 0
  then show ?case using assms(3) by (auto simp: start_def)
next
  case (Suc k)
  then obtain s0 where "(step ^^ k) (start (Sem sm) n) s0" "step s0 s" by auto
  with Suc.IH show ?case using not_all_spawned run_pinv [OF _ assms(2)] assms(3) by blast
qed

text \<open>From a state that is not stuck a run can be continued until it is.\<close>

lemma run_to_end:
  assumes "pinv sem n s"
  shows "\<exists>s'. step\<^sup>*\<^sup>* s s' \<and> pinv sem n s' \<and> (\<nexists>s''. step s' s'')"
  using assms
proof (induction "count_tasks rank (tasks s)" arbitrary: s rule: less_induct)
  case less
  show ?case
  proof (cases "\<exists>s1. step s s1")
    case True
    then obtain s1 where s1: "step s s1" by blast
    have "count_tasks rank (tasks s1) < count_tasks rank (tasks s)" using step_rank [OF less.prems s1] by simp
    then obtain s' where "step\<^sup>*\<^sup>* s1 s'" "pinv sem n s'" "\<nexists>s''. step s' s''"
      using less.hyps pinv_step [OF less.prems s1] by blast
    then show ?thesis using s1 converse_rtranclp_into_rtranclp [of step] by blast
  next
    case False
    then show ?thesis using less.prems by blast
  qed
qed

lemma run_quiesces:
  assumes "pinv sem n s" "admits sem n"
  shows "\<exists>s'. step\<^sup>*\<^sup>* s s' \<and> quiescent s'"
  using run_to_end [OF assms(1)] progress [OF _ assms(2)] by blast

section \<open>Properties\<close>



text \<open>
  C25: with more tasks than permits no run of \<open>putChunks\<close> or \<open>updateIndex\<close> returns: every
  reachable state can only go on to a state in which no goroutine can move and the call has
  not returned.
\<close>

theorem put_limiter_deadlocks:
  assumes "NewSemaphore m = Some sem" "m < n" "(step ^^ k) (start sem n) s"
  shows "\<not> returned s \<and> (\<exists>s'. step\<^sup>*\<^sup>* s s' \<and> (\<nexists>s''. step s' s'') \<and> \<not> returned s')"
proof -
  define sm where "sm = \<lparr>sem_cap = m, sem_len = m\<rparr>"
  have sem: "sem = Sem sm" "full (Sem sm)" "sem_cap sm < n"
    using assms(1,2) by (auto simp: NewSemaphore_full sm_def full_def)
  have stays: "\<not> returned s'" if "(step ^^ j) (start sem n) s'" for j s'
    using run_deadlock [of j sm n s'] run_pinv [of j "Sem sm" n s'] that sem by (simp add: returned_def pinv_def)
  obtain s' where s': "step\<^sup>*\<^sup>* s s'" "\<nexists>s''. step s' s''"
    using run_to_end run_pinv [OF assms(3)] sem by blast
  have "step\<^sup>*\<^sup>* (start sem n) s'" using assms(3) s'(1) by (metis rtranclp_trans relpowp_imp_rtranclp)
  then obtain j where "(step ^^ j) (start sem n) s'" by (auto simp: rtranclp_power)
  then show ?thesis using stays assms(3) s' by blast
qed

theorem put_limiter_deadlocks_witness:
  "\<exists>s'. step\<^sup>*\<^sup>* (start (Sem \<lparr>sem_cap = 100, sem_len = 100\<rparr>) 101) s' \<and> (\<nexists>s''. step s' s'') \<and> \<not> returned s'"
  using put_limiter_deadlocks [of maxConcurrentPuts "Sem \<lparr>sem_cap = 100, sem_len = 100\<rparr>" 101 0 "start (Sem \<lparr>sem_cap = 100, sem_len = 100\<rparr>) 101"]
  by (simp add: NewSemaphore_full maxConcurrentPuts_def)

end
