(* ===== verification/Ring_Desc.thy ===== *)
theory Ring_Desc
  imports Go_Std "HOL-Library.Word"
begin

text \<open>
  The ring as it is kept in Consul (\<open>ring/model.go\<close>): the ingesters by ID and the sorted
  list of their tokens, with the two operations that add an ingester and take it out again.
  Timestamps are the clock's nanoseconds; the clock is an argument of \<open>addIngester\<close>.
\<close>

section \<open>Data\<close>

record IngesterDesc =
  Hostname :: string
  Timestamp :: int

record TokenDesc =
  Token :: "32 word"
  Ingester :: string

type_synonym TokenDescs = "TokenDesc list"

record Desc =
  Ingesters :: "string \<rightharpoonup> IngesterDesc"
  Tokens :: TokenDescs

definition newDesc :: Desc where
  "newDesc = \<lparr>Ingesters = Map.empty, Tokens = []\<rparr>"

text \<open>\<open>sort.Sort(d.Tokens)\<close>, ordered by \<open>Less\<close>.\<close>

definition TokenDescs_Less :: "TokenDescs \<Rightarrow> nat \<Rightarrow> nat \<Rightarrow> bool" where
  "TokenDescs_Less ts i j \<longleftrightarrow> Token (ts ! i) < Token (ts ! j)"

definition sort_TokenDescs :: "TokenDescs \<Rightarrow> TokenDescs" where
  "sort_TokenDescs ts = sort_slice Token ts"

section \<open>Operations\<close>

definition mk_tokens :: "string \<Rightarrow> 32 word list \<Rightarrow> TokenDescs" where
  "mk_tokens i tokens = map (\<lambda>t. \<lparr>Token = t, Ingester = i\<rparr>) tokens"

definition addIngester :: "int \<Rightarrow> string \<Rightarrow> string \<Rightarrow> 32 word list \<Rightarrow> Desc \<Rightarrow> Desc" where
  "addIngester now i hostname tokens d =
     d\<lparr>Ingesters := (Ingesters d)(i \<mapsto> \<lparr>Hostname = hostname, Timestamp = now\<rparr>),
       Tokens := sort_TokenDescs (Tokens d @ mk_tokens i tokens)\<rparr>"

fun remove_loop :: "TokenDescs \<Rightarrow> 32 word list \<Rightarrow> TokenDescs" where
  "remove_loop (t # ts) (k # ks) =
     (if Token t < k then t # remove_loop ts (k # ks)
      else if Token t > k then remove_loop (t # ts) ks
      else remove_loop ts ks)"
| "remove_loop ts [] = ts"
| "remove_loop [] ks = []"

definition removeIngester :: "string \<Rightarrow> 32 word list \<Rightarrow> Desc \<Rightarrow> Desc" where
  "removeIngester i tokens d =
     d\<lparr>Ingesters := (Ingesters d)(i := None), Tokens := remove_loop (Tokens d) tokens\<rparr>"

section \<open>The invariant of the ring\<close>

text \<open>Tokens are sorted and belong to ingesters of the ring.\<close>

definition wf_desc :: "Desc \<Rightarrow> bool" where
  "wf_desc d \<longleftrightarrow> sorted (map Token (Tokens d)) \<and> (\<forall>t\<in>set (Tokens d). Ingester t \<in> dom (Ingesters d))"

text \<open>No token occurs twice.\<close>

definition distinct_tokens :: "Desc \<Rightarrow> bool" where
  "distinct_tokens d \<longleftrightarrow> distinct (map Token (Tokens d))"

lemma Token_mk [simp]: "map Token (mk_tokens i ks) = ks"
  by (simp add: mk_tokens_def o_def)

lemma set_mk_tokens: "t \<in> set (mk_tokens i ks) \<longleftrightarrow> Ingester t = i \<and> Token t \<in> set ks"
  by (cases t) (auto simp: mk_tokens_def)

lemma wf_newDesc [wf_intros, simp]: "wf_desc newDesc" "distinct_tokens newDesc"
  by (simp_all add: newDesc_def wf_desc_def distinct_tokens_def)

lemma set_Tokens_add: "set (Tokens (addIngester now i h ks d)) = set (Tokens d) \<union> set (mk_tokens i ks)"
  by (simp add: addIngester_def sort_TokenDescs_def gosort.sort_set)

lemma Ingesters_add: "Ingesters (addIngester now i h ks d) = (Ingesters d)(i \<mapsto> \<lparr>Hostname = h, Timestamp = now\<rparr>)"
  by (simp add: addIngester_def)

lemma sorted_Tokens_add: "sorted (map Token (Tokens (addIngester now i h ks d)))"
  by (simp add: addIngester_def sort_TokenDescs_def gosort.sort_sorted)

lemma wf_addIngester [wf_intros]:
  "wf_desc d \<Longrightarrow> wf_desc (addIngester now i h ks d)"
  by (auto simp: wf_desc_def sorted_Tokens_add set_Tokens_add Ingesters_add set_mk_tokens)

lemma distinct_addIngester [wf_intros]:
  assumes "distinct_tokens d" "distinct ks" "set ks \<inter> Token ` set (Tokens d) = {}"
  shows "distinct_tokens (addIngester now i h ks d)"
proof -
  have "distinct (map Token (Tokens d @ mk_tokens i ks))"
    using assms by (auto simp: distinct_tokens_def set_mk_tokens)
  then show ?thesis
    by (simp add: distinct_tokens_def addIngester_def sort_TokenDescs_def gosort.sort_distinct)
qed

section \<open>Removing\<close>

lemma remove_loop_subset: "set (remove_loop ts ks) \<subseteq> set ts"
  by (induction ts ks rule: remove_loop.induct) auto

lemma remove_loop_sorted: "sorted (map Token ts) \<Longrightarrow> sorted (map Token (remove_loop ts ks))"
proof (induction ts ks rule: remove_loop.induct)
  case (1 t ts k ks)
  then show ?case using remove_loop_subset [of ts "k # ks"] by (auto split: if_splits)
qed simp_all

text \<open>On a ring without repeated tokens, removal keeps exactly the tokens that are not named.\<close>

lemma remove_loop_filter:
  assumes "sorted (map Token ts)" "distinct (map Token ts)" "sorted ks"
  shows "remove_loop ts ks = filter (\<lambda>t. Token t \<notin> set ks) ts"
  using assms
proof (induction ts ks rule: remove_loop.induct)
  case (1 t ts k ks)
  consider "Token t < k" | "k < Token t" | "Token t = k" by (rule linorder_cases)
  then show ?case
  proof cases
    case 1
    then have "Token t \<notin> set (k # ks)" using "1.prems"(3) by auto
    then show ?thesis using 1 "1.IH"(1) "1.prems" by simp
  next
    case 2
    have "Token u \<noteq> k" if "u \<in> set (t # ts)" for u using that 2 "1.prems"(1) by auto
    then have "filter (\<lambda>t. Token t \<notin> set (k # ks)) (t # ts) = filter (\<lambda>t. Token t \<notin> set ks) (t # ts)"
      by (intro filter_cong) auto
    moreover have "remove_loop (t # ts) ks = filter (\<lambda>t. Token t \<notin> set ks) (t # ts)"
      using 2 "1.IH"(2) "1.prems" by simp
    moreover have "remove_loop (t # ts) (k # ks) = remove_loop (t # ts) ks" using 2 by auto
    ultimately show ?thesis by (simp only:)
  next
    case 3
    have "Token u \<noteq> k" if "u \<in> set ts" for u using imageI [OF that, of Token] 3 "1.prems"(2) by auto
    then have "filter (\<lambda>t. Token t \<notin> set (k # ks)) ts = filter (\<lambda>t. Token t \<notin> set ks) ts"
      by (intro filter_cong) auto
    then show ?thesis using 3 "1.IH"(3) "1.prems" by simp
  qed
qed simp_all

lemma remove_loop_distinct: "distinct (map Token ts) \<Longrightarrow> distinct (map Token (remove_loop ts ks))"
proof (induction ts ks rule: remove_loop.induct)
  case (1 t ts k ks)
  then show ?case using remove_loop_subset [of ts "k # ks"] by (auto split: if_splits)
qed simp_all

lemma wf_removeIngester [wf_intros]:
  assumes "wf_desc d" "distinct_tokens d" "sorted ks" "\<forall>t\<in>set (Tokens d). Ingester t = i \<longrightarrow> Token t \<in> set ks"
  shows "wf_desc (removeIngester i ks d) \<and> distinct_tokens (removeIngester i ks d)"
  using assms
  by (auto simp: wf_desc_def distinct_tokens_def removeIngester_def remove_loop_filter remove_loop_sorted
      distinct_map_filter sorted_filter)

text \<open>Taking out an ingester that was just added gives back the ring as it was.\<close>

lemma remove_add:
  assumes "wf_desc d" "distinct_tokens d" "Ingesters d i = None"
    and ks: "sorted ks" "distinct ks" "set ks \<inter> Token ` set (Tokens d) = {}"
  shows "removeIngester i ks (addIngester now i h ks d) = d"
proof -
  let ?d = "addIngester now i h ks d"
  let ?ts = "filter (\<lambda>t. Token t \<notin> set ks) (Tokens ?d)"
  have dist: "distinct (map Token (Tokens ?d))"
    using distinct_addIngester [OF assms(2) ks(2,3)] by (simp add: distinct_tokens_def)
  have "mset (Tokens ?d) = mset (Tokens d) + mset (mk_tokens i ks)"
    by (simp add: addIngester_def sort_TokenDescs_def gosort.sort_perm)
  then have "mset ?ts = filter_mset (\<lambda>t. Token t \<notin> set ks) (mset (Tokens d) + mset (mk_tokens i ks))"
    by (simp only: mset_filter)
  also have "\<dots> = mset (Tokens d)"
  proof -
    have "filter (\<lambda>t. Token t \<notin> set ks) (Tokens d) = Tokens d" using ks(3) by (auto simp: filter_id_conv)
    moreover have "filter (\<lambda>t. Token t \<notin> set ks) (mk_tokens i ks) = []"
      unfolding filter_empty_conv by (simp add: set_mk_tokens)
    ultimately show ?thesis unfolding filter_union_mset mset_filter [symmetric] by simp
  qed
  finally have m: "mset ?ts = mset (Tokens d)" .
  have "sorted (map Token ?ts)" using sorted_Tokens_add by (rule sorted_filter)
  then have "?ts = Tokens d"
    using assms(1,2) m by (intro sorted_distinct_mset_unique [of Token])
      (auto simp: wf_desc_def distinct_tokens_def distinct_map_filter dist)
  then have "Tokens (removeIngester i ks ?d) = Tokens d"
    using remove_loop_filter [OF sorted_Tokens_add dist ks(1)] by (simp add: removeIngester_def)
  moreover have "Ingesters (removeIngester i ks ?d) = Ingesters d"
    using assms(3) by (auto simp: removeIngester_def Ingesters_add)
  ultimately show ?thesis by (cases d) (simp add: removeIngester_def addIngester_def)
qed

end
