(* ===== verification/Ring_Lookup.thy ===== *)
theory Ring_Lookup
  imports Ring_Desc
begin

text \<open>
  The consistent-hash circle (\<open>ring/ring.go\<close>): the lookup of the ingester of a key, the
  list of all ingesters and the ownership metric. A key belongs to the token that follows it
  clockwise on the circle of 32-bit words, which \<open>owner\<close> states through wrap-around
  subtraction; \<open>search\<close> computes it by binary search.
\<close>

section \<open>The ring and its operations\<close>

record Ring =
  ringDesc :: Desc

definition ErrEmptyRing :: err where
  "ErrEmptyRing = Err ''empty circle''"

text \<open>The zero value of the struct: \<open>time.Time{}\<close> is the first of January of year 1.\<close>

definition zero_IngesterDesc :: IngesterDesc where
  "zero_IngesterDesc = \<lparr>Hostname = [], Timestamp = - 62135596800000000000\<rparr>"

definition ring_search :: "Ring \<Rightarrow> 32 word \<Rightarrow> nat" where
  "ring_search r key =
     (let ts = Tokens (ringDesc r);
          i = search (length ts) (\<lambda>x. Token (ts ! x) > key)
      in if i \<ge> length ts then 0 else i)"

definition ring_Get :: "Ring \<Rightarrow> 32 word \<Rightarrow> err + IngesterDesc" where
  "ring_Get r key =
     (let d = ringDesc r in
      if length (Tokens d) = 0 then Inl ErrEmptyRing
      else
        let i = ring_search r key
        in Inr (case Ingesters d (Ingester (Tokens d ! i)) of None \<Rightarrow> zero_IngesterDesc | Some x \<Rightarrow> x))"

text \<open>\<open>ids\<close> is the order in which the \<open>range\<close> visits the map of ingesters.\<close>

definition ring_GetAll :: "string list \<Rightarrow> Ring \<Rightarrow> IngesterDesc list" where
  "ring_GetAll ids r = map (\<lambda>i. the (Ingesters (ringDesc r) i)) ids"

text \<open>
  The callback of \<open>loop\<close>: a value replaces the ring, a missing key leaves it.
\<close>

definition ring_update :: "Desc option \<Rightarrow> Ring \<Rightarrow> Ring \<times> bool" where
  "ring_update v r = (case v of None \<Rightarrow> (r, True) | Some d \<Rightarrow> (r\<lparr>ringDesc := d\<rparr>, True))"

text \<open>\<open>Collect\<close>: the share of the circle per ingester, before the division by \<open>MaxUint32\<close>.\<close>

definition MaxUint32 :: "32 word" where
  "MaxUint32 = - 1"

definition token_diff :: "TokenDescs \<Rightarrow> nat \<Rightarrow> 32 word" where
  "token_diff ts i =
     (if i + 1 = length ts then (MaxUint32 - Token (ts ! i)) + Token (ts ! 0)
      else Token (ts ! (i + 1)) - Token (ts ! i))"

definition add_owned :: "TokenDescs \<Rightarrow> (string \<rightharpoonup> 32 word) \<Rightarrow> nat \<Rightarrow> string \<rightharpoonup> 32 word" where
  "add_owned ts owned i =
     (let ing = Ingester (ts ! i)
      in owned(ing \<mapsto> (case owned ing of None \<Rightarrow> 0 | Some x \<Rightarrow> x) + token_diff ts i))"

definition Collect :: "Ring \<Rightarrow> string \<rightharpoonup> 32 word" where
  "Collect r =
     (let ts = Tokens (ringDesc r) in foldl (add_owned ts) Map.empty [0..<length ts])"

section \<open>The circle\<close>

text \<open>How far clockwise from a key a token lies; a token equal to the key is a full turn away.\<close>

definition distance :: "32 word \<Rightarrow> TokenDesc \<Rightarrow> 32 word" where
  "distance key t = Token t - (key + 1)"

definition owner :: "32 word \<Rightarrow> TokenDescs \<Rightarrow> TokenDesc \<Rightarrow> bool" where
  "owner key ts t \<longleftrightarrow> t \<in> set ts \<and> (\<forall>t'\<in>set ts. distance key t \<le> distance key t')"

lemma unat32_less: "unat (x :: 32 word) < 4294967296"
  using unsigned_less [of x, where 'a = nat] by simp

lemma distance_unat:
  "unat (distance key t) =
     (if key < Token t then unat (Token t) - unat key - 1 else unat (Token t) + 2 ^ 32 - unat key - 1)"
proof -
  let ?m = "2 ^ 32 :: nat"
  have b: "unat key < ?m" "unat (Token t) < ?m"
    using unat32_less [of key] unat32_less [of "Token t"] by simp_all
  have k1: "unat (key + 1) = (if unat key + 1 < ?m then unat key + 1 else 0)"
  proof (cases "unat key + 1 < ?m")
    case False
    then have "unat key + 1 = ?m" using b(1) by simp
    then show ?thesis by (simp add: unat_word_ariths)
  qed (simp add: unat_word_ariths)
  show ?thesis
    unfolding distance_def unat_sub_if' k1 word_less_nat_alt
    using b by auto
qed

lemma distance_le_iff:
  "distance key t \<le> distance key t' \<longleftrightarrow>
    (if key < Token t then key < Token t' \<longrightarrow> Token t \<le> Token t'
     else \<not> key < Token t' \<and> Token t \<le> Token t')"
  using unat32_less [of key] unat32_less [of "Token t"] unat32_less [of "Token t'"]
  unfolding word_le_nat_alt distance_unat word_less_nat_alt by auto

lemma owner_unique:
  assumes "distinct (map Token ts)" "owner key ts t" "owner key ts t'"
  shows "t = t'"
proof -
  have "distance key t = distance key t'" using assms(2,3) by (auto simp: owner_def intro: antisym)
  then have "Token t = Token t'" by (simp add: distance_def)
  then show ?thesis
    using assms by (auto simp: owner_def distinct_map dest: inj_onD)
qed

text \<open>The binary search finds the owner.\<close>

lemma ring_search_less: "Tokens (ringDesc r) \<noteq> [] \<Longrightarrow> ring_search r key < length (Tokens (ringDesc r))"
  by (simp add: ring_search_def Let_def not_le)

lemma ring_search_owner:
  assumes "sorted (map Token (Tokens (ringDesc r)))" "Tokens (ringDesc r) \<noteq> []"
  shows "owner key (Tokens (ringDesc r)) (Tokens (ringDesc r) ! ring_search r key)"
proof -
  let ?ts = "Tokens (ringDesc r)"
  let ?L = "filter (\<lambda>t. Token t \<le> key) ?ts" and ?R = "filter (\<lambda>t. \<not> Token t \<le> key) ?ts"
  have ts: "?ts = ?L @ ?R"
    using sorted_split_filter [OF assms(1), of "\<lambda>k. k \<le> key"] by auto
  have s: "search (length ?ts) (\<lambda>x. Token (?ts ! x) > key) = length ?L"
    by (rule gosearch.search_gt [OF assms(1)])
  have mono: "Token (?ts ! 0) \<le> Token t" if "t \<in> set ?ts" for t
    using that assms by (cases ?ts) auto
  show ?thesis
  proof (cases "?R = []")
    case True
    then have L: "?L = ?ts" using ts by simp
    then have "ring_search r key = 0" using s by (simp add: ring_search_def)
    moreover have "\<forall>t\<in>set ?ts. Token t \<le> key" using L by (simp add: filter_id_conv)
    ultimately show ?thesis
      using mono assms(2) by (auto simp: owner_def distance_le_iff not_less)
  next
    case False
    then have len: "length ?L < length ?ts" using arg_cong [OF ts, of length] by simp
    then have i: "ring_search r key = length ?L" using s by (simp add: ring_search_def Let_def)
    have "?ts ! length ?L = ?R ! 0" by (subst ts) (simp add: nth_append)
    then have hd: "?ts ! length ?L = hd ?R" using False by (simp add: hd_conv_nth)
    have "sorted (map Token ?R)" using assms(1) by (rule sorted_filter)
    then have min: "Token (hd ?R) \<le> Token t" if "t \<in> set ?R" for t
      using that False by (cases ?R) auto
    have "hd ?R \<in> set ?R" using False by (rule hd_in_set)
    then show ?thesis
      using min unfolding owner_def i hd distance_le_iff by (auto simp: not_le)
  qed
qed

text \<open>The ingester a key is routed to.\<close>

definition route :: "Desc \<Rightarrow> 32 word \<Rightarrow> string" where
  "route d key = Ingester (Tokens d ! ring_search \<lparr>ringDesc = d\<rparr> key)"

lemma route_owner:
  assumes "sorted (map Token (Tokens d))" "Tokens d \<noteq> []"
  obtains t where "owner key (Tokens d) t" "route d key = Ingester t"
  using ring_search_owner [of "\<lparr>ringDesc = d\<rparr>" key] assms by (simp add: route_def)

lemma route_eqI:
  assumes "sorted (map Token (Tokens d))" "distinct_tokens d" "owner key (Tokens d) t"
  shows "route d key = Ingester t"
proof -
  have "Tokens d \<noteq> []" using assms(3) by (auto simp: owner_def)
  with assms(1) obtain t' where "owner key (Tokens d) t'" "route d key = Ingester t'" by (rule route_owner)
  then show ?thesis using owner_unique [of "Tokens d" key t t'] assms(2,3) by (simp add: distinct_tokens_def)
qed

lemma owner_subset: "owner key ts t \<Longrightarrow> set ts' \<subseteq> set ts \<Longrightarrow> t \<in> set ts' \<Longrightarrow> owner key ts' t"
  by (auto simp: owner_def)

section \<open>The ownership metric\<close>

definition owned_total :: "(string \<rightharpoonup> 32 word) \<Rightarrow> nat" where
  "owned_total m = (\<Sum>i\<in>dom m. unat (the (m i)))"

lemma unat_add_small: "unat (x :: 32 word) + unat y < 4294967296 \<Longrightarrow> unat (x + y) = unat x + unat y"
  by (simp add: unat_word_ariths)

lemma unat_MaxUint32: "unat MaxUint32 = 4294967295"
  by (simp add: MaxUint32_def unsigned_minus_1_eq_mask mask_eq_exp_minus_1)

lemma add_owned_total:
  assumes "finite (dom m)" "owned_total m + unat (token_diff ts i) < 4294967296"
  shows "finite (dom (add_owned ts m i)) \<and> owned_total (add_owned ts m i) = owned_total m + unat (token_diff ts i)"
proof -
  let ?k = "Ingester (ts ! i)" and ?x = "token_diff ts i"
  let ?o = "case m ?k of None \<Rightarrow> 0 | Some x \<Rightarrow> x"
  let ?R = "\<Sum>j\<in>dom m - {?k}. unat (the (m j))"
  have split: "owned_total m = unat ?o + ?R"
  proof (cases "m ?k")
    case None
    then have "dom m - {?k} = dom m" by auto
    then show ?thesis using None by (simp add: owned_total_def)
  next
    case (Some y)
    then have "?k \<in> dom m" by blast
    then show ?thesis using Some assms(1) by (simp add: owned_total_def sum.remove [of "dom m" ?k])
  qed
  have "owned_total (add_owned ts m i) = unat (?o + ?x) + (\<Sum>j\<in>dom m - {?k}. unat (the (add_owned ts m i j)))"
    using assms(1) by (simp add: owned_total_def add_owned_def Let_def sum.insert_remove)
  also have "(\<Sum>j\<in>dom m - {?k}. unat (the (add_owned ts m i j))) = ?R"
    by (rule sum.cong) (auto simp: add_owned_def Let_def)
  also have "unat (?o + ?x) = unat ?o + unat ?x"
    using split assms(2) by (intro unat_add_small) simp
  finally have "owned_total (add_owned ts m i) = owned_total m + unat ?x" using split by simp
  moreover have "finite (dom (add_owned ts m i))" using assms(1) by (simp add: add_owned_def Let_def)
  ultimately show ?thesis by blast
qed

lemma collect_fold:
  assumes "n \<le> length ts" "(\<Sum>i<n. unat (token_diff ts i)) < 4294967296"
  shows "finite (dom (foldl (add_owned ts) Map.empty [0..<n])) \<and>
    owned_total (foldl (add_owned ts) Map.empty [0..<n]) = (\<Sum>i<n. unat (token_diff ts i))"
  using assms
proof (induction n)
  case 0
  then show ?case by (simp add: owned_total_def)
next
  case (Suc n)
  then have "(\<Sum>i<n. unat (token_diff ts i)) < 4294967296" by simp
  then show ?case using Suc add_owned_total [of "foldl (add_owned ts) Map.empty [0..<n]" ts n] by simp
qed

text \<open>The arcs of a sorted circle add up to its circumference less one.\<close>

lemma token_diff_unat:
  assumes "sorted (map Token ts)" "i < length ts"
  shows "unat (token_diff ts i) =
    (if i + 1 = length ts then 4294967295 - unat (Token (ts ! i)) + unat (Token (ts ! 0))
     else unat (Token (ts ! (i + 1))) - unat (Token (ts ! i)))"
proof -
  have le: "unat (Token (ts ! j)) \<le> unat (Token (ts ! k))" if "j \<le> k" "k < length ts" for j k
    using that sorted_nth_mono [OF assms(1), of j k] by (simp add: word_le_nat_alt)
  have max: "unat (MaxUint32 - x) = 4294967295 - unat x" for x
  proof -
    show ?thesis using unat32_less [of x] by (simp add: unat_sub_if' unat_MaxUint32)
  qed
  show ?thesis
  proof (cases "i + 1 = length ts")
    case True
    have "unat (Token (ts ! 0)) \<le> unat (Token (ts ! i))" using le assms(2) by simp
    then have "unat (MaxUint32 - Token (ts ! i)) + unat (Token (ts ! 0)) < 4294967296"
      unfolding max using unat32_less [of "Token (ts ! i)"] by simp
    then show ?thesis using True max by (simp add: token_diff_def unat_add_small)
  next
    case False
    then show ?thesis using le [of i "i + 1"] assms(2) by (simp add: token_diff_def unat_sub_if')
  qed
qed

lemma token_diff_sum:
  assumes "sorted (map Token ts)" "ts \<noteq> []"
  shows "(\<Sum>i<length ts. unat (token_diff ts i)) = 4294967295"
proof -
  let ?T = "\<lambda>i. unat (Token (ts ! i))"
  have le: "?T j \<le> ?T k" if "j \<le> k" "k < length ts" for j k
    using that sorted_nth_mono [OF assms(1), of j k] by (simp add: word_le_nat_alt)
  obtain n where n: "length ts = Suc n" using assms(2) by (cases ts) auto
  have part: "(\<Sum>i<m. unat (token_diff ts i)) = ?T m - ?T 0" if "m \<le> n" for m
    using that
  proof (induction m)
    case (Suc m)
    then have "unat (token_diff ts m) = ?T (m + 1) - ?T m" using n by (simp add: token_diff_unat [OF assms(1)])
    then show ?case using Suc le [of 0 m] le [of m "Suc m"] n by simp
  qed simp
  have "unat (token_diff ts n) = 4294967295 - ?T n + ?T 0" using n by (simp add: token_diff_unat [OF assms(1)])
  then show ?thesis using part [of n] le [of 0 n] n unat32_less [of "Token (ts ! n)"] by simp
qed

section \<open>Properties\<close>

text \<open>
  C10: on a well-formed ring, \<open>Get\<close> returns the ingester of the token that follows the key
  clockwise on the circle of 32-bit words, wrapping around after the last token; on a ring
  without tokens it returns \<open>ErrEmptyRing\<close>.
\<close>

theorem ring_Get_owner:
  assumes "wf_desc (ringDesc r)"
  shows "(Tokens (ringDesc r) = [] \<longrightarrow> ring_Get r key = Inl ErrEmptyRing) \<and>
    (Tokens (ringDesc r) \<noteq> [] \<longrightarrow>
      (\<exists>t x. owner key (Tokens (ringDesc r)) t \<and> Ingesters (ringDesc r) (Ingester t) = Some x \<and> ring_Get r key = Inr x))"
proof (intro conjI impI)
  assume ne: "Tokens (ringDesc r) \<noteq> []"
  let ?t = "Tokens (ringDesc r) ! ring_search r key"
  have o: "owner key (Tokens (ringDesc r)) ?t" using assms ne by (intro ring_search_owner) (simp_all add: wf_desc_def)
  then obtain x where x: "Ingesters (ringDesc r) (Ingester ?t) = Some x" using assms by (auto simp: wf_desc_def owner_def)
  moreover have "ring_Get r key = Inr x" using ne x by (simp add: ring_Get_def Let_def)
  ultimately show "\<exists>t x. owner key (Tokens (ringDesc r)) t \<and> Ingesters (ringDesc r) (Ingester t) = Some x \<and> ring_Get r key = Inr x"
    using o by blast
qed (simp add: ring_Get_def)

definition two_ring :: Ring where
  "two_ring = \<lparr>ringDesc = addIngester 2 ''B'' ''b:1'' [1] (addIngester 1 ''A'' ''a:1'' [0] newDesc)\<rparr>"

theorem ring_Get_owner_witness:
  "wf_desc (ringDesc two_ring) \<and>
   (\<exists>t x. owner 7 (Tokens (ringDesc two_ring)) t \<and> Ingesters (ringDesc two_ring) (Ingester t) = Some x \<and> ring_Get two_ring 7 = Inr x)"
proof -
  have wf: "wf_desc (ringDesc two_ring)" by (simp add: two_ring_def wf_addIngester)
  moreover have "Tokens (ringDesc two_ring) \<noteq> []" by (simp add: two_ring_def addIngester_def newDesc_def sort_TokenDescs_def sort_slice_def mk_tokens_def)
  ultimately show ?thesis using ring_Get_owner [OF wf, of 7] by blast
qed

text \<open>
  C22: consistent hashing. Adding an ingester with fresh tokens moves keys to the new
  ingester only: every key is routed as before or to the ingester that was added.
\<close>

theorem add_moves_to_new:
  assumes "wf_desc d" "distinct_tokens d" "Tokens d \<noteq> []" "distinct ks" "set ks \<inter> Token ` set (Tokens d) = {}"
  shows "route (addIngester now i h ks d) key = route d key \<or> route (addIngester now i h ks d) key = i"
proof -
  let ?d = "addIngester now i h ks d"
  have st: "set (Tokens ?d) = set (Tokens d) \<union> set (mk_tokens i ks)" by (rule set_Tokens_add)
  have "Tokens ?d \<noteq> []" using st assms(3) by auto
  with sorted_Tokens_add obtain t where t: "owner key (Tokens ?d) t" "route ?d key = Ingester t" by (rule route_owner)
  show ?thesis
  proof (cases "t \<in> set (Tokens d)")
    case True
    then have "owner key (Tokens d) t" using owner_subset [OF t(1)] st by blast
    then show ?thesis using route_eqI assms(1,2) t(2) by (auto simp: wf_desc_def)
  next
    case False
    then have "t \<in> set (mk_tokens i ks)" using t(1) st by (auto simp: owner_def)
    then show ?thesis using t(2) by (simp add: set_mk_tokens)
  qed
qed

theorem add_moves_to_new_witness:
  "route (addIngester 3 ''C'' ''c:1'' [9] (addIngester 1 ''A'' ''a:1'' [0] newDesc)) 5 = ''C'' \<or>
   route (addIngester 3 ''C'' ''c:1'' [9] (addIngester 1 ''A'' ''a:1'' [0] newDesc)) 5 =
     route (addIngester 1 ''A'' ''a:1'' [0] newDesc) 5"
proof -
  let ?d = "addIngester 1 ''A'' ''a:1'' [0] newDesc"
  have t: "Tokens ?d = [\<lparr>Token = 0, Ingester = ''A''\<rparr>]"
    by (simp add: addIngester_def newDesc_def sort_TokenDescs_def sort_slice_def mk_tokens_def)
  have "wf_desc ?d" "distinct_tokens ?d" by (simp_all add: wf_addIngester distinct_tokens_def t)
  then show ?thesis using add_moves_to_new [of ?d "[9]" 3 "''C''" "''c:1''" 5] by (auto simp: t)
qed

text \<open>
  C23: taking an ingester out of the ring moves only the keys it had: every key routed to
  another ingester keeps its route.
\<close>

theorem remove_keeps_others:
  assumes "wf_desc d" "distinct_tokens d" "Tokens d \<noteq> []" "sorted ks"
    and "\<forall>t\<in>set (Tokens d). Token t \<in> set ks \<longleftrightarrow> Ingester t = i" and "route d key \<noteq> i"
  shows "route (removeIngester i ks d) key = route d key"
proof -
  let ?d = "removeIngester i ks d"
  have ts: "Tokens ?d = filter (\<lambda>t. Token t \<notin> set ks) (Tokens d)"
    using assms(1,2,4) by (simp add: removeIngester_def remove_loop_filter wf_desc_def distinct_tokens_def)
  have srt: "sorted (map Token (Tokens d))" using assms(1) by (simp add: wf_desc_def)
  then obtain t where t: "owner key (Tokens d) t" "route d key = Ingester t" using assms(3) by (rule route_owner)
  then have "t \<in> set (Tokens ?d)" using assms(5,6) by (auto simp: ts owner_def)
  then have "owner key (Tokens ?d) t" using owner_subset [OF t(1)] ts by auto
  moreover have "sorted (map Token (Tokens ?d))" unfolding ts by (rule sorted_filter [OF srt])
  moreover have "distinct_tokens ?d" using assms(2) by (simp add: distinct_tokens_def ts distinct_map_filter)
  ultimately show ?thesis using route_eqI t(2) by simp
qed

lemma two_ring_tokens:
  "Tokens (ringDesc two_ring) = [\<lparr>Token = 0, Ingester = ''A''\<rparr>, \<lparr>Token = 1, Ingester = ''B''\<rparr>]"
  by (simp add: two_ring_def addIngester_def newDesc_def sort_TokenDescs_def sort_slice_def mk_tokens_def)

lemma two_ring_wf: "wf_desc (ringDesc two_ring)" "distinct_tokens (ringDesc two_ring)"
  using two_ring_tokens by (simp_all add: distinct_tokens_def two_ring_def wf_addIngester)

lemma two_ring_search: "ring_search \<lparr>ringDesc = ringDesc two_ring\<rparr> key = (if key = 0 then 1 else 0)"
proof -
  have "search_loop f 0 (Suc (Suc 0)) = (if f 1 then if f 0 then 0 else 1 else 2)" for f
    by (simp add: search_loop.simps [of f] Let_def)
  moreover have "key < 1 \<longleftrightarrow> key = 0" for key :: "32 word" by (rule word_less_1)
  ultimately show ?thesis by (simp add: ring_search_def two_ring_tokens Let_def search_def)
qed

theorem remove_keeps_others_witness:
  "route (ringDesc two_ring) 0 = ''B'' \<and> route (removeIngester ''A'' [0] (ringDesc two_ring)) 0 = ''B''"
proof -
  have r: "route (ringDesc two_ring) 0 = ''B''" by (simp add: route_def two_ring_search two_ring_tokens)
  then have "route (removeIngester ''A'' [0] (ringDesc two_ring)) 0 = route (ringDesc two_ring) 0"
    using two_ring_wf two_ring_tokens by (intro remove_keeps_others) simp_all
  with r show ?thesis by simp
qed

text \<open>
  On a non-empty sorted ring the ownership values that \<open>Collect\<close> reports add up to
  \<open>MaxUint32\<close>, as natural numbers: the per-ingester sums do not wrap around.
\<close>

lemma Collect_total:
  assumes "wf_desc (ringDesc r)" "Tokens (ringDesc r) \<noteq> []"
  shows "owned_total (Collect r) = unat MaxUint32"
proof -
  let ?ts = "Tokens (ringDesc r)"
  have "(\<Sum>i<length ?ts. unat (token_diff ?ts i)) = 4294967295"
    using assms by (intro token_diff_sum) (simp_all add: wf_desc_def)
  then show ?thesis using collect_fold [of "length ?ts" ?ts] by (simp add: Collect_def unat_MaxUint32 Let_def)
qed

text \<open>
  The ownership metric does not describe the routing. There is a well-formed ring of two
  ingesters on which every key but one is routed to the first, while \<open>Collect\<close> reports that
  the first owns a single key and the second all the others: a token is charged with the arc
  that follows it, but \<open>search\<close> gives it the arc that precedes it.
\<close>

lemma Collect_misattributes:
  "wf_desc (ringDesc two_ring) \<and> distinct_tokens (ringDesc two_ring) \<and>
   (\<forall>key. route (ringDesc two_ring) key = (if key = 0 then ''B'' else ''A'')) \<and>
   Collect two_ring ''A'' = Some 1 \<and> Collect two_ring ''B'' = Some (MaxUint32 - 1)"
proof (intro conjI allI)
  show "route (ringDesc two_ring) key = (if key = 0 then ''B'' else ''A'')" for key
    by (simp add: route_def two_ring_search two_ring_tokens)
  show "Collect two_ring ''A'' = Some 1" "Collect two_ring ''B'' = Some (MaxUint32 - 1)"
    by (simp_all add: Collect_def two_ring_tokens add_owned_def token_diff_def Let_def upt_rec)
qed (rule two_ring_wf)+

end
