(* ===== verification/Consul_Client.thy ===== *)
theory Consul_Client
  imports Go_Std
begin

text \<open>
  The Consul client (\<open>ring/consul_client.go\<close>). Consul's key-value store is a record of
  functions over the state of the service, and the JSON codec of the stored type is the pair
  of functions \<open>'a Factory\<close>. Other clients act between the requests of a \<open>CAS\<close>: the
  argument \<open>others\<close> says what they do at each such moment. The contract \<open>consul_kv\<close>
  states what Consul promises about modify indices, and \<open>CAS\<close> is shown to be atomic under it.
\<close>

section \<open>The key-value store and codecs\<close>

record KVPair =
  kv_Key :: string
  kv_Value :: bytes
  ModifyIndex :: nat

record 's kv =
  KV_CAS :: "KVPair \<Rightarrow> 's \<Rightarrow> (err + bool) \<times> 's"
  KV_Get :: "string \<Rightarrow> 's \<Rightarrow> err + KVPair option"
  KV_Put :: "string \<Rightarrow> bytes \<Rightarrow> 's \<Rightarrow> err option \<times> 's"

record 'a Factory =
  decode :: "bytes \<Rightarrow> err + 'a"
  encode :: "'a \<Rightarrow> err + bytes"

definition ErrNotFound :: err where
  "ErrNotFound = Err ''Not found''"

definition consul_Get :: "'s kv \<Rightarrow> 'a Factory \<Rightarrow> string \<Rightarrow> 's \<Rightarrow> err + 'a" where
  "consul_Get c factory key s =
     (case KV_Get c key s of
        Inl e \<Rightarrow> Inl e
      | Inr None \<Rightarrow> Inl ErrNotFound
      | Inr (Some kvp) \<Rightarrow> decode factory (kv_Value kvp))"

definition PutBytes :: "'s kv \<Rightarrow> string \<Rightarrow> bytes \<Rightarrow> 's \<Rightarrow> err option \<times> 's" where
  "PutBytes c key buf s = KV_Put c key buf s"

section \<open>CAS\<close>

text \<open>
  A callback gets the current value, if any, and returns the new one, whether to retry, and an
  error; it may change the variables it closes over (\<open>'c\<close>).
\<close>

type_synonym ('a, 'c) CASCallback = "'a option \<Rightarrow> 'c \<Rightarrow> (('a option \<times> bool \<times> err option) \<times> 'c) go"

text \<open>
  The value read and the index to write with: \<open>index\<close> keeps its value from the previous
  attempt when the key does not exist.
\<close>

definition cas_read :: "'a Factory \<Rightarrow> KVPair option \<Rightarrow> nat \<Rightarrow> err + ('a option \<times> nat)" where
  "cas_read factory kvp index =
     (case kvp of
        None \<Rightarrow> Inr (None, index)
      | Some p \<Rightarrow> (case decode factory (kv_Value p) of Inl e \<Rightarrow> Inl e | Inr v \<Rightarrow> Inr (Some v, ModifyIndex p)))"

fun cas_loop ::
  "'s kv \<Rightarrow> 'a Factory \<Rightarrow> string \<Rightarrow> ('a, 'c) CASCallback \<Rightarrow> (nat \<Rightarrow> 's \<Rightarrow> 's) \<Rightarrow> nat \<Rightarrow> nat \<Rightarrow> 's \<Rightarrow> 'c \<Rightarrow>
   (err option \<times> 's \<times> 'c) go" where
  "cas_loop c factory key f others 0 index s v = Ret (Some (Err (''failed to CAS '' @ key)), s, v)"
| "cas_loop c factory key f others (Suc n) index s v =
     (let s0 = others (2 * n + 1) s in
      case KV_Get c key s0 of
        Inl e \<Rightarrow> cas_loop c factory key f others n index s0 v
      | Inr kvp \<Rightarrow>
     (case cas_read factory kvp index of
        Inl e \<Rightarrow> cas_loop c factory key f others n index s0 v
      | Inr (intermediate, index') \<Rightarrow>
     bind_go (f intermediate v) (\<lambda>((out, retry, e), v').
     (case e of
        Some e' \<Rightarrow> if \<not> retry then Ret (Some e', s0, v') else cas_loop c factory key f others n index' s0 v'
      | None \<Rightarrow>
     (case out of
        None \<Rightarrow> Panic ''Callback must instantiate value!''
      | Some a \<Rightarrow>
     (case encode factory a of
        Inl e' \<Rightarrow> cas_loop c factory key f others n index' s0 v'
      | Inr b \<Rightarrow>
     (let s1 = others (2 * n) s0 in
      case KV_CAS c \<lparr>kv_Key = key, kv_Value = b, ModifyIndex = index'\<rparr> s1 of
        (Inr True, s2) \<Rightarrow> Ret (None, s2, v')
      | (_, s2) \<Rightarrow> cas_loop c factory key f others n index' s2 v')))))))"

definition cas_retries :: nat where "cas_retries = 10"

definition CAS ::
  "'s kv \<Rightarrow> 'a Factory \<Rightarrow> string \<Rightarrow> ('a, 'c) CASCallback \<Rightarrow> (nat \<Rightarrow> 's \<Rightarrow> 's) \<Rightarrow> 's \<Rightarrow> 'c \<Rightarrow> (err option \<times> 's \<times> 'c) go" where
  "CAS c factory key f others s v = cas_loop c factory key f others cas_retries 0 s v"

lemma cas_retries_Suc: "cas_retries = Suc 9"
  by (simp add: cas_retries_def)

section \<open>Back-off\<close>

text \<open>Durations count nanoseconds.\<close>

definition initialBackoff :: int where "initialBackoff = 1000000000"
definition maxBackoff :: int where "maxBackoff = 60000000000"

text \<open>\<open>wait\<close> returns early, without a change, when \<open>done\<close> is closed.\<close>

definition backoff_wait :: "bool \<Rightarrow> int \<Rightarrow> int" where
  "backoff_wait done b = (if done then b else let b' = b * 2 in if b' > maxBackoff then maxBackoff else b')"

fun backoff_waits :: "nat \<Rightarrow> int \<Rightarrow> int" where
  "backoff_waits 0 b = b"
| "backoff_waits (Suc n) b = backoff_waits n (backoff_wait False b)"

section \<open>Watching\<close>

text \<open>
  One round of the loop of \<open>WatchKey\<close>: whether \<open>done\<close> is closed at its start, the answer
  of the long poll (an error, or the pair and the last index), and whether \<open>done\<close> closes
  during the back-off that follows an error.
\<close>

type_synonym 'r round = "bool \<times> (err + 'r \<times> nat) \<times> bool"

fun watch_key ::
  "'a Factory \<Rightarrow> ('a option \<Rightarrow> 'c \<Rightarrow> 'c \<times> bool) \<Rightarrow> KVPair option round list \<Rightarrow> nat \<Rightarrow> int \<Rightarrow> 'c \<Rightarrow> 'c" where
  "watch_key factory f [] index b v = v"
| "watch_key factory f ((closed, resp, done) # rs) index b v =
     (if closed then v else
      case resp of
        Inl e \<Rightarrow> watch_key factory f rs index (backoff_wait done b) v
      | Inr (kvp, lastIndex) \<Rightarrow>
          if index = lastIndex then watch_key factory f rs index initialBackoff v
          else
            (case kvp of
               None \<Rightarrow>
                 (case f None v of (v', go_on) \<Rightarrow>
                    if go_on then watch_key factory f rs lastIndex initialBackoff v' else v')
             | Some p \<Rightarrow>
                 (case decode factory (kv_Value p) of
                    Inl e \<Rightarrow> watch_key factory f rs lastIndex initialBackoff v
                  | Inr a \<Rightarrow>
                      (case f (Some a) v of (v', go_on) \<Rightarrow>
                         if go_on then watch_key factory f rs lastIndex initialBackoff v' else v'))))"

definition WatchKey :: "'a Factory \<Rightarrow> ('a option \<Rightarrow> 'c \<Rightarrow> 'c \<times> bool) \<Rightarrow> KVPair option round list \<Rightarrow> 'c \<Rightarrow> 'c" where
  "WatchKey factory f rs v = watch_key factory f rs 0 initialBackoff v"

text \<open>The pairs under a prefix; the flag says whether the watch goes on.\<close>

fun watch_pairs :: "'a Factory \<Rightarrow> (string \<Rightarrow> 'a \<Rightarrow> 'c \<Rightarrow> 'c \<times> bool) \<Rightarrow> KVPair list \<Rightarrow> 'c \<Rightarrow> 'c \<times> bool" where
  "watch_pairs factory f [] v = (v, True)"
| "watch_pairs factory f (p # ps) v =
     (case decode factory (kv_Value p) of
        Inl e \<Rightarrow> watch_pairs factory f ps v
      | Inr a \<Rightarrow> (case f (kv_Key p) a v of (v', go_on) \<Rightarrow> if go_on then watch_pairs factory f ps v' else (v', False)))"

fun watch_prefix ::
  "'a Factory \<Rightarrow> (string \<Rightarrow> 'a \<Rightarrow> 'c \<Rightarrow> 'c \<times> bool) \<Rightarrow> KVPair list round list \<Rightarrow> nat \<Rightarrow> int \<Rightarrow> 'c \<Rightarrow> 'c" where
  "watch_prefix factory f [] index b v = v"
| "watch_prefix factory f ((closed, resp, done) # rs) index b v =
     (if closed then v else
      case resp of
        Inl e \<Rightarrow> watch_prefix factory f rs index (backoff_wait done b) v
      | Inr (kvps, lastIndex) \<Rightarrow>
          if index = lastIndex then watch_prefix factory f rs index initialBackoff v
          else
            (case watch_pairs factory f kvps v of (v', go_on) \<Rightarrow>
               if go_on then watch_prefix factory f rs lastIndex initialBackoff v' else v'))"

definition WatchPrefix ::
  "'a Factory \<Rightarrow> (string \<Rightarrow> 'a \<Rightarrow> 'c \<Rightarrow> 'c \<times> bool) \<Rightarrow> KVPair list round list \<Rightarrow> 'c \<Rightarrow> 'c" where
  "WatchPrefix factory f rs v = watch_prefix factory f rs 0 initialBackoff v"

section \<open>The prefixing client\<close>

definition prefixed_Get :: "string \<Rightarrow> 's kv \<Rightarrow> 'a Factory \<Rightarrow> string \<Rightarrow> 's \<Rightarrow> err + 'a" where
  "prefixed_Get prefix c factory key s = consul_Get c factory (prefix @ key) s"

definition prefixed_CAS ::
  "string \<Rightarrow> 's kv \<Rightarrow> 'a Factory \<Rightarrow> string \<Rightarrow> ('a, 'c) CASCallback \<Rightarrow> (nat \<Rightarrow> 's \<Rightarrow> 's) \<Rightarrow> 's \<Rightarrow> 'c \<Rightarrow> (err option \<times> 's \<times> 'c) go" where
  "prefixed_CAS prefix c factory key f others s v = CAS c factory (prefix @ key) f others s v"

definition prefixed_PutBytes :: "string \<Rightarrow> 's kv \<Rightarrow> string \<Rightarrow> bytes \<Rightarrow> 's \<Rightarrow> err option \<times> 's" where
  "prefixed_PutBytes prefix c key buf s = PutBytes c (prefix @ key) buf s"

text \<open>\<open>polls\<close> gives the rounds of long polling that Consul answers for a key or a prefix.\<close>

definition prefixed_WatchKey ::
  "string \<Rightarrow> 'a Factory \<Rightarrow> ('a option \<Rightarrow> 'c \<Rightarrow> 'c \<times> bool) \<Rightarrow> (string \<Rightarrow> KVPair option round list) \<Rightarrow> string \<Rightarrow> 'c \<Rightarrow> 'c" where
  "prefixed_WatchKey prefix factory f polls key v = WatchKey factory f (polls (prefix @ key)) v"

definition prefixed_WatchPrefix ::
  "string \<Rightarrow> 'a Factory \<Rightarrow> (string \<Rightarrow> 'a \<Rightarrow> 'c \<Rightarrow> 'c \<times> bool) \<Rightarrow> (string \<Rightarrow> KVPair list round list) \<Rightarrow> string \<Rightarrow> 'c \<Rightarrow> 'c" where
  "prefixed_WatchPrefix prefix factory f polls path v = WatchPrefix factory f (polls (prefix @ path)) v"

section \<open>What Consul promises\<close>

text \<open>
  \<open>view\<close> gives the value and modify index of every key and \<open>clock\<close> bounds the indices in
  use. A state evolves into another by writes and deletions that take indices above the clock.
\<close>

definition evolves :: "('s \<Rightarrow> string \<rightharpoonup> bytes \<times> nat) \<Rightarrow> ('s \<Rightarrow> nat) \<Rightarrow> 's \<Rightarrow> 's \<Rightarrow> bool" where
  "evolves view clock s s' \<longleftrightarrow> clock s \<le> clock s' \<and>
     (\<forall>k b i. view s' k = Some (b, i) \<longrightarrow> view s k = Some (b, i) \<or> clock s < i)"

lemma evolves_refl [simp]: "evolves view clock s s"
  by (simp add: evolves_def)

lemma evolves_trans: "evolves view clock s s' \<Longrightarrow> evolves view clock s' s'' \<Longrightarrow> evolves view clock s s''"
  unfolding evolves_def by (meson le_less_trans order_trans)

locale consul_kv =
  fixes c :: "'s kv" and view :: "'s \<Rightarrow> string \<rightharpoonup> bytes \<times> nat" and clock :: "'s \<Rightarrow> nat" and inv :: "'s \<Rightarrow> bool"
  assumes index_range: "inv s \<Longrightarrow> view s k = Some (b, i) \<Longrightarrow> 0 < i \<and> i \<le> clock s"
    and get_view: "inv s \<Longrightarrow> KV_Get c key s = Inr kvp \<Longrightarrow>
      kvp = map_option (\<lambda>(b, i). \<lparr>kv_Key = key, kv_Value = b, ModifyIndex = i\<rparr>) (view s key)"
    and cas_inv: "inv s \<Longrightarrow> KV_CAS c p s = (r, s') \<Longrightarrow> inv s' \<and> evolves view clock s s'"
    and cas_done: "inv s \<Longrightarrow> KV_CAS c p s = (Inr True, s') \<Longrightarrow>
      (case view s (kv_Key p) of None \<Rightarrow> ModifyIndex p = 0 | Some (b, i) \<Rightarrow> ModifyIndex p = i) \<and>
      (\<exists>i. view s' = (view s)(kv_Key p \<mapsto> (kv_Value p, i)))"
begin

definition friendly :: "(nat \<Rightarrow> 's \<Rightarrow> 's) \<Rightarrow> bool" where
  "friendly others \<longleftrightarrow> (\<forall>n s. inv s \<longrightarrow> inv (others n s) \<and> evolves view clock s (others n s))"

text \<open>The value of a key, as a callback sees it.\<close>

definition holds_value :: "'a Factory \<Rightarrow> 's \<Rightarrow> string \<Rightarrow> 'a option \<Rightarrow> bool" where
  "holds_value factory s key a \<longleftrightarrow>
     (case view s key of None \<Rightarrow> a = None | Some (b, i) \<Rightarrow> (\<exists>x. decode factory b = Inr x \<and> a = Some x))"

text \<open>
  What a successful \<open>CAS\<close> did: at the moment of its write the key held exactly the value the
  callback was given, and the write stored what the callback returned.
\<close>

definition atomic_update ::
  "'a Factory \<Rightarrow> string \<Rightarrow> ('a, 'c) CASCallback \<Rightarrow> 's \<Rightarrow> 'c \<Rightarrow> bool" where
  "atomic_update factory key f s' v' \<longleftrightarrow>
     (\<exists>s1 inp v out retry b i. inv s1 \<and> holds_value factory s1 key inp \<and>
        f inp v = Ret ((Some out, retry, None), v') \<and> encode factory out = Inr b \<and>
        view s' = (view s1)(key \<mapsto> (b, i)))"

lemma cas_write_atomic:
  assumes "inv s0" "inv s1" "evolves view clock s0 s1" "index \<le> clock s0"
    and "KV_Get c key s0 = Inr kvp" "cas_read factory kvp index = Inr (inp, index')"
    and "KV_CAS c \<lparr>kv_Key = key, kv_Value = b, ModifyIndex = index'\<rparr> s1 = (Inr True, s2)"
  shows "holds_value factory s1 key inp \<and> (\<exists>i. view s2 = (view s1)(key \<mapsto> (b, i)))"
proof -
  have kvp: "kvp = map_option (\<lambda>(b, i). \<lparr>kv_Key = key, kv_Value = b, ModifyIndex = i\<rparr>) (view s0 key)"
    using get_view [OF assms(1,5)] .
  note d = cas_done [OF assms(2,7), simplified]
  have same: "view s1 key = Some (b', index') \<Longrightarrow> index' \<le> clock s0 \<Longrightarrow> view s0 key = Some (b', index')" for b'
    using assms(3) unfolding evolves_def by (metis not_less)
  have "holds_value factory s1 key inp"
  proof (cases "view s0 key")
    case None
    then have i: "inp = None" "index' = index" using assms(6) kvp by (simp_all add: cas_read_def)
    show ?thesis
    proof (cases "view s1 key")
      case (Some e)
      then obtain b' where "view s1 key = Some (b', index')" using d by (cases e) simp
      then show ?thesis using same assms(4) i(2) None by simp
    qed (use i in \<open>simp add: holds_value_def\<close>)
  next
    case (Some e)
    obtain b0 i0 where e: "e = (b0, i0)" by (cases e)
    then obtain x where x: "decode factory b0 = Inr x" "inp = Some x" "index' = i0"
      using assms(6) kvp Some by (auto simp: cas_read_def split: sum.splits)
    have i0: "0 < i0" "i0 \<le> clock s0" using index_range [OF assms(1)] Some e by blast+
    then obtain b' where b': "view s1 key = Some (b', index')" using d x(3) by (cases "view s1 key") auto
    then have "b' = b0" using same i0(2) x(3) Some e by simp
    then show ?thesis using b' x by (simp add: holds_value_def)
  qed
  then show ?thesis using d by blast
qed

lemma cas_loop_atomic:
  assumes "friendly others" "inv s" "index \<le> clock s"
    and "cas_loop c factory key f others n index s v = Ret (None, s', v')"
  shows "atomic_update factory key f s' v'"
  using assms(2-4)
proof (induction n arbitrary: index s v)
  case 0
  then show ?case by simp
next
  case (Suc n)
  let ?s0 = "others (2 * n + 1) s"
  have s0: "inv ?s0" "evolves view clock s ?s0" using assms(1) Suc.prems(1) by (auto simp: friendly_def)
  then have cl: "index \<le> clock ?s0" using Suc.prems(2) by (simp add: evolves_def)
  note IH = Suc.IH [OF s0(1) cl]
  show ?case
  proof (cases "KV_Get c key ?s0")
    case (Inl e)
    then show ?thesis using IH Suc.prems(3) by (simp add: Let_def)
  next
    case (Inr kvp)
    show ?thesis
    proof (cases "cas_read factory kvp index")
      case (Inl e)
      then show ?thesis using IH Suc.prems(3) Inr by (simp add: Let_def)
    next
      case read: (Inr r)
      obtain inp index' where r: "r = (inp, index')" by (cases r)
      have ix: "index' \<le> clock ?s0"
        using read get_view [OF s0(1) Inr] index_range [OF s0(1)] cl
        by (auto simp: r cas_read_def split: option.splits sum.splits)
      obtain out retry e v1 where f: "f inp v = Ret ((out, retry, e), v1)"
        using Suc.prems(3) Inr read r by (auto simp: Let_def go_simps)
      show ?thesis
      proof (cases "e = None \<and> out \<noteq> None \<and> (\<exists>b. encode factory (the out) = Inr b)")
        case False
        then have "cas_loop c factory key f others n index' ?s0 v1 = Ret (None, s', v')"
          using Suc.prems(3) Inr read r f by (auto simp: Let_def split: if_splits option.splits sum.splits)
        then show ?thesis by (rule Suc.IH [OF s0(1) ix])
      next
        case True
        then obtain a b where a: "e = None" "out = Some a" "encode factory a = Inr b" by auto
        let ?s1 = "others (2 * n) ?s0"
        have s1: "inv ?s1" "evolves view clock ?s0 ?s1" using assms(1) s0(1) by (auto simp: friendly_def)
        obtain res s2 where cas: "KV_CAS c \<lparr>kv_Key = key, kv_Value = b, ModifyIndex = index'\<rparr> ?s1 = (res, s2)"
          by (cases "KV_CAS c \<lparr>kv_Key = key, kv_Value = b, ModifyIndex = index'\<rparr> ?s1")
        show ?thesis
        proof (cases "res = Inr True")
          case True
          then have "s2 = s'" "v1 = v'" using Suc.prems(3) Inr read r f a cas by (simp_all add: Let_def)
          then show ?thesis
            using cas_write_atomic [OF s0(1) s1 cl Inr read [unfolded r] cas [unfolded True]] f a s1(1)
            unfolding atomic_update_def by blast
        next
          case False
          then have "cas_loop c factory key f others n index' s2 v1 = Ret (None, s', v')"
            using Suc.prems(3) Inr read r f a cas by (auto simp: Let_def split: sum.splits bool.splits)
          moreover have "inv s2" "index' \<le> clock s2"
            using cas_inv [OF s1(1) cas] s1(2) ix by (auto simp: evolves_def)
          ultimately show ?thesis using Suc.IH by blast
        qed
      qed
    qed
  qed
qed

lemma CAS_atomic:
  "friendly others \<Longrightarrow> inv s \<Longrightarrow> CAS c factory key f others s v = Ret (None, s', v') \<Longrightarrow>
   atomic_update factory key f s' v'"
  unfolding CAS_def using cas_loop_atomic [of others s 0] by simp

end

text \<open>A Consul that answers: reads succeed, and a write with the current index is accepted.\<close>

locale consul_live = consul_kv c view clock inv
  for c :: "'s kv" and view :: "'s \<Rightarrow> string \<rightharpoonup> bytes \<times> nat" and clock :: "'s \<Rightarrow> nat" and inv :: "'s \<Rightarrow> bool" +
  assumes get_ok: "inv s \<Longrightarrow>
      KV_Get c key s = Inr (map_option (\<lambda>(b, i). \<lparr>kv_Key = key, kv_Value = b, ModifyIndex = i\<rparr>) (view s key))"
    and cas_ok: "inv s \<Longrightarrow>
      (case view s (kv_Key p) of None \<Rightarrow> ModifyIndex p = 0 | Some (b, i) \<Rightarrow> ModifyIndex p = i) \<Longrightarrow>
      fst (KV_CAS c p s) = Inr True"
begin

text \<open>Without other clients the first attempt succeeds.\<close>

lemma CAS_quiet:
  assumes "inv s" "holds_value factory s key inp" "f inp v = Ret ((Some out, retry, None), v')" "encode factory out = Inr b"
  shows "\<exists>s' i. CAS c factory key f (\<lambda>n s. s) s v = Ret (None, s', v') \<and> inv s' \<and> view s' = (view s)(key \<mapsto> (b, i))"
proof -
  define index' where "index' = (case view s key of None \<Rightarrow> 0 | Some (b, i) \<Rightarrow> i)"
  have read: "cas_read factory (map_option (\<lambda>(b, i). \<lparr>kv_Key = key, kv_Value = b, ModifyIndex = i\<rparr>) (view s key)) 0 = Inr (inp, index')"
    using assms(2) by (auto simp: cas_read_def index'_def holds_value_def split: option.splits)
  let ?p = "\<lparr>kv_Key = key, kv_Value = b, ModifyIndex = index'\<rparr>"
  have ok: "fst (KV_CAS c ?p s) = Inr True"
    by (rule cas_ok [OF assms(1)]) (auto simp: index'_def split: option.splits)
  then obtain s' where s': "KV_CAS c ?p s = (Inr True, s')" by (cases "KV_CAS c ?p s") simp
  have "CAS c factory key f (\<lambda>n s. s) s v = Ret (None, s', v')"
    unfolding CAS_def cas_retries_Suc cas_loop.simps(2) using read assms(3,4) s' by (simp add: get_ok [OF assms(1)] Let_def)
  then show ?thesis using cas_inv [OF assms(1) s'] cas_done [OF assms(1) s'] by auto
qed

end

section \<open>An in-memory Consul\<close>

record Consul =
  c_pairs :: "string \<rightharpoonup> bytes \<times> nat"
  c_index :: nat

definition mem_Get :: "string \<Rightarrow> Consul \<Rightarrow> err + KVPair option" where
  "mem_Get key s = Inr (map_option (\<lambda>(b, i). \<lparr>kv_Key = key, kv_Value = b, ModifyIndex = i\<rparr>) (c_pairs s key))"

definition mem_write :: "string \<Rightarrow> bytes \<Rightarrow> Consul \<Rightarrow> Consul" where
  "mem_write key b s = s\<lparr>c_pairs := (c_pairs s)(key \<mapsto> (b, c_index s + 1)), c_index := c_index s + 1\<rparr>"

definition mem_delete :: "string \<Rightarrow> Consul \<Rightarrow> Consul" where
  "mem_delete key s = s\<lparr>c_pairs := (c_pairs s)(key := None), c_index := c_index s + 1\<rparr>"

definition mem_CAS :: "KVPair \<Rightarrow> Consul \<Rightarrow> (err + bool) \<times> Consul" where
  "mem_CAS p s =
     (if ModifyIndex p = (case c_pairs s (kv_Key p) of None \<Rightarrow> 0 | Some (b, i) \<Rightarrow> i)
      then (Inr True, mem_write (kv_Key p) (kv_Value p) s)
      else (Inr False, s))"

definition mem_kv :: "Consul kv" where
  "mem_kv = \<lparr>KV_CAS = mem_CAS, KV_Get = mem_Get, KV_Put = (\<lambda>key b s. (None, mem_write key b s))\<rparr>"

definition mem_inv :: "Consul \<Rightarrow> bool" where
  "mem_inv s \<longleftrightarrow> (\<forall>k b i. c_pairs s k = Some (b, i) \<longrightarrow> 0 < i \<and> i \<le> c_index s)"

lemma mem_write_ok:
  "mem_inv s \<Longrightarrow> mem_inv (mem_write key b s) \<and> evolves c_pairs c_index s (mem_write key b s)"
  by (fastforce simp: mem_inv_def mem_write_def evolves_def)

lemma mem_delete_ok:
  "mem_inv s \<Longrightarrow> mem_inv (mem_delete key s) \<and> evolves c_pairs c_index s (mem_delete key s)"
  by (fastforce simp: mem_inv_def mem_delete_def evolves_def)

interpretation memconsul: consul_live mem_kv c_pairs c_index mem_inv
proof
  show "mem_inv s \<Longrightarrow> c_pairs s k = Some (b, i) \<Longrightarrow> 0 < i \<and> i \<le> c_index s" for s k b i
    by (simp add: mem_inv_def)
  show "mem_inv s \<Longrightarrow> KV_CAS mem_kv p s = (r, s') \<Longrightarrow> mem_inv s' \<and> evolves c_pairs c_index s s'" for s p r s'
    using mem_write_ok [of s] by (auto simp: mem_kv_def mem_CAS_def split: if_splits)
qed (auto simp: mem_kv_def mem_Get_def mem_CAS_def mem_write_def split: if_splits option.splits)

section \<open>Watching keeps up\<close>

text \<open>
  Answers are honest if the last index identifies the value: equal indices, equal pairs. The
  initial index 0 is never an answer's.
\<close>

definition honest :: "KVPair option round list \<Rightarrow> bool" where
  "honest rs \<longleftrightarrow>
     (\<forall>c k i d c' k' i' d'. (c, Inr (k, i), d) \<in> set rs \<longrightarrow> (c', Inr (k', i'), d') \<in> set rs \<longrightarrow> i = i' \<longrightarrow> k = k') \<and>
     (\<forall>c k d. (c, Inr (k, 0), d) \<notin> set rs)"

text \<open>The last pair that was answered and decodes.\<close>

fun latest :: "'a Factory \<Rightarrow> KVPair option round list \<Rightarrow> 'a option" where
  "latest factory [] = None"
| "latest factory ((c, resp, d) # rs) =
     (case latest factory rs of
        Some a \<Rightarrow> Some a
      | None \<Rightarrow>
          (case resp of
             Inr (Some p, i) \<Rightarrow> (case decode factory (kv_Value p) of Inr a \<Rightarrow> Some a | Inl e \<Rightarrow> None)
           | _ \<Rightarrow> None))"

text \<open>A callback that keeps every value it is given and goes on.\<close>

definition keeps :: "('a option \<Rightarrow> 'c \<Rightarrow> 'c \<times> bool) \<Rightarrow> ('c \<Rightarrow> 'a) \<Rightarrow> bool" where
  "keeps f cur \<longleftrightarrow> (\<forall>a v. snd (f a v) \<and> cur (fst (f a v)) = (case a of None \<Rightarrow> cur v | Some x \<Rightarrow> x))"

text \<open>What was seen before: the value answered with the current index has been taken over.\<close>

definition caught_up :: "'a Factory \<Rightarrow> KVPair option round list \<Rightarrow> nat \<Rightarrow> 'a \<Rightarrow> bool" where
  "caught_up factory rs index x \<longleftrightarrow>
     (\<forall>c p d a. (c, Inr (Some p, index), d) \<in> set rs \<longrightarrow> decode factory (kv_Value p) = Inr a \<longrightarrow> x = a)"

lemma honest_tl: "honest (r # rs) \<Longrightarrow> honest rs"
  unfolding honest_def list.set by blast

lemma watch_key_latest:
  assumes "keeps f cur" "honest rs" "\<forall>(closed, _, _) \<in> set rs. \<not> closed" "caught_up factory rs index (cur v)"
  shows "cur (watch_key factory f rs index b v) = (case latest factory rs of None \<Rightarrow> cur v | Some a \<Rightarrow> a)"
  using assms(2-4)
proof (induction rs arbitrary: index b v)
  case Nil
  then show ?case by simp
next
  case (Cons r rs)
  obtain c resp d where r: "r = (c, resp, d)" by (cases r)
  have nc: "\<not> c" and rest: "honest rs" "\<forall>(closed, _, _) \<in> set rs. \<not> closed"
    using Cons.prems honest_tl by (auto simp: r)
  have tl: "caught_up factory rs index (cur v)" using Cons.prems(3) by (simp add: caught_up_def)
  have kp: "\<exists>v'. f a v = (v', True) \<and> cur v' = (case a of None \<Rightarrow> cur v | Some x \<Rightarrow> x)" for a
    using assms(1) unfolding keeps_def by (metis prod.collapse)
  show ?case
  proof (cases resp)
    case (Inl e)
    then show ?thesis using Cons.IH [OF rest tl] nc by (simp add: r split: option.splits)
  next
    case (Inr x)
    obtain kvp i where x: "x = (kvp, i)" by (cases x)
    have det: "kvp = Some p" if "(c', Inr (Some p, i), d') \<in> set rs" for c' p d'
      using Cons.prems(1) that unfolding honest_def r Inr x by (metis list.set_intros)
    have seen: "caught_up factory rs i y"
      if "\<forall>p a. kvp = Some p \<longrightarrow> decode factory (kv_Value p) = Inr a \<longrightarrow> y = a" for y
      using that det unfolding caught_up_def by blast
    show ?thesis
    proof (cases "index = i")
      case True
      have "cur v = a" if "kvp = Some p" "decode factory (kv_Value p) = Inr a" for p a
        using Cons.prems(3) that True unfolding caught_up_def r Inr x by (metis list.set_intros(1))
      then show ?thesis
        using Cons.IH [OF rest tl] nc True by (auto simp: r Inr x split: option.splits sum.splits)
    next
      case False
      show ?thesis
      proof (cases kvp)
        case None
        obtain v' where "f None v = (v', True)" "cur v' = cur v" using kp [of None] by auto
        then show ?thesis
          using Cons.IH [OF rest seen, of v'] nc False None by (simp add: r Inr x split: option.splits)
      next
        case (Some p)
        show ?thesis
        proof (cases "decode factory (kv_Value p)")
          case (Inl e)
          then show ?thesis
            using Cons.IH [OF rest seen, of v] nc False Some by (simp add: r Inr x split: option.splits)
        next
          case dec: (Inr a)
          obtain v' where "f (Some a) v = (v', True)" "cur v' = a" using kp [of "Some a"] by auto
          then show ?thesis
            using Cons.IH [OF rest seen, of v'] nc False Some dec by (simp add: r Inr x split: option.splits)
        qed
      qed
    qed
  qed
qed

section \<open>Properties\<close>


definition string_factory :: "string Factory" where
  "string_factory = \<lparr>decode = Inr, encode = Inr\<rparr>"

definition append_x :: "(string, unit) CASCallback" where
  "append_x inp v = Ret ((Some ((case inp of None \<Rightarrow> [] | Some s \<Rightarrow> s) @ ''x''), True, None), v)"

definition empty_consul :: Consul where
  "empty_consul = \<lparr>c_pairs = Map.empty, c_index = 0\<rparr>"

definition racing :: "nat \<Rightarrow> Consul \<Rightarrow> Consul" where
  "racing n s = (if n = 18 then mem_write ''k'' ''r'' s else s)"


text \<open>
  If no other client interferes, \<open>CAS\<close> succeeds at the first attempt and stores the
  callback's value, provided the stored value decodes and the new one encodes.
\<close>

lemma consul_CAS_quiet:
  assumes "mem_inv s" "case c_pairs s key of None \<Rightarrow> inp = None | Some (b0, _) \<Rightarrow> map_option Inr inp = Some (decode factory b0)"
    and "f inp v = Ret ((Some out, retry, None), v')" "encode factory out = Inr b"
  shows "\<exists>s' i. CAS mem_kv factory key f (\<lambda>n s. s) s v = Ret (None, s', v') \<and> mem_inv s' \<and> c_pairs s' = (c_pairs s)(key \<mapsto> (b, i))"
proof (rule memconsul.CAS_quiet [where factory = factory and inp = inp])
  show "memconsul.holds_value factory s key inp"
    using assms(2) by (cases inp) (auto simp: memconsul.holds_value_def split: option.splits)
qed (rule assms)+

definition deleter :: "nat \<Rightarrow> Consul \<Rightarrow> Consul" where
  "deleter n s = (if n = 18 then mem_write ''k'' ''r'' s else if n = 17 then mem_delete ''k'' s else s)"


text \<open>
  The back-off starts at one second, doubles with every failure and never exceeds one
  minute.
\<close>

lemma backoff_bounded: "backoff_waits n initialBackoff = min (initialBackoff * 2 ^ n) maxBackoff"
proof -
  have "0 < b \<Longrightarrow> b \<le> maxBackoff \<Longrightarrow> backoff_waits n b = min (b * 2 ^ n) maxBackoff" for b
  proof (induction n arbitrary: b)
    case (Suc n)
    have w: "backoff_wait False b = min (b * 2) maxBackoff" by (simp add: backoff_wait_def Let_def)
    then have "backoff_waits (Suc n) b = min (min (b * 2) maxBackoff * 2 ^ n) maxBackoff"
      using Suc.IH [of "min (b * 2) maxBackoff"] Suc.prems by (simp add: maxBackoff_def)
    also have "\<dots> = min (b * 2 ^ Suc n) maxBackoff"
    proof (cases "b * 2 \<le> maxBackoff")
      case False
      have "1 \<le> (2 :: int) ^ n" by simp
      then have "maxBackoff \<le> maxBackoff * 2 ^ n" "maxBackoff \<le> b * 2 * 2 ^ n"
        using False Suc.prems mult_mono [of maxBackoff "b * 2" 1 "2 ^ n :: int"] by (simp_all add: maxBackoff_def)
      then show ?thesis using False by (simp add: mult.assoc)
    qed (simp add: mult.assoc)
    finally show ?case .
  qed (simp add: min_def)
  then show ?thesis by (simp add: initialBackoff_def maxBackoff_def)
qed

end
