(* ===== verification/Ring_Watch.thy ===== *)
theory Ring_Watch
  imports Ring_Lookup Consul_Client
begin

text \<open>
  The loop of the ring (\<open>ring/ring.go\<close>, \<open>loop\<close>): it watches the ring's key in Consul and
  replaces its copy of the ring by every value it is given.
\<close>

definition ring_loop :: "Desc Factory \<Rightarrow> KVPair option round list \<Rightarrow> Ring \<Rightarrow> Ring" where
  "ring_loop factory rounds r = WatchKey factory ring_update rounds r"

text \<open>A new ring holds the zero description until Consul has answered.\<close>

definition ring_New :: Ring where
  "ring_New = \<lparr>ringDesc = \<lparr>Ingesters = Map.empty, Tokens = []\<rparr>\<rparr>"

lemma ring_New_empty: "ring_Get ring_New key = Inl ErrEmptyRing"
  by (simp add: ring_New_def ring_Get_def)

lemma keeps_ring_update: "keeps ring_update ringDesc"
  by (simp add: keeps_def ring_update_def split: option.splits)

text \<open>
  As long as the ring is not stopped, its copy is the last ring that Consul answered
  with and that decodes: errors, repeated answers, a missing key and values that do not decode
  leave it as it is, whatever their number and order.
\<close>

lemma ring_follows_consul:
  assumes "honest rounds" "\<forall>(closed, _, _) \<in> set rounds. \<not> closed"
  shows "ringDesc (ring_loop factory rounds r) =
    (case latest factory rounds of None \<Rightarrow> ringDesc r | Some d \<Rightarrow> d)"
proof -
  have "caught_up factory rounds 0 (ringDesc r)"
    using assms(1) unfolding caught_up_def honest_def by blast
  then show ?thesis
    unfolding ring_loop_def WatchKey_def by (rule watch_key_latest [OF keeps_ring_update assms])
qed

end
