(* ===== verification/Ingester_Lifecycle.thy ===== *)
theory Ingester_Lifecycle
  imports Ring_Lookup Consul_Client
begin

text \<open>
  The life of an ingester's registration (\<open>ring/ingester_lifecycle.go\<close>): it picks tokens
  that nobody has, writes them to the ring in Consul, refreshes its timestamp, re-inserts
  itself when the ring was lost, and takes itself out when it stops. The callbacks run inside
  \<open>CAS\<close>; the random numbers of the k-th call of \<open>generateTokens\<close> and the clock of the
  k-th callback are arguments.
\<close>

section \<open>generateTokens\<close>

text \<open>
  The loop draws until it has enough; \<open>None\<close> is a run that never ends (every further draw
  is taken). The result carries the number of draws.
\<close>

definition is_taken :: "32 word list \<Rightarrow> 32 word \<Rightarrow> bool" where
  "is_taken takenTokens candidate =
     (let j = search (length takenTokens) (\<lambda>i. takenTokens ! i \<ge> candidate)
      in j < length takenTokens \<and> takenTokens ! j = candidate)"

partial_function (option) generate_loop ::
  "(nat \<Rightarrow> 32 word) \<Rightarrow> 32 word list \<Rightarrow> nat \<Rightarrow> nat \<Rightarrow> 32 word list \<Rightarrow> 32 word list option" where
  "generate_loop rnd takenTokens missing pos tokens =
     (if missing = 0 then Some tokens
      else if is_taken takenTokens (rnd pos) then generate_loop rnd takenTokens missing (pos + 1) tokens
      else generate_loop rnd takenTokens (missing - 1) (pos + 1) (tokens @ [rnd pos]))"

definition generateTokens :: "(nat \<Rightarrow> 32 word) \<Rightarrow> nat \<Rightarrow> 32 word list \<Rightarrow> 32 word list option" where
  "generateTokens rnd numTokens takenTokens =
     (case generate_loop rnd takenTokens numTokens 0 [] of
        None \<Rightarrow> None
      | Some tokens \<Rightarrow> Some (sort_slice (\<lambda>t. t) tokens))"

section \<open>The registration\<close>

record IngesterRegistration =
  numTokens :: nat
  reg_id :: string
  reg_hostname :: string

definition consulKey :: string where "consulKey = ''ring''"

text \<open>The variables the callbacks close over: the number of calls so far and the tokens.\<close>

type_synonym closure = "nat \<times> 32 word list"

definition cur_desc :: "Desc option \<Rightarrow> Desc" where
  "cur_desc inp = (case inp of None \<Rightarrow> newDesc | Some d \<Rightarrow> d)"

definition pick_callback :: "IngesterRegistration \<Rightarrow> (nat \<Rightarrow> nat \<Rightarrow> 32 word) \<Rightarrow> (nat \<Rightarrow> int) \<Rightarrow> (Desc, closure) CASCallback" where
  "pick_callback r rnds now inp v =
     (let desc = cur_desc inp;
          takenTokens = map Token (Tokens desc)
      in case generateTokens (rnds (fst v)) (numTokens r) takenTokens of
           None \<Rightarrow> Blocked
         | Some tokens \<Rightarrow>
             Ret ((Some (addIngester (now (fst v)) (reg_id r) (reg_hostname r) tokens desc), True, None),
                  (fst v + 1, tokens)))"

definition pickTokens ::
  "'s kv \<Rightarrow> Desc Factory \<Rightarrow> IngesterRegistration \<Rightarrow> (nat \<Rightarrow> nat \<Rightarrow> 32 word) \<Rightarrow> (nat \<Rightarrow> int) \<Rightarrow> (nat \<Rightarrow> 's \<Rightarrow> 's) \<Rightarrow>
   's \<Rightarrow> (32 word list \<times> 's) go" where
  "pickTokens c factory r rnds now others s =
     bind_go (CAS c factory consulKey (pick_callback r rnds now) others s (0, [])) (\<lambda>(e, s', v).
       case e of
         Some e' \<Rightarrow> Panic (''Failed to pick tokens in consul: '' @ msg e')
       | None \<Rightarrow> Ret (snd v, s'))"

definition heartbeat_callback :: "IngesterRegistration \<Rightarrow> 32 word list \<Rightarrow> (nat \<Rightarrow> int) \<Rightarrow> (Desc, nat) CASCallback" where
  "heartbeat_callback r tokens now inp v =
     (let desc = cur_desc inp
      in case Ingesters desc (reg_id r) of
           None \<Rightarrow> Ret ((Some (addIngester (now v) (reg_id r) (reg_hostname r) tokens desc), True, None), v + 1)
         | Some ingesterDesc \<Rightarrow>
             Ret ((Some (desc\<lparr>Ingesters := (Ingesters desc)(reg_id r \<mapsto> ingesterDesc\<lparr>Timestamp := now v\<rparr>)\<rparr>), True, None), v + 1))"

text \<open>One tick of the heartbeat; a failed write is logged and the next tick tries again.\<close>

definition heartbeat_tick ::
  "'s kv \<Rightarrow> Desc Factory \<Rightarrow> IngesterRegistration \<Rightarrow> 32 word list \<Rightarrow> (nat \<Rightarrow> int) \<Rightarrow> (nat \<Rightarrow> 's \<Rightarrow> 's) \<Rightarrow> nat \<Rightarrow> 's \<Rightarrow> 's go" where
  "heartbeat_tick c factory r tokens now others v s =
     bind_go (CAS c factory consulKey (heartbeat_callback r tokens now) others s v) (\<lambda>(e, s', v'). Ret s')"

fun heartbeat ::
  "'s kv \<Rightarrow> Desc Factory \<Rightarrow> IngesterRegistration \<Rightarrow> 32 word list \<Rightarrow> (nat \<Rightarrow> int) \<Rightarrow> (nat \<Rightarrow> nat \<Rightarrow> 's \<Rightarrow> 's) \<Rightarrow> nat \<Rightarrow> 's \<Rightarrow> 's go" where
  "heartbeat c factory r tokens now others 0 s = Ret s"
| "heartbeat c factory r tokens now others (Suc n) s =
     bind_go (heartbeat_tick c factory r tokens now (others n) n s) (heartbeat c factory r tokens now others n)"

definition unregister_callback :: "IngesterRegistration \<Rightarrow> 32 word list \<Rightarrow> (Desc, unit) CASCallback" where
  "unregister_callback r tokens inp v =
     (case inp of
        None \<Rightarrow> Ret ((None, False, Some (Err ''found empty ring when trying to unregister'')), v)
      | Some desc \<Rightarrow> Ret ((Some (removeIngester (reg_id r) tokens desc), True, None), v))"

definition unregister ::
  "'s kv \<Rightarrow> Desc Factory \<Rightarrow> IngesterRegistration \<Rightarrow> 32 word list \<Rightarrow> (nat \<Rightarrow> 's \<Rightarrow> 's) \<Rightarrow> 's \<Rightarrow> 's go" where
  "unregister c factory r tokens others s =
     bind_go (CAS c factory consulKey (unregister_callback r tokens) others s ()) (\<lambda>(e, s', v).
       case e of
         Some e' \<Rightarrow> Panic (''Failed to unregister from consul: '' @ msg e')
       | None \<Rightarrow> Ret s')"

text \<open>
  The whole loop: \<open>ticks\<close> heartbeats happen before \<open>quit\<close> is closed. What the other
  clients do is an argument of each of the three parts.
\<close>

definition reg_loop ::
  "'s kv \<Rightarrow> Desc Factory \<Rightarrow> IngesterRegistration \<Rightarrow> (nat \<Rightarrow> nat \<Rightarrow> 32 word) \<Rightarrow> (nat \<Rightarrow> int) \<Rightarrow>
   (nat \<Rightarrow> 's \<Rightarrow> 's) \<Rightarrow> (nat \<Rightarrow> nat \<Rightarrow> 's \<Rightarrow> 's) \<Rightarrow> (nat \<Rightarrow> 's \<Rightarrow> 's) \<Rightarrow> nat \<Rightarrow> 's \<Rightarrow> 's go" where
  "reg_loop c factory r rnds now o1 o2 o3 ticks s =
     bind_go (pickTokens c factory r rnds now o1 s) (\<lambda>(tokens, s1).
     bind_go (heartbeat c factory r tokens now o2 ticks s1) (\<lambda>s2.
     unregister c factory r tokens o3 s2))"

section \<open>Registering\<close>

text \<open>
  An address of a network interface: an \<open>IPNet\<close>, with whether it has an IPv4 form and its
  text, or an address of another type. The operating system's answers are arguments.
\<close>

datatype Addr = IPNet bool string | OtherAddr

fun first_ip4 :: "Addr list \<Rightarrow> string option" where
  "first_ip4 [] = None"
| "first_ip4 (IPNet is4 text # as) = (if is4 then Some text else first_ip4 as)"
| "first_ip4 (OtherAddr # as) = first_ip4 as"

definition getFirstAddressOf :: "(string \<Rightarrow> err + (err + Addr list)) \<Rightarrow> string \<Rightarrow> err + string" where
  "getFirstAddressOf InterfaceByName name =
     (case InterfaceByName name of
        Inl e \<Rightarrow> Inl e
      | Inr addrs \<Rightarrow>
     (case addrs of
        Inl e \<Rightarrow> Inl e
      | Inr as \<Rightarrow>
          if length as \<le> 0 then Inl (Err (''No address found for '' @ name))
          else (case first_ip4 as of
                  Some a \<Rightarrow> Inr a
                | None \<Rightarrow> Inl (Err (''No address found for '' @ name)))))"

definition infName :: string where "infName = ''eth0''"

definition RegisterIngester ::
  "(err + string) \<Rightarrow> (string \<Rightarrow> err + (err + Addr list)) \<Rightarrow> int \<Rightarrow> nat \<Rightarrow> err + IngesterRegistration" where
  "RegisterIngester os_Hostname InterfaceByName listenPort n =
     (case os_Hostname of
        Inl e \<Rightarrow> Inl e
      | Inr hostname \<Rightarrow>
     (case getFirstAddressOf InterfaceByName infName of
        Inl e \<Rightarrow> Inl e
      | Inr addr \<Rightarrow>
          Inr \<lparr>numTokens = n, reg_id = hostname, reg_hostname = addr @ '':'' @ show_int listenPort\<rparr>))"

lemma first_ip4_Some:
  "first_ip4 as = Some a \<longleftrightarrow> (\<exists>us vs. as = us @ IPNet True a # vs \<and> (\<forall>t. IPNet True t \<notin> set us))"
proof (induction "as" rule: first_ip4.induct)
  case (2 is4 txt' l)
  show ?case
  proof (cases is4)
    case True
    then show ?thesis by (auto simp: Cons_eq_append_conv)
  next
    case False
    then show ?thesis using 2 by (auto simp: Cons_eq_append_conv) (metis Addr.inject set_ConsD)+
  qed
next
  case (3 l)
  then show ?case by (auto simp: Cons_eq_append_conv) (metis Addr.distinct(1) set_ConsD)+
qed simp

text \<open>
  A registration advertises the first IPv4 address of the interface with the listening port, so
  two ingesters with different ports or addresses never advertise the same.
\<close>

lemma register_address:
  assumes "RegisterIngester h ifs port n = Inr r" "RegisterIngester h' ifs' port' n' = Inr r'"
    and "getFirstAddressOf ifs infName = Inr a" "getFirstAddressOf ifs' infName = Inr a'"
    and "CHR '':'' \<notin> set a" "CHR '':'' \<notin> set a'"
  shows "reg_hostname r = reg_hostname r' \<longleftrightarrow> a = a' \<and> port = port'"
proof -
  have "reg_hostname r = a @ CHR '':'' # show_int port" "reg_hostname r' = a' @ CHR '':'' # show_int port'"
    using assms(1-4) by (auto simp: RegisterIngester_def split: sum.splits)
  then show ?thesis using sep_inj [OF assms(5,6)] show_int_inj by metis
qed

section \<open>Choosing tokens\<close>

lemma is_taken_iff: "sorted taken \<Longrightarrow> is_taken taken x \<longleftrightarrow> x \<in> set taken"
proof -
  assume srt: "sorted taken"
  let ?L = "filter (\<lambda>y. y < x) taken" and ?R = "filter (\<lambda>y. \<not> y < x) taken"
  have split: "?L @ ?R = taken" using sorted_split_filter [of "\<lambda>y. y" taken "\<lambda>y. y < x"] srt by auto
  have s: "search (length taken) (\<lambda>i. taken ! i \<ge> x) = length ?L"
    using gosearch.search_ge [of "\<lambda>y. y" taken x] srt by simp
  have sR: "sorted ?R" using srt by (rule sorted_wrt_filter)
  show ?thesis
  proof (cases ?R)
    case Nil
    then have "x \<notin> set taken" by (auto simp: filter_empty_conv)
    then show ?thesis using s split Nil by (auto simp: is_taken_def Let_def)
  next
    case (Cons y ys)
    have nth: "taken ! length ?L = y" using Cons by (subst split [symmetric]) simp
    have len: "length ?L < length taken" using arg_cong [OF split, of length] Cons by simp
    have "x \<in> set taken \<longleftrightarrow> x \<in> set ?R" by simp
    also have "\<dots> \<longleftrightarrow> y = x"
    proof -
      have "y \<in> set ?R" using Cons by simp
      then have "x \<le> y" by auto
      moreover have "y \<le> x" if "x \<in> set ?R" using that sR unfolding Cons by auto
      ultimately show ?thesis using Cons by (metis list.set_intros(1) order_antisym)
    qed
    finally show ?thesis using s nth len by (simp add: is_taken_def Let_def)
  qed
qed

lemma generate_loop_sound:
  assumes "generate_loop rnd taken missing pos tokens = Some out" "sorted taken"
  shows "\<exists>new. out = tokens @ new \<and> length new = missing \<and> set new \<inter> set taken = {} \<and> set new \<subseteq> range rnd"
  using assms
proof (induction rule: generate_loop.raw_induct [rotated, consumes 1])
  case (1 gl rnd taken missing pos tokens out)
  then show ?case
  proof (cases "missing = 0")
    case False
    show ?thesis
    proof (cases "is_taken taken (rnd pos)")
      case True
      then show ?thesis using 1 False by simp
    next
      case nt: False
      then obtain new where "out = (tokens @ [rnd pos]) @ new" "length new = missing - 1" "set new \<inter> set taken = {}"
        "set new \<subseteq> range rnd"
        using 1 False by fastforce
      then show ?thesis using nt is_taken_iff [OF 1(3)] False by (intro exI [of _ "rnd pos # new"]) auto
    qed
  qed simp
qed

text \<open>If free tokens keep being drawn, the loop ends.\<close>

lemma generate_loop_total:
  assumes "sorted taken" "\<forall>p. \<exists>q\<ge>p. rnd q \<notin> set taken"
  shows "\<exists>out. generate_loop rnd taken missing pos tokens = Some out"
proof (induction missing arbitrary: pos tokens)
  case 0
  show ?case by (subst generate_loop.simps) simp
next
  case (Suc n)
  obtain q where q: "pos \<le> q" "rnd q \<notin> set taken" using assms(2) by blast
  then show ?case
  proof (induction "q - pos" arbitrary: pos)
    case 0
    then show ?case using Suc.IH is_taken_iff [OF assms(1)] by (subst generate_loop.simps) simp
  next
    case (Suc m)
    then have "m = q - (pos + 1)" "pos + 1 \<le> q" by simp_all
    then have "\<exists>out. generate_loop rnd taken (Suc n) (pos + 1) tokens = Some out" using Suc.hyps(1) q(2) by blast
    then show ?case using \<open>\<And>pos tokens. \<exists>out. generate_loop rnd taken n pos tokens = Some out\<close>
      by (subst generate_loop.simps) simp
  qed
qed

lemma generateTokens_spec:
  assumes "generateTokens rnd n taken = Some tokens" "sorted taken"
  shows "length tokens = n \<and> sorted tokens \<and> set tokens \<inter> set taken = {}"
proof -
  obtain out where out: "generate_loop rnd taken n 0 [] = Some out" "tokens = sort_slice (\<lambda>t. t) out"
    using assms(1) by (auto simp: generateTokens_def split: option.splits)
  obtain new where "out = [] @ new" "length new = n" "set new \<inter> set taken = {}"
    using generate_loop_sound [OF out(1) assms(2)] by blast
  then show ?thesis
    using gosort.sort_set [of "\<lambda>t. t" out] gosort.sort_length [of "\<lambda>t. t" out] gosort.sort_sorted [of "\<lambda>t. t" out]
    by (simp add: out(2))
qed

section \<open>The life of a registration\<close>

lemma heartbeat_refreshes:
  "heartbeat_callback r ks now (Some (addIngester t (reg_id r) (reg_hostname r) ks d)) v =
     Ret ((Some (addIngester (now v) (reg_id r) (reg_hostname r) ks d), True, None), v + 1)"
  by (simp add: heartbeat_callback_def cur_desc_def Ingesters_add) (simp add: addIngester_def)

lemma heartbeat_present:
  "\<exists>d'. heartbeat_callback r ks now inp v = Ret ((Some d', True, None), v + 1) \<and>
     reg_id r \<in> dom (Ingesters d') \<and> (wf_desc (cur_desc inp) \<longrightarrow> wf_desc d') \<and>
     (\<forall>i. i \<noteq> reg_id r \<longrightarrow> Ingesters d' i = Ingesters (cur_desc inp) i)"
proof (cases "Ingesters (cur_desc inp) (reg_id r)")
  case None
  then show ?thesis by (auto simp: heartbeat_callback_def Let_def Ingesters_add wf_addIngester)
next
  case (Some x)
  then show ?thesis by (auto simp: heartbeat_callback_def Let_def wf_desc_def)
qed

text \<open>A codec that reads back what it wrote, for the values of a set.\<close>

definition lossless :: "'a Factory \<Rightarrow> 'a set \<Rightarrow> bool" where
  "lossless factory D \<longleftrightarrow> (\<forall>a\<in>D. \<exists>b. encode factory a = Inr b \<and> decode factory b = Inr a)"

text \<open>The rings that occur in the life of a registration that finds the ring \<open>d\<close>.\<close>

definition own_rings :: "IngesterRegistration \<Rightarrow> 32 word list \<Rightarrow> (nat \<Rightarrow> int) \<Rightarrow> Desc \<Rightarrow> Desc set" where
  "own_rings r ks now d = insert d (range (\<lambda>k. addIngester (now k) (reg_id r) (reg_hostname r) ks d))"

context consul_live
begin

text \<open>The ring the key holds.\<close>

definition stores :: "Desc Factory \<Rightarrow> 's \<Rightarrow> Desc \<Rightarrow> bool" where
  "stores factory s d \<longleftrightarrow> inv s \<and> (\<exists>b i. view s consulKey = Some (b, i) \<and> decode factory b = Inr d)"

lemma CAS_stores:
  assumes "lossless factory D" "d' \<in> D" "stores factory s d" "f (Some d) v = Ret ((Some d', retry, None), v')"
  shows "\<exists>s'. CAS c factory consulKey f (\<lambda>n s. s) s v = Ret (None, s', v') \<and> stores factory s' d'"
proof -
  obtain b where b: "encode factory d' = Inr b" "decode factory b = Inr d'" using assms(1,2) by (auto simp: lossless_def)
  have "inv s" "holds_value factory s consulKey (Some d)" using assms(3) by (auto simp: stores_def holds_value_def)
  from CAS_quiet [where f = f, OF this assms(4) b(1)] obtain s' i where
    "CAS c factory consulKey f (\<lambda>n s. s) s v = Ret (None, s', v')" "inv s'" "view s' = (view s)(consulKey \<mapsto> (b, i))"
    by blast
  then show ?thesis using b(2) by (auto simp: stores_def)
qed

lemma heartbeat_stores:
  assumes "lossless factory (own_rings r ks now d)" "stores factory s (addIngester t (reg_id r) (reg_hostname r) ks d)"
  shows "\<exists>s' t'. heartbeat c factory r ks now (\<lambda>m n s. s) ticks s = Ret s' \<and>
    stores factory s' (addIngester t' (reg_id r) (reg_hostname r) ks d)"
  using assms(2)
proof (induction ticks arbitrary: s t)
  case 0
  then show ?case by auto
next
  case (Suc n)
  obtain s1 where "CAS c factory consulKey (heartbeat_callback r ks now) (\<lambda>n s. s) s n = Ret (None, s1, n + 1)"
    "stores factory s1 (addIngester (now n) (reg_id r) (reg_hostname r) ks d)"
    using CAS_stores [where f = "heartbeat_callback r ks now", OF assms(1) _ Suc.prems heartbeat_refreshes [of r ks now t d n]]
    by (auto simp: own_rings_def)
  then show ?case using Suc.IH by (simp add: heartbeat_tick_def)
qed

lemma reg_loop_restores:
  assumes "lossless factory (own_rings r ks now d)" "stores factory s d" "wf_desc d" "distinct_tokens d" "Ingesters d (reg_id r) = None"
    and "generateTokens (rnds 0) (numTokens r) (map Token (Tokens d)) = Some ks" "distinct ks"
  shows "\<exists>s'. reg_loop c factory r rnds now (\<lambda>n s. s) (\<lambda>m n s. s) (\<lambda>n s. s) ticks s = Ret s' \<and> stores factory s' d"
proof -
  have srt: "sorted (map Token (Tokens d))" using assms(3) by (simp add: wf_desc_def)
  have ks: "sorted ks" "set ks \<inter> Token ` set (Tokens d) = {}"
    using generateTokens_spec [OF assms(6) srt] by simp_all
  let ?A = "\<lambda>t. addIngester t (reg_id r) (reg_hostname r) ks d"
  have cb: "pick_callback r rnds now (Some d) (0, []) = Ret ((Some (?A (now 0)), True, None), (1, ks))"
    using assms(6) by (simp add: pick_callback_def cur_desc_def)
  obtain s1 where s1: "CAS c factory consulKey (pick_callback r rnds now) (\<lambda>n s. s) s (0, []) = Ret (None, s1, (1, ks))"
    "stores factory s1 (?A (now 0))"
    using CAS_stores [where f = "pick_callback r rnds now", OF assms(1) _ assms(2) cb] by (auto simp: own_rings_def)
  obtain s2 t where s2: "heartbeat c factory r ks now (\<lambda>m n s. s) ticks s1 = Ret s2" "stores factory s2 (?A t)"
    using heartbeat_stores [OF assms(1) s1(2)] by blast
  have "unregister_callback r ks (Some (?A t)) () = Ret ((Some d, True, None), ())"
    using remove_add [OF assms(3-5) ks(1) assms(7) ks(2)] by (simp add: unregister_callback_def)
  then obtain s3 where "CAS c factory consulKey (unregister_callback r ks) (\<lambda>n s. s) s2 () = Ret (None, s3, ())"
    "stores factory s3 d"
    using CAS_stores [where f = "unregister_callback r ks", OF assms(1) _ s2(2)] by (auto simp: own_rings_def)
  then show ?thesis using s1(1) s2(1) by (simp add: reg_loop_def pickTokens_def unregister_def)
qed

end

section \<open>Properties\<close>

text \<open>
  C39: if free tokens keep being drawn, \<open>generateTokens\<close> ends, and it returns exactly
  \<open>numTokens\<close> tokens, sorted and none of them taken.
\<close>

theorem generateTokens_total:
  assumes "sorted taken" "\<forall>p. \<exists>q\<ge>p. rnd q \<notin> set taken"
  shows "\<exists>tokens. generateTokens rnd n taken = Some tokens \<and> length tokens = n \<and> sorted tokens \<and> set tokens \<inter> set taken = {}"
proof -
  obtain out where "generate_loop rnd taken n 0 [] = Some out" using generate_loop_total [OF assms] by blast
  then have g: "generateTokens rnd n taken = Some (sort_slice (\<lambda>t. t) out)" by (simp add: generateTokens_def)
  with generateTokens_spec [OF g assms(1)] show ?thesis by blast
qed

theorem generateTokens_total_witness:
  "\<exists>tokens. generateTokens (\<lambda>_. 7) 3 [2, 5, 8] = Some tokens \<and> length tokens = 3 \<and> sorted tokens \<and> set tokens \<inter> set [2, 5, 8] = {}"
  by (rule generateTokens_total) auto

text \<open>
  C14: the life of a registration leaves no trace. Without interference, picking tokens, any
  number of heartbeats and unregistering succeed, and the ring in Consul is then the one that
  was there before, if the ingester was not in it and the tokens drawn are distinct.
\<close>

theorem lifecycle_restores_ring:
  assumes "lossless factory (own_rings r ks now d)" "mem_inv s" "c_pairs s consulKey = Some (b, i)" "decode factory b = Inr d"
    and "wf_desc d" "distinct_tokens d" "Ingesters d (reg_id r) = None"
    and "generateTokens (rnds 0) (numTokens r) (map Token (Tokens d)) = Some ks" "distinct ks"
  shows "\<exists>s' b' i'. reg_loop mem_kv factory r rnds now (\<lambda>n s. s) (\<lambda>m n s. s) (\<lambda>n s. s) ticks s = Ret s' \<and>
    c_pairs s' consulKey = Some (b', i') \<and> decode factory b' = Inr d"
proof -
  have "memconsul.stores factory s d" using assms(2-4) by (auto simp: memconsul.stores_def)
  from memconsul.reg_loop_restores [where rnds = rnds, OF assms(1) this assms(5-9)] show ?thesis
    unfolding memconsul.stores_def by blast
qed

definition reg_A :: IngesterRegistration where
  "reg_A = \<lparr>numTokens = 1, reg_id = ''A'', reg_hostname = ''a:1''\<rparr>"

definition alone_A :: Desc where
  "alone_A = addIngester 2 ''A'' ''a:1'' [5] newDesc"

text \<open>A codec for the empty ring and the ring with one ingester.\<close>

definition pair_factory :: "Desc Factory" where
  "pair_factory =
     \<lparr>decode = (\<lambda>b. if b = ''0'' then Inr newDesc else if b = ''1'' then Inr alone_A else Inl (Err ''no JSON'')),
      encode = (\<lambda>d. if d = newDesc then Inr ''0'' else if d = alone_A then Inr ''1'' else Inl (Err ''no ring''))\<rparr>"

lemma alone_A_neq: "alone_A \<noteq> newDesc"
proof
  assume "alone_A = newDesc"
  then have "set (Tokens alone_A) = set (Tokens newDesc)" by simp
  then show False by (simp add: alone_A_def set_Tokens_add mk_tokens_def newDesc_def)
qed

lemma generate_one: "generateTokens (\<lambda>_. 5) 1 [] = Some [5]"
  by (simp add: generateTokens_def generate_loop.simps is_taken_def Let_def search_def search_loop.simps sort_slice_def)

theorem lifecycle_restores_ring_witness:
  "\<exists>s' b' i'. reg_loop mem_kv pair_factory reg_A (\<lambda>_ _. 5) (\<lambda>_. 2) (\<lambda>n s. s) (\<lambda>m n s. s) (\<lambda>n s. s) 3
      \<lparr>c_pairs = [consulKey \<mapsto> (''0'', 1)], c_index = 1\<rparr> = Ret s' \<and>
    c_pairs s' consulKey = Some (b', i') \<and> decode pair_factory b' = Inr newDesc"
proof (rule lifecycle_restores_ring)
  show "lossless pair_factory (own_rings reg_A [5] (\<lambda>_. 2) newDesc)"
    using alone_A_neq by (auto simp: lossless_def own_rings_def reg_A_def pair_factory_def alone_A_def)
qed (auto simp: mem_inv_def pair_factory_def newDesc_def reg_A_def generate_one [simplified] wf_desc_def distinct_tokens_def)


definition one_consul :: Consul where
  "one_consul = \<lparr>c_pairs = [consulKey \<mapsto> (''0'', 1)], c_index = 1\<rparr>"


definition ring_B :: Desc where
  "ring_B = addIngester 1 ''B'' ''b:1'' [5] newDesc"

definition clash :: Desc where
  "clash = addIngester 2 ''A'' ''a:1'' [5] ring_B"

text \<open>
  Re-inserting an ingester into a ring that was lost can take a token that another
  ingester has got meanwhile, and unregistering then removes the other ingester's token and
  leaves the own one behind: lookups return an empty description.
\<close>

lemma heartbeat_clash:
  "wf_desc ring_B \<and> distinct_tokens ring_B \<and>
   heartbeat_callback reg_A [5] (\<lambda>_. 2) (Some ring_B) 0 = Ret ((Some clash, True, None), 1) \<and>
   \<not> distinct_tokens clash \<and>
   (\<forall>key. ring_Get \<lparr>ringDesc = removeIngester ''A'' [5] clash\<rparr> key = Inr zero_IngesterDesc)"
proof (intro conjI allI)
  have B: "Tokens ring_B = [\<lparr>Token = 5, Ingester = ''B''\<rparr>]" "Ingesters ring_B = [''B'' \<mapsto> \<lparr>Hostname = ''b:1'', Timestamp = 1\<rparr>]"
    by (simp_all add: ring_B_def addIngester_def newDesc_def mk_tokens_def sort_TokenDescs_def sort_slice_def)
  have C: "Tokens clash = [\<lparr>Token = 5, Ingester = ''B''\<rparr>, \<lparr>Token = 5, Ingester = ''A''\<rparr>]"
    by (simp add: clash_def B addIngester_def mk_tokens_def sort_TokenDescs_def sort_slice_def)
  show "wf_desc ring_B" by (simp add: ring_B_def wf_addIngester)
  show "distinct_tokens ring_B" by (simp add: distinct_tokens_def B)
  show "heartbeat_callback reg_A [5] (\<lambda>_. 2) (Some ring_B) 0 = Ret ((Some clash, True, None), 1)"
    by (simp add: heartbeat_callback_def cur_desc_def reg_A_def B(2) clash_def)
  show "\<not> distinct_tokens clash" by (simp add: distinct_tokens_def C)
  fix key
  let ?r = "\<lparr>ringDesc = removeIngester ''A'' [5] clash\<rparr>"
  have T: "Tokens (ringDesc ?r) = [\<lparr>Token = 5, Ingester = ''A''\<rparr>]" by (simp add: removeIngester_def C)
  then have "ring_search ?r key = 0" using ring_search_less [of ?r key] by simp
  then show "ring_Get ?r key = Inr zero_IngesterDesc"
    using T by (simp add: ring_Get_def Let_def removeIngester_def)
qed

end
