(* ===== verification/Ring_Process.thy ===== *)
theory Ring_Process
  imports Ring_Watch Ingester_Lifecycle
begin

text \<open>
  The two goroutines of the ring package as step relations, each with the caller that stops
  it: the ring's loop with \<open>Stop\<close> (\<open>ring/ring.go\<close>) and the registration's loop with
  \<open>Unregister\<close> (\<open>ring/ingester_lifecycle.go\<close>). The callers close \<open>quit\<close> and wait, the
  goroutines notice it only at their next look at the channel, and Consul may answer, fail and
  be changed by others at any moment in between.
\<close>

section \<open>The ring and its Stop\<close>

text \<open>The caller of \<open>Stop\<close> or \<open>Unregister\<close>: not yet called, waiting, returned.\<close>

datatype stop_pc = NotStopped | AwaitingDone | Stopped

text \<open>
  Where the loop of \<open>WatchKey\<close> is: before \<open>isClosed\<close>, in the long poll, in the back-off that
  follows an error, or past its end.
\<close>

datatype watch_pc = Checking | Polling | BackingOff err | Ended

text \<open>
  The goroutine's variables and the channels; \<open>rp_rounds\<close> records the answers of Consul, which
  the code does not keep.
\<close>

record ring_proc =
  rp_ring :: Ring
  rp_pc :: watch_pc
  rp_index :: nat
  rp_backoff :: int
  rp_quit :: bool
  rp_done :: bool
  rp_stop :: stop_pc
  rp_rounds :: "KVPair option round list"

definition newBackoff :: int where
  "newBackoff = initialBackoff"

definition ring_start :: ring_proc where
  "ring_start =
     \<lparr>rp_ring = ring_New, rp_pc = Checking, rp_index = 0, rp_backoff = newBackoff, rp_quit = False, rp_done = False,
      rp_stop = NotStopped, rp_rounds = []\<rparr>"

text \<open>The value handed to the callback: \<open>None\<close> if the pair does not decode.\<close>

definition poll_value :: "'a Factory \<Rightarrow> KVPair option \<Rightarrow> 'a option option" where
  "poll_value factory kvp =
     (case kvp of
        None \<Rightarrow> Some None
      | Some p \<Rightarrow> (case decode factory (kv_Value p) of Inl e \<Rightarrow> None | Inr a \<Rightarrow> Some (Some a)))"

text \<open>What follows an answer without error.\<close>

definition poll_answered :: "Desc Factory \<Rightarrow> KVPair option \<Rightarrow> nat \<Rightarrow> ring_proc \<Rightarrow> ring_proc" where
  "poll_answered factory kvp lastIndex x =
     (let x = x\<lparr>rp_backoff := initialBackoff, rp_rounds := rp_rounds x @ [(False, Inr (kvp, lastIndex), False)], rp_pc := Checking\<rparr>
      in if rp_index x = lastIndex then x
         else case poll_value factory kvp of
                None \<Rightarrow> x\<lparr>rp_index := lastIndex\<rparr>
              | Some v \<Rightarrow>
                  (case ring_update v (rp_ring x) of (r', go_on) \<Rightarrow>
                     x\<lparr>rp_index := lastIndex, rp_ring := r', rp_pc := (if go_on then Checking else Ended), rp_done := \<not> go_on\<rparr>))"

text \<open>
  \<open>wait\<close> ends when the time is over or when \<open>quit\<close> is closed; if both have happened,
  \<open>select\<close> takes either branch, so the time may be over in every state.
\<close>

inductive ring_step :: "Desc Factory \<Rightarrow> ring_proc \<Rightarrow> ring_proc \<Rightarrow> bool" for factory where
  loop_ends: "rp_pc x = Checking \<Longrightarrow> rp_quit x \<Longrightarrow> ring_step factory x (x\<lparr>rp_pc := Ended, rp_done := True\<rparr>)"
| loop_polls: "rp_pc x = Checking \<Longrightarrow> \<not> rp_quit x \<Longrightarrow> ring_step factory x (x\<lparr>rp_pc := Polling\<rparr>)"
| poll_fails: "rp_pc x = Polling \<Longrightarrow> ring_step factory x (x\<lparr>rp_pc := BackingOff e\<rparr>)"
| poll_answers: "rp_pc x = Polling \<Longrightarrow> ring_step factory x (poll_answered factory kvp lastIndex x)"
| wait_over: "rp_pc x = BackingOff e \<Longrightarrow> (early \<longrightarrow> rp_quit x) \<Longrightarrow>
    ring_step factory x (x\<lparr>rp_pc := Checking, rp_backoff := backoff_wait early (rp_backoff x),
      rp_rounds := rp_rounds x @ [(False, Inl e, early)]\<rparr>)"
| stop_called: "rp_stop x = NotStopped \<Longrightarrow> ring_step factory x (x\<lparr>rp_quit := True, rp_stop := AwaitingDone\<rparr>)"
| stop_returns: "rp_stop x = AwaitingDone \<Longrightarrow> rp_done x \<Longrightarrow> ring_step factory x (x\<lparr>rp_stop := Stopped\<rparr>)"

inductive_cases ring_stepE: "ring_step factory x y"

text \<open>
  The step relation runs the loop of \<open>WatchKey\<close>: the rounds so far have brought it to the
  goroutine's variables, and any continuation goes on from there.
\<close>

definition ring_inv :: "Desc Factory \<Rightarrow> ring_proc \<Rightarrow> bool" where
  "ring_inv factory x \<longleftrightarrow>
     (\<forall>rs. watch_key factory ring_update (rp_rounds x @ rs) 0 initialBackoff ring_New =
           watch_key factory ring_update rs (rp_index x) (rp_backoff x) (rp_ring x)) \<and>
     (\<forall>(closed, _, _) \<in> set (rp_rounds x). \<not> closed) \<and>
     initialBackoff \<le> rp_backoff x \<and> rp_backoff x \<le> maxBackoff \<and>
     (rp_done x \<longleftrightarrow> rp_pc x = Ended) \<and> (rp_pc x = Ended \<longrightarrow> rp_quit x) \<and>
     (rp_quit x \<longleftrightarrow> rp_stop x \<noteq> NotStopped) \<and> (rp_stop x = Stopped \<longrightarrow> rp_done x)"

lemma ring_update_goes_on: "ring_update v r = (r', go_on) \<Longrightarrow> go_on"
  by (auto simp: ring_update_def split: option.splits)

lemma ring_inv_start: "ring_inv factory ring_start"
  by (simp add: ring_inv_def ring_start_def newBackoff_def initialBackoff_def maxBackoff_def)

lemma backoff_wait_range:
  "initialBackoff \<le> b \<Longrightarrow> b \<le> maxBackoff \<Longrightarrow> initialBackoff \<le> backoff_wait early b \<and> backoff_wait early b \<le> maxBackoff"
  by (simp add: backoff_wait_def Let_def initialBackoff_def maxBackoff_def)

lemma poll_answered_watch:
  "watch_key factory ring_update ((False, Inr (kvp, lastIndex), False) # rs) (rp_index x) (rp_backoff x) (rp_ring x) =
     watch_key factory ring_update rs (rp_index (poll_answered factory kvp lastIndex x))
       (rp_backoff (poll_answered factory kvp lastIndex x)) (rp_ring (poll_answered factory kvp lastIndex x))"
  by (auto simp: poll_answered_def poll_value_def Let_def ring_update_def split: option.splits sum.splits)

lemma poll_answered_simps:
  "rp_rounds (poll_answered factory kvp lastIndex x) = rp_rounds x @ [(False, Inr (kvp, lastIndex), False)]"
  "rp_quit (poll_answered factory kvp lastIndex x) = rp_quit x"
  "rp_stop (poll_answered factory kvp lastIndex x) = rp_stop x"
  "rp_pc (poll_answered factory kvp lastIndex x) = Checking"
  "rp_done x = False \<Longrightarrow> rp_done (poll_answered factory kvp lastIndex x) = False"
  "rp_backoff (poll_answered factory kvp lastIndex x) = initialBackoff"
  by (auto simp: poll_answered_def Let_def ring_update_def split: option.splits)

lemma ring_inv_step: "ring_step factory x y \<Longrightarrow> ring_inv factory x \<Longrightarrow> ring_inv factory y"
proof (induction rule: ring_step.induct)
  case (poll_answers x kvp lastIndex)
  then have "\<not> rp_done x" by (simp add: ring_inv_def)
  with poll_answers show ?case
    using poll_answered_watch [of factory kvp lastIndex _ x] by (auto simp: ring_inv_def poll_answered_simps initialBackoff_def maxBackoff_def)
next
  case (wait_over x e early)
  then show ?case using backoff_wait_range [of "rp_backoff x" early] by (auto simp: ring_inv_def)
qed (auto simp: ring_inv_def)

lemma ring_inv_run: "(ring_step factory)\<^sup>*\<^sup>* x y \<Longrightarrow> ring_inv factory x \<Longrightarrow> ring_inv factory y"
  by (induction rule: rtranclp_induct) (auto intro: ring_inv_step)

lemmas ring_inv_reachable = ring_inv_run [OF _ ring_inv_start]

text \<open>The steps that are left once \<open>quit\<close> is closed.\<close>

fun pc_rank :: "watch_pc \<Rightarrow> nat" where
  "pc_rank Polling = 3"
| "pc_rank (BackingOff e) = 2"
| "pc_rank Checking = 1"
| "pc_rank Ended = 0"

definition stop_rank :: "ring_proc \<Rightarrow> nat" where
  "stop_rank x = pc_rank (rp_pc x) + (if rp_stop x = Stopped then 0 else 1)"

lemma stop_rank_step:
  "ring_step factory x y \<Longrightarrow> rp_stop x \<noteq> NotStopped \<Longrightarrow> rp_quit x \<Longrightarrow>
   stop_rank y < stop_rank x \<and> rp_stop y \<noteq> NotStopped \<and> rp_quit y"
  by (induction rule: ring_step.induct) (auto simp: stop_rank_def poll_answered_simps)

lemma stop_rank_run:
  "(ring_step factory ^^ n) x y \<Longrightarrow> rp_stop x \<noteq> NotStopped \<Longrightarrow> rp_quit x \<Longrightarrow> stop_rank y + n \<le> stop_rank x"
proof (induction n arbitrary: x)
  case (Suc n)
  from relpowp_Suc_D2 [OF Suc.prems(1)] obtain z where z: "ring_step factory x z" "(ring_step factory ^^ n) z y" by blast
  with stop_rank_step [OF z(1) Suc.prems(2,3)] Suc.IH [OF z(2)] show ?case by linarith
qed simp

lemma stop_rank_bound: "stop_rank x \<le> 4"
  by (cases "rp_pc x") (simp_all add: stop_rank_def)

lemma ring_progress:
  assumes "ring_inv factory x" "rp_stop x \<noteq> Stopped"
  shows "\<exists>y. ring_step factory x y"
proof (cases "rp_pc x")
  case Ended
  then show ?thesis using assms stop_returns [of x factory] by (cases "rp_stop x") (auto simp: ring_inv_def)
qed (use loop_ends loop_polls poll_fails wait_over [where early = False] in \<open>blast+\<close>)


section \<open>The registration and its Unregister\<close>

text \<open>
  Where the registration's loop is: in \<open>pickTokens\<close>, in \<open>heartbeat\<close>, in the deferred
  \<open>unregister\<close>, past its end, or the process has died in \<open>log.Fatalf\<close>.
\<close>

datatype reg_pc = Picking | Beating "32 word list" | Leaving "32 word list" | Gone | Died string

record 's reg_proc =
  gp_store :: 's
  gp_pc :: reg_pc
  gp_quit :: bool
  gp_caller :: stop_pc

definition reg_start :: "'s \<Rightarrow> 's reg_proc" where
  "reg_start s = \<lparr>gp_store = s, gp_pc = Picking, gp_quit = False, gp_caller = NotStopped\<rparr>"

text \<open>What the other clients may do is a relation \<open>env\<close> on the contents of Consul.\<close>

definition allowed :: "('s \<Rightarrow> 's \<Rightarrow> bool) \<Rightarrow> (nat \<Rightarrow> 's \<Rightarrow> 's) \<Rightarrow> bool" where
  "allowed env others \<longleftrightarrow> (\<forall>n s. others n s = s \<or> env s (others n s))"

text \<open>
  The steps, with any random numbers, any clock and any interference during the calls of
  \<open>CAS\<close>. \<open>select\<close> may take a tick although \<open>quit\<close> is closed. What Consul holds when the
  process dies is left open.
\<close>

inductive reg_step ::
  "'s kv \<Rightarrow> Desc Factory \<Rightarrow> IngesterRegistration \<Rightarrow> ('s \<Rightarrow> 's \<Rightarrow> bool) \<Rightarrow> 's reg_proc \<Rightarrow> 's reg_proc \<Rightarrow> bool"
  for c factory r env where
  picked: "gp_pc x = Picking \<Longrightarrow> allowed env others \<Longrightarrow>
    pickTokens c factory r rnds clk others (gp_store x) = Ret (tokens, s') \<Longrightarrow>
    reg_step c factory r env x (x\<lparr>gp_store := s', gp_pc := Beating tokens\<rparr>)"
| pick_fatal: "gp_pc x = Picking \<Longrightarrow> allowed env others \<Longrightarrow>
    pickTokens c factory r rnds clk others (gp_store x) = Panic m \<Longrightarrow>
    reg_step c factory r env x (x\<lparr>gp_store := s', gp_pc := Died m\<rparr>)"
| tick: "gp_pc x = Beating tokens \<Longrightarrow> allowed env others \<Longrightarrow>
    heartbeat_tick c factory r tokens clk others v (gp_store x) = Ret s' \<Longrightarrow>
    reg_step c factory r env x (x\<lparr>gp_store := s'\<rparr>)"
| quit_seen: "gp_pc x = Beating tokens \<Longrightarrow> gp_quit x \<Longrightarrow>
    reg_step c factory r env x (x\<lparr>gp_pc := Leaving tokens\<rparr>)"
| left_ring: "gp_pc x = Leaving tokens \<Longrightarrow> allowed env others \<Longrightarrow>
    unregister c factory r tokens others (gp_store x) = Ret s' \<Longrightarrow>
    reg_step c factory r env x (x\<lparr>gp_store := s', gp_pc := Gone\<rparr>)"
| leave_fatal: "gp_pc x = Leaving tokens \<Longrightarrow> allowed env others \<Longrightarrow>
    unregister c factory r tokens others (gp_store x) = Panic m \<Longrightarrow>
    reg_step c factory r env x (x\<lparr>gp_store := s', gp_pc := Died m\<rparr>)"
| interfered: "env (gp_store x) s' \<Longrightarrow> reg_step c factory r env x (x\<lparr>gp_store := s'\<rparr>)"
| unregister_called: "gp_caller x = NotStopped \<Longrightarrow> \<forall>m. gp_pc x \<noteq> Died m \<Longrightarrow>
    reg_step c factory r env x (x\<lparr>gp_quit := True, gp_caller := AwaitingDone\<rparr>)"
| unregister_returns: "gp_caller x = AwaitingDone \<Longrightarrow> gp_pc x = Gone \<Longrightarrow>
    reg_step c factory r env x (x\<lparr>gp_caller := Stopped\<rparr>)"

text \<open>The ring in Consul, if there is one that decodes, does not list an ingester.\<close>

definition absent :: "Desc Factory \<Rightarrow> string \<Rightarrow> (string \<rightharpoonup> bytes \<times> nat) \<Rightarrow> bool" where
  "absent factory i pairs \<longleftrightarrow>
     (case pairs consulKey of
        None \<Rightarrow> True
      | Some (b, _) \<Rightarrow> (case decode factory b of Inl e \<Rightarrow> True | Inr d \<Rightarrow> Ingesters d i = None))"

context consul_kv
begin

lemma cas_loop_inv:
  assumes "friendly others" "inv s" "cas_loop c factory key f others n index s v = Ret (e, s', v')"
  shows "inv s'"
  using assms(2,3)
proof (induction n arbitrary: index s v)
  case (Suc n)
  have oth: "inv (others k t)" if "inv t" for k t using assms(1) that by (simp add: friendly_def)
  have wr: "inv s2" if "KV_CAS c p t = (res, s2)" "inv t" for p t res s2 using cas_inv [OF that(2,1)] by simp
  let ?s0 = "others (2 * n + 1) s"
  have s0: "inv ?s0" "inv (others (2 * n) ?s0)" using oth Suc.prems(1) by blast+
  show ?case
    using Suc.prems(2) Suc.IH [OF s0(1)] s0 wr [OF _ s0(2)] Suc.IH [OF wr [OF _ s0(2)]]
    by (auto simp: Let_def go_simps split: sum.splits option.splits if_splits prod.splits bool.splits)
qed simp

lemma CAS_inv: "friendly others \<Longrightarrow> inv s \<Longrightarrow> CAS c factory key f others s v = Ret (e, s', v') \<Longrightarrow> inv s'"
  unfolding CAS_def by (rule cas_loop_inv)

text \<open>
  A registration is not awaited any more only when it is gone, it leaves only when \<open>quit\<close> is
  closed, and once it is gone the ring does not list it.
\<close>

definition reg_inv :: "Desc Factory \<Rightarrow> IngesterRegistration \<Rightarrow> 's reg_proc \<Rightarrow> bool" where
  "reg_inv factory r x \<longleftrightarrow>
     (case gp_pc x of
        Died m \<Rightarrow> gp_caller x \<noteq> Stopped
      | Gone \<Rightarrow> inv (gp_store x) \<and> gp_quit x \<and> absent factory (reg_id r) (view (gp_store x))
      | Leaving ks \<Rightarrow> inv (gp_store x) \<and> gp_quit x \<and> gp_caller x \<noteq> Stopped
      | _ \<Rightarrow> inv (gp_store x) \<and> gp_caller x \<noteq> Stopped) \<and>
     (gp_quit x \<longleftrightarrow> gp_caller x \<noteq> NotStopped)"

definition strangers :: "Desc Factory \<Rightarrow> string \<Rightarrow> ('s \<Rightarrow> 's \<Rightarrow> bool) \<Rightarrow> bool" where
  "strangers factory i env \<longleftrightarrow>
     (\<forall>s s'. env s s' \<longrightarrow> inv s \<longrightarrow> inv s' \<and> evolves view clock s s' \<and>
        (absent factory i (view s) \<longrightarrow> absent factory i (view s')))"

lemma allowed_friendly: "strangers factory i env \<Longrightarrow> allowed env others \<Longrightarrow> friendly others"
  unfolding friendly_def allowed_def strangers_def by (metis evolves_refl)

lemma unregister_absent:
  assumes "\<And>d b. encode factory d = Inr b \<Longrightarrow> decode factory b = Inr d"
    and "friendly others" "inv s" "unregister c factory r tokens others s = Ret s'"
  shows "absent factory (reg_id r) (view s')"
proof -
  obtain v where "CAS c factory consulKey (unregister_callback r tokens) others s () = Ret (None, s', v)"
    using assms(4) by (auto simp: unregister_def go_simps split: option.splits)
  from CAS_atomic [OF assms(2,3) this] obtain s1 inp v0 out retry b i where
    u: "unregister_callback r tokens inp v0 = Ret ((Some out, retry, None), v)" "encode factory out = Inr b"
      "view s' = (view s1)(consulKey \<mapsto> (b, i))"
    unfolding atomic_update_def by (elim exE conjE) (rule that)
  have "Ingesters out (reg_id r) = None"
    using u(1) by (auto simp: unregister_callback_def removeIngester_def split: option.splits)
  then show ?thesis using u(3) assms(1) [OF u(2)] by (simp add: absent_def)
qed

lemma reg_inv_step:
  assumes "\<And>d b. encode factory d = Inr b \<Longrightarrow> decode factory b = Inr d" "strangers factory (reg_id r) env"
    and "reg_step c factory r env x y" "reg_inv factory r x"
  shows "reg_inv factory r y"
  using assms(3,4)
proof (induction rule: reg_step.induct)
  case (picked x others rnds clk tokens s')
  then obtain e v where "CAS c factory consulKey (pick_callback r rnds clk) others (gp_store x) (0, []) = Ret (e, s', v)"
    by (auto simp: pickTokens_def go_simps split: option.splits)
  with picked show ?case using CAS_inv [OF allowed_friendly [OF assms(2)]] by (fastforce simp: reg_inv_def)
next
  case (tick x tokens others clk v s')
  then obtain e v' where "CAS c factory consulKey (heartbeat_callback r tokens clk) others (gp_store x) v = Ret (e, s', v')"
    by (auto simp: heartbeat_tick_def go_simps)
  with tick show ?case using CAS_inv [OF allowed_friendly [OF assms(2)]] by (fastforce simp: reg_inv_def)
next
  case (left_ring x tokens others s')
  then obtain e v where "CAS c factory consulKey (unregister_callback r tokens) others (gp_store x) () = Ret (e, s', v)"
    by (auto simp: unregister_def go_simps split: option.splits)
  moreover have "absent factory (reg_id r) (view s')"
    using unregister_absent [OF assms(1) allowed_friendly [OF assms(2) left_ring(2)] _ left_ring(3)] left_ring(1,4)
    by (simp add: reg_inv_def)
  ultimately show ?case
    using left_ring CAS_inv [OF allowed_friendly [OF assms(2)]] by (fastforce simp: reg_inv_def)
next
  case (interfered x s')
  then show ?case using assms(2) by (auto simp: reg_inv_def strangers_def split: reg_pc.splits)
qed (auto simp: reg_inv_def split: reg_pc.splits)

lemma reg_inv_run:
  assumes "\<And>d b. encode factory d = Inr b \<Longrightarrow> decode factory b = Inr d" "strangers factory (reg_id r) env"
    and "(reg_step c factory r env)\<^sup>*\<^sup>* (reg_start s) x" "inv s"
  shows "reg_inv factory r x"
  using assms(3)
proof (induction rule: rtranclp_induct)
  case base
  then show ?case using assms(4) by (simp add: reg_inv_def reg_start_def)
next
  case (step y z)
  then show ?case using reg_inv_step [OF assms(1,2)] by blast
qed

end

section \<open>Properties\<close>

text \<open>
  C28: at every moment of the ring's life, whatever the order of answers, errors, time-outs and
  a call of \<open>Stop\<close>, the ring readers see is the last one that Consul answered with and that
  decodes, or the empty one before that, and the time between attempts is between one second
  and one minute.
\<close>

theorem ring_process_follows:
  assumes "(ring_step factory)\<^sup>*\<^sup>* ring_start x" "honest (rp_rounds x)"
  shows "ringDesc (rp_ring x) = (case latest factory (rp_rounds x) of None \<Rightarrow> ringDesc ring_New | Some d \<Rightarrow> d) \<and>
    initialBackoff \<le> rp_backoff x \<and> rp_backoff x \<le> maxBackoff"
proof -
  have inv: "ring_inv factory x" by (rule ring_inv_reachable [OF assms(1)])
  then have "\<forall>rs. watch_key factory ring_update (rp_rounds x @ rs) 0 initialBackoff ring_New =
      watch_key factory ring_update rs (rp_index x) (rp_backoff x) (rp_ring x)"
    and nc: "\<forall>(closed, _, _) \<in> set (rp_rounds x). \<not> closed"
    unfolding ring_inv_def by blast+
  from spec [OF this(1), of "[]"] have "ring_loop factory (rp_rounds x) ring_New = rp_ring x"
    by (simp add: ring_loop_def WatchKey_def)
  then show ?thesis
    using ring_follows_consul [OF assms(2) nc, of factory ring_New] inv by (simp add: ring_inv_def)
qed

text \<open>A run: one answer, then an error, and \<open>Stop\<close> during the long poll.\<close>

definition demo_factory :: "Desc Factory" where
  "demo_factory =
     \<lparr>decode = (\<lambda>b. if b = ''a'' then Inr (addIngester 1 ''A'' ''a:1'' [0] newDesc) else Inl (Err ''invalid character'')),
      encode = (\<lambda>d. Inr ''a'')\<rparr>"

definition demo_pair :: KVPair where
  "demo_pair = \<lparr>kv_Key = ''ring'', kv_Value = ''a'', ModifyIndex = 4\<rparr>"

definition demo_proc :: ring_proc where
  "demo_proc =
     \<lparr>rp_ring = \<lparr>ringDesc = addIngester 1 ''A'' ''a:1'' [0] newDesc\<rparr>, rp_pc = Checking, rp_index = 4, rp_backoff = initialBackoff,
      rp_quit = True, rp_done = False, rp_stop = AwaitingDone,
      rp_rounds = [(False, Inr (Some demo_pair, 4), False), (False, Inl (Err ''EOF''), True)]\<rparr>"

lemma six_steps: "R a b \<Longrightarrow> R b c \<Longrightarrow> R c d \<Longrightarrow> R d e \<Longrightarrow> R e f \<Longrightarrow> R f g \<Longrightarrow> R\<^sup>*\<^sup>* a g"
  by (blast intro: converse_rtranclp_into_rtranclp)

lemma demo_proc_reachable: "(ring_step demo_factory)\<^sup>*\<^sup>* ring_start demo_proc"
proof -
  let ?p = "\<lambda>x. x\<lparr>rp_pc := Polling\<rparr>"
  let ?a = "poll_answered demo_factory (Some demo_pair) 4 (?p ring_start)"
  let ?s = "(?p ?a)\<lparr>rp_quit := True, rp_stop := AwaitingDone\<rparr>"
  let ?e = "?s\<lparr>rp_pc := BackingOff (Err ''EOF'')\<rparr>"
  have a: "?a = \<lparr>rp_ring = \<lparr>ringDesc = addIngester 1 ''A'' ''a:1'' [0] newDesc\<rparr>, rp_pc = Checking, rp_index = 4,
      rp_backoff = initialBackoff, rp_quit = False, rp_done = False, rp_stop = NotStopped,
      rp_rounds = [(False, Inr (Some demo_pair, 4), False)]\<rparr>"
    by (simp add: poll_answered_def poll_value_def ring_start_def ring_New_def ring_update_def demo_factory_def demo_pair_def Let_def)
  let ?w = "?e\<lparr>rp_pc := Checking, rp_backoff := backoff_wait True (rp_backoff ?e),
      rp_rounds := rp_rounds ?e @ [(False, Inl (Err ''EOF''), True)]\<rparr>"
  have "ring_step demo_factory ring_start (?p ring_start)" by (rule loop_polls) (simp_all add: ring_start_def)
  moreover have "ring_step demo_factory (?p ring_start) ?a" by (rule poll_answers) simp
  moreover have "ring_step demo_factory ?a (?p ?a)" by (rule loop_polls) (simp_all add: a)
  moreover have "ring_step demo_factory (?p ?a) ?s" by (rule stop_called) (simp add: a)
  moreover have "ring_step demo_factory ?s ?e" by (rule poll_fails) simp
  moreover have "ring_step demo_factory ?e ?w" by (rule wait_over) simp_all
  ultimately have "(ring_step demo_factory)\<^sup>*\<^sup>* ring_start ?w" by (rule six_steps)
  moreover have "?w = demo_proc" unfolding a by (simp add: demo_proc_def backoff_wait_def)
  ultimately show ?thesis by (simp only:)
qed

theorem ring_process_follows_witness:
  "(ring_step demo_factory)\<^sup>*\<^sup>* ring_start demo_proc \<and>
   (case latest demo_factory (rp_rounds demo_proc) of None \<Rightarrow> ringDesc ring_New | Some d \<Rightarrow> d) = addIngester 1 ''A'' ''a:1'' [0] newDesc"
proof -
  have "honest (rp_rounds demo_proc)" by (auto simp: honest_def demo_proc_def)
  then show ?thesis
    using ring_process_follows [OF demo_proc_reachable] demo_proc_reachable by (simp add: demo_proc_def)
qed

text \<open>
  C29: \<open>Stop\<close> returns. Once it is called, whatever the goroutine is doing, there are at most
  four more steps, and a state that has no further step is one in which \<open>Stop\<close> has returned
  and the goroutine has ended.
\<close>

theorem ring_stop_returns:
  assumes "(ring_step factory)\<^sup>*\<^sup>* ring_start x" "rp_stop x = AwaitingDone" "(ring_step factory ^^ n) x y"
  shows "n \<le> 4 \<and> ((\<exists>z. ring_step factory y z) \<noteq> (rp_stop y = Stopped \<and> rp_pc y = Ended))"
proof (intro conjI)
  have "ring_inv factory x" by (rule ring_inv_reachable [OF assms(1)])
  then have "rp_quit x" using assms(2) by (simp add: ring_inv_def)
  then show "n \<le> 4" using stop_rank_run [OF assms(3)] assms(2) stop_rank_bound [of x] by simp
  have inv: "ring_inv factory y"
    using ring_inv_run [OF relpowp_imp_rtranclp [OF assms(3)]] \<open>ring_inv factory x\<close> by simp
  have "\<not> ring_step factory y z" if "rp_stop y = Stopped" "rp_pc y = Ended" for z
    using that by (auto elim: ring_stepE)
  then show "(\<exists>z. ring_step factory y z) \<noteq> (rp_stop y = Stopped \<and> rp_pc y = Ended)"
    using ring_progress [OF inv] inv by (auto simp: ring_inv_def)
qed

theorem ring_stop_returns_witness:
  "\<exists>y. (ring_step demo_factory ^^ 2) demo_proc y \<and> rp_stop y = Stopped \<and>
     ((\<exists>z. ring_step demo_factory y z) \<noteq> (rp_stop y = Stopped \<and> rp_pc y = Ended))"
proof -
  let ?q = "demo_proc\<lparr>rp_pc := Ended, rp_done := True\<rparr>"
  have "ring_step demo_factory demo_proc ?q" by (rule loop_ends) (simp_all add: demo_proc_def)
  moreover have "ring_step demo_factory ?q (?q\<lparr>rp_stop := Stopped\<rparr>)" by (rule stop_returns) (simp_all add: demo_proc_def)
  ultimately have run: "(ring_step demo_factory ^^ 2) demo_proc (?q\<lparr>rp_stop := Stopped\<rparr>)"
    by (auto simp: numeral_2_eq_2)
  have "rp_stop demo_proc = AwaitingDone" by (simp add: demo_proc_def)
  note ends = ring_stop_returns [OF demo_proc_reachable this run]
  show ?thesis
    by (intro exI [of _ "?q\<lparr>rp_stop := Stopped\<rparr>"] conjI run conjunct2 [OF ends]) (simp add: demo_proc_def)
qed

text \<open>
  C30: \<open>Unregister\<close> returns only when the ingester is out of the ring. Whatever other clients
  do before, between and during the requests, provided they never enter this ingester
  themselves, the registration's loop leaves only after \<open>Unregister\<close> was called, and when
  \<open>Unregister\<close> has returned the ring in Consul does not list the ingester.
\<close>

theorem unregister_returns_clean:
  assumes "\<And>d b. encode factory d = Inr b \<Longrightarrow> decode factory b = Inr d"
    and "\<And>s s'. env s s' \<Longrightarrow> mem_inv s \<Longrightarrow> mem_inv s' \<and> evolves c_pairs c_index s s' \<and>
      (absent factory (reg_id r) (c_pairs s) \<longrightarrow> absent factory (reg_id r) (c_pairs s'))"
    and "(reg_step mem_kv factory r env)\<^sup>*\<^sup>* (reg_start s) x" "mem_inv s"
  shows "(gp_caller x = Stopped \<longrightarrow> gp_pc x = Gone) \<and>
    (gp_pc x = Gone \<longrightarrow> gp_caller x \<noteq> NotStopped \<and> absent factory (reg_id r) (c_pairs (gp_store x)))"
proof -
  have "memconsul.strangers factory (reg_id r) env" unfolding memconsul.strangers_def using assms(2) by blast
  from memconsul.reg_inv_run [OF assms(1) this assms(3,4)] have "memconsul.reg_inv factory r x" by simp
  then show ?thesis by (auto simp: memconsul.reg_inv_def split: reg_pc.splits)
qed

text \<open>The life of a registration in an empty ring that nobody else changes.\<close>

definition left_consul :: Consul where
  "left_consul = mem_write consulKey ''0'' (mem_write consulKey ''1'' one_consul)"

definition reg_demo :: "Consul reg_proc" where
  "reg_demo = \<lparr>gp_store = left_consul, gp_pc = Gone, gp_quit = True, gp_caller = Stopped\<rparr>"

lemma pick_one:
  "pickTokens mem_kv pair_factory reg_A (\<lambda>_ _. 5) (\<lambda>_. 2) (\<lambda>n s. s) one_consul = Ret ([5], mem_write consulKey ''1'' one_consul)"
proof -
  have "pick_callback reg_A (\<lambda>_ _. 5) (\<lambda>_. 2) (Some newDesc) (0, []) = Ret ((Some alone_A, True, None), (1, [5]))"
    by (simp add: pick_callback_def cur_desc_def newDesc_def generate_one [simplified] reg_A_def alone_A_def Let_def)
  then show ?thesis
    unfolding pickTokens_def CAS_def cas_retries_Suc cas_loop.simps(2)
    by (simp add: Let_def mem_kv_def mem_Get_def mem_CAS_def cas_read_def
        one_consul_def pair_factory_def alone_A_neq)
qed

lemma leave_one:
  "unregister mem_kv pair_factory reg_A [5] (\<lambda>n s. s) (mem_write consulKey ''1'' one_consul) = Ret left_consul"
proof -
  have "removeIngester ''A'' [5] alone_A = newDesc"
    unfolding alone_A_def by (rule remove_add) (simp_all add: newDesc_def wf_desc_def distinct_tokens_def)
  then have "unregister_callback reg_A [5] (Some alone_A) () = Ret ((Some newDesc, True, None), ())"
    by (simp add: unregister_callback_def reg_A_def)
  then show ?thesis
    unfolding unregister_def CAS_def cas_retries_Suc cas_loop.simps(2)
    by (simp add: Let_def mem_kv_def mem_Get_def mem_CAS_def cas_read_def
        left_consul_def mem_write_def one_consul_def pair_factory_def alone_A_neq)
qed

lemma reg_demo_reachable: "(reg_step mem_kv pair_factory reg_A (\<lambda>_ _. False))\<^sup>*\<^sup>* (reg_start one_consul) reg_demo"
proof -
  let ?R = "reg_step mem_kv pair_factory reg_A (\<lambda>_ _. False)"
  let ?x = "\<lambda>s pc q cl. \<lparr>gp_store = s, gp_pc = pc, gp_quit = q, gp_caller = cl\<rparr>"
  let ?s = "mem_write consulKey ''1'' one_consul"
  have ok: "allowed (\<lambda>_ _. False) (\<lambda>n s. s)" by (simp add: allowed_def)
  have "?R (reg_start one_consul) (?x ?s (Beating [5]) False NotStopped)"
    using picked [where x = "reg_start one_consul", OF _ ok, of mem_kv pair_factory reg_A "\<lambda>_ _. 5" "\<lambda>_. 2"] pick_one
    by (simp add: reg_start_def)
  moreover have "?R (?x ?s (Beating [5]) False NotStopped) (?x ?s (Beating [5]) True AwaitingDone)"
    using unregister_called [where x = "?x ?s (Beating [5]) False NotStopped"] by simp
  moreover have "?R (?x ?s (Beating [5]) True AwaitingDone) (?x ?s (Leaving [5]) True AwaitingDone)"
    using quit_seen [where x = "?x ?s (Beating [5]) True AwaitingDone"] by simp
  moreover have "?R (?x ?s (Leaving [5]) True AwaitingDone) (?x left_consul Gone True AwaitingDone)"
    using left_ring [where x = "?x ?s (Leaving [5]) True AwaitingDone", OF _ ok] leave_one by simp
  moreover have "?R (?x left_consul Gone True AwaitingDone) reg_demo"
    using unregister_returns [where x = "?x left_consul Gone True AwaitingDone"] by (simp add: reg_demo_def)
  ultimately show ?thesis by (blast intro: converse_rtranclp_into_rtranclp)
qed

theorem unregister_returns_clean_witness:
  "(reg_step mem_kv pair_factory reg_A (\<lambda>_ _. False))\<^sup>*\<^sup>* (reg_start one_consul) reg_demo \<and> gp_caller reg_demo = Stopped \<and>
   absent pair_factory (reg_id reg_A) (c_pairs (gp_store reg_demo))"
proof -
  have rb: "decode pair_factory b = Inr d" if e: "encode pair_factory d = Inr b" for d b
    using e alone_A_neq by (auto simp: pair_factory_def split: if_splits)
  have "mem_inv one_consul" by (simp add: mem_inv_def one_consul_def)
  from unregister_returns_clean [OF rb _ reg_demo_reachable this] show ?thesis
    using reg_demo_reachable by (simp add: reg_demo_def)
qed

end
