(* ===== verification/Sample_Iterator.thy ===== *)
theory Sample_Iterator
  imports Labels
begin

text \<open>
  Samples, sample streams and the iterator over a stream (\<open>iterator.go\<close>; the data types
  are the vendored \<open>model.SamplePair\<close>, \<open>model.SampleStream\<close> and \<open>model.Sample\<close>). A
  sample value is a float64; the program never computes with it, so the model keeps its 64 bits.
\<close>

section \<open>Samples\<close>

type_synonym SampleValue = "64 word"

record SamplePair =
  sp_Timestamp :: Time
  sp_Value :: SampleValue

record SampleStream =
  ss_Metric :: metric
  ss_Values :: "SamplePair list"

type_synonym Matrix = "SampleStream list"

record Sample =
  s_Metric :: metric
  s_Value :: SampleValue
  s_Timestamp :: Time

record Interval =
  OldestInclusive :: Time
  NewestInclusive :: Time

definition After :: "Time \<Rightarrow> Time \<Rightarrow> bool" where "After t u \<longleftrightarrow> t > u"
definition Before :: "Time \<Rightarrow> Time \<Rightarrow> bool" where "Before t u \<longleftrightarrow> t < u"

definition sort_by_time :: "SamplePair list \<Rightarrow> SamplePair list" where
  "sort_by_time vs = sort_slice sp_Timestamp vs"

section \<open>The iterator\<close>

definition it_Metric :: "SampleStream \<Rightarrow> metric" where
  "it_Metric ss = ss_Metric ss"

definition ValueAtOrBeforeTime :: "SampleStream \<Rightarrow> Time \<Rightarrow> SamplePair" where
  "ValueAtOrBeforeTime ss ts =
     (let i = search (length (ss_Values ss)) (\<lambda>n. After (sp_Timestamp (ss_Values ss ! n)) ts)
      in if i = 0 then \<lparr>sp_Timestamp = Earliest, sp_Value = 0\<rparr> else ss_Values ss ! (i - 1))"

text \<open>Slicing \<open>[start:end]\<close> panics when \<open>end < start\<close>.\<close>

definition RangeValues :: "SampleStream \<Rightarrow> Interval \<Rightarrow> SamplePair list go" where
  "RangeValues ss iv =
     (let n = length (ss_Values ss);
          start = search n (\<lambda>i. \<not> Before (sp_Timestamp (ss_Values ss ! i)) (OldestInclusive iv));
          stop = search n (\<lambda>i. After (sp_Timestamp (ss_Values ss ! i)) (NewestInclusive iv))
      in if start = n then Ret []
         else if stop < start then Panic ''slice bounds out of range''
         else Ret (take (stop - start) (drop start (ss_Values ss))))"

section \<open>What the iterator returns\<close>

definition time_sorted :: "SampleStream \<Rightarrow> bool" where
  "time_sorted ss \<longleftrightarrow> sorted (map sp_Timestamp (ss_Values ss))"

lemma search_after:
  "sorted (map sp_Timestamp vs) \<Longrightarrow>
   search (length vs) (\<lambda>n. After (sp_Timestamp (vs ! n)) ts) = length (filter (\<lambda>s. sp_Timestamp s \<le> ts) vs)"
  using gosearch.search_gt [of sp_Timestamp vs ts] by (simp add: After_def)

lemma search_not_before:
  "sorted (map sp_Timestamp vs) \<Longrightarrow>
   search (length vs) (\<lambda>i. \<not> Before (sp_Timestamp (vs ! i)) t) = length (filter (\<lambda>s. sp_Timestamp s < t) vs)"
  using gosearch.search_ge [of sp_Timestamp vs t] by (simp add: Before_def not_less)

lemma sorted_take_filter:
  assumes "sorted (map sp_Timestamp vs)" "\<And>a b. a \<le> b \<Longrightarrow> P b \<Longrightarrow> P a"
  shows "take (length (filter (\<lambda>s. P (sp_Timestamp s)) vs)) vs = filter (\<lambda>s. P (sp_Timestamp s)) vs"
    and "drop (length (filter (\<lambda>s. P (sp_Timestamp s)) vs)) vs = filter (\<lambda>s. \<not> P (sp_Timestamp s)) vs"
proof -
  let ?L = "filter (\<lambda>s. P (sp_Timestamp s)) vs" and ?R = "filter (\<lambda>s. \<not> P (sp_Timestamp s)) vs"
  have "?L @ ?R = vs" using sorted_split_filter [OF assms(1), of P] assms(2) by blast
  then show "take (length ?L) vs = ?L" "drop (length ?L) vs = ?R"
    by (metis append_eq_conv_conj)+
qed

lemma ValueAtOrBeforeTime_last:
  assumes "time_sorted ss"
  shows "ValueAtOrBeforeTime ss ts =
    (let vs = filter (\<lambda>s. sp_Timestamp s \<le> ts) (ss_Values ss)
     in if vs = [] then \<lparr>sp_Timestamp = Earliest, sp_Value = 0\<rparr> else last vs)"
proof -
  let ?vs = "ss_Values ss"
  let ?L = "filter (\<lambda>s. sp_Timestamp s \<le> ts) ?vs"
  have srt: "sorted (map sp_Timestamp ?vs)" using assms by (simp add: time_sorted_def)
  have tk: "take (length ?L) ?vs = ?L" by (rule sorted_take_filter [OF srt]) simp
  have "?vs ! (length ?L - 1) = last ?L" if "?L \<noteq> []"
  proof -
    have "last ?L = ?L ! (length ?L - 1)" using that by (rule last_conv_nth)
    also have "\<dots> = take (length ?L) ?vs ! (length ?L - 1)" by (simp only: tk)
    also have "\<dots> = ?vs ! (length ?L - 1)" using that by simp
    finally show ?thesis by simp
  qed
  then show ?thesis using search_after [OF srt] by (simp add: ValueAtOrBeforeTime_def Let_def)
qed

section \<open>Properties\<close>

text \<open>
  On a stream sorted by time, \<open>ValueAtOrBeforeTime\<close> returns a sample of the stream
  that is not after the given time and that no other such sample follows in time; if there is
  none, the timestamp it returns is \<open>Earliest\<close>.
\<close>

lemma value_at_or_before:
  assumes "time_sorted ss"
  shows "if \<exists>s\<in>set (ss_Values ss). sp_Timestamp s \<le> ts
    then ValueAtOrBeforeTime ss ts \<in> set (ss_Values ss) \<and> sp_Timestamp (ValueAtOrBeforeTime ss ts) \<le> ts \<and>
      (\<forall>s\<in>set (ss_Values ss). sp_Timestamp s \<le> ts \<longrightarrow> sp_Timestamp s \<le> sp_Timestamp (ValueAtOrBeforeTime ss ts))
    else sp_Timestamp (ValueAtOrBeforeTime ss ts) = Earliest"
proof -
  let ?L = "filter (\<lambda>s. sp_Timestamp s \<le> ts) (ss_Values ss)"
  have v: "ValueAtOrBeforeTime ss ts = (if ?L = [] then \<lparr>sp_Timestamp = Earliest, sp_Value = 0\<rparr> else last ?L)"
    using ValueAtOrBeforeTime_last [OF assms] by (simp only: Let_def)
  have ex: "(\<exists>s\<in>set (ss_Values ss). sp_Timestamp s \<le> ts) \<longleftrightarrow> ?L \<noteq> []" by (auto simp: filter_empty_conv)
  have srt: "sorted (map sp_Timestamp ?L)" using assms by (simp add: time_sorted_def sorted_filter)
  have "sp_Timestamp s \<le> sp_Timestamp (last ?L)" if "s \<in> set ?L" for s
  proof -
    have "?L = butlast ?L @ [last ?L]" using that by (cases ?L) auto
    then have "sorted (map sp_Timestamp (butlast ?L) @ [sp_Timestamp (last ?L)])"
      and "s \<in> set (butlast ?L) \<or> s = last ?L"
      using srt that by (metis map_append list.simps(8,9), metis Un_iff empty_iff empty_set set_ConsD set_append)
    then show ?thesis by (auto simp: sorted_append)
  qed
  moreover have "last ?L \<in> set ?L" if "?L \<noteq> []" using that by (rule last_in_set)
  ultimately show ?thesis unfolding ex v by auto
qed

definition three_samples :: SampleStream where
  "three_samples = \<lparr>ss_Metric = [(''__name__'', ''up'')],
     ss_Values = [\<lparr>sp_Timestamp = 1000, sp_Value = 1\<rparr>, \<lparr>sp_Timestamp = 2000, sp_Value = 2\<rparr>, \<lparr>sp_Timestamp = 3000, sp_Value = 3\<rparr>]\<rparr>"

text \<open>
  C32: on a stream sorted by time, \<open>RangeValues\<close> returns exactly the samples of the closed
  interval, in order, whenever the interval is not reversed; a reversed interval makes it panic
  exactly when a sample lies strictly between its bounds and another at or after its start.
\<close>

theorem range_values:
  assumes "time_sorted ss"
  shows "(OldestInclusive iv \<le> NewestInclusive iv \<longrightarrow>
      RangeValues ss iv = Ret (filter (\<lambda>s. OldestInclusive iv \<le> sp_Timestamp s \<and> sp_Timestamp s \<le> NewestInclusive iv) (ss_Values ss))) \<and>
    (NewestInclusive iv < OldestInclusive iv \<longrightarrow>
      (RangeValues ss iv = Panic ''slice bounds out of range'' \<longleftrightarrow>
        (\<exists>s\<in>set (ss_Values ss). NewestInclusive iv < sp_Timestamp s \<and> sp_Timestamp s < OldestInclusive iv) \<and>
        (\<exists>s\<in>set (ss_Values ss). OldestInclusive iv \<le> sp_Timestamp s)))"
proof -
  let ?vs = "ss_Values ss" and ?o = "OldestInclusive iv" and ?w = "NewestInclusive iv"
  have srt: "sorted (map sp_Timestamp ?vs)" using assms by (simp add: time_sorted_def)
  let ?A = "filter (\<lambda>s. sp_Timestamp s < ?o) ?vs" and ?B = "filter (\<lambda>s. sp_Timestamp s \<le> ?w) ?vs"
  have R: "RangeValues ss iv = (if length ?A = length ?vs then Ret [] else if length ?B < length ?A
      then Panic ''slice bounds out of range'' else Ret (take (length ?B - length ?A) (drop (length ?A) ?vs)))"
    by (simp only: RangeValues_def Let_def search_after [OF srt] search_not_before [OF srt])
  have allA: "length ?A = length ?vs \<longleftrightarrow> (\<forall>s\<in>set ?vs. sp_Timestamp s < ?o)"
    by (metis filter_True length_filter_less order_less_irrefl)
  show ?thesis
  proof (intro conjI impI)
    assume le: "?o \<le> ?w"
    have dr: "drop (length ?A) ?vs = filter (\<lambda>s. \<not> sp_Timestamp s < ?o) ?vs"
      by (rule sorted_take_filter(2) [OF srt]) simp
    have tb: "take (length ?B) ?vs = ?B" by (rule sorted_take_filter(1) [OF srt]) simp
    have ta: "take (length ?A) ?B = ?A"
    proof -
      have "filter (\<lambda>s. sp_Timestamp s < ?o) ?B = ?A" using le by (auto intro: filter_cong)
      moreover have "sorted (map sp_Timestamp ?B)" using srt by (rule sorted_filter)
      ultimately show ?thesis using sorted_take_filter(1) [of ?B "\<lambda>t. t < ?o"] by simp
    qed
    then have AB: "length ?A \<le> length ?B" by (metis length_take min.cobounded1)
    have "take (length ?B - length ?A) (drop (length ?A) ?vs) = drop (length ?A) ?B"
      by (metis drop_take tb)
    also have "\<dots> = filter (\<lambda>s. \<not> sp_Timestamp s < ?o) ?B"
    proof -
      have "filter (\<lambda>s. sp_Timestamp s < ?o) ?B = ?A" using le by (auto intro: filter_cong)
      moreover have "sorted (map sp_Timestamp ?B)" using srt by (rule sorted_filter)
      ultimately show ?thesis using sorted_take_filter(2) [of ?B "\<lambda>t. t < ?o"] by simp
    qed
    also have "\<dots> = filter (\<lambda>s. ?o \<le> sp_Timestamp s \<and> sp_Timestamp s \<le> ?w) ?vs"
      by (auto simp: not_less intro: filter_cong)
    finally have t: "take (length ?B - length ?A) (drop (length ?A) ?vs) = filter (\<lambda>s. ?o \<le> sp_Timestamp s \<and> sp_Timestamp s \<le> ?w) ?vs" .
    have "filter (\<lambda>s. ?o \<le> sp_Timestamp s \<and> sp_Timestamp s \<le> ?w) ?vs = []" if "length ?A = length ?vs"
      using that unfolding allA by (auto simp: filter_empty_conv)
    then show "RangeValues ss iv = Ret (filter (\<lambda>s. ?o \<le> sp_Timestamp s \<and> sp_Timestamp s \<le> ?w) ?vs)"
      using R t AB by auto
  next
    assume lt: "?w < ?o"
    have "filter (\<lambda>s. sp_Timestamp s \<le> ?w) ?A = ?B" using lt by (auto intro: filter_cong)
    then have "length ?B < length ?A \<longleftrightarrow> (\<exists>s\<in>set ?A. \<not> sp_Timestamp s \<le> ?w)"
      by (metis filter_True length_filter_less order_less_irrefl)
    then show "RangeValues ss iv = Panic ''slice bounds out of range'' \<longleftrightarrow>
        (\<exists>s\<in>set ?vs. ?w < sp_Timestamp s \<and> sp_Timestamp s < ?o) \<and> (\<exists>s\<in>set ?vs. ?o \<le> sp_Timestamp s)"
      unfolding R allA by (auto simp: not_le not_less)
  qed
qed

theorem range_values_witness:
  "RangeValues three_samples \<lparr>OldestInclusive = 1500, NewestInclusive = 3000\<rparr> =
     Ret [\<lparr>sp_Timestamp = 2000, sp_Value = 2\<rparr>, \<lparr>sp_Timestamp = 3000, sp_Value = 3\<rparr>] \<and>
   RangeValues three_samples \<lparr>OldestInclusive = 2500, NewestInclusive = 1500\<rparr> = Panic ''slice bounds out of range''"
proof -
  have s: "time_sorted three_samples" by (simp add: time_sorted_def three_samples_def)
  show ?thesis
    using range_values [OF s, of "\<lparr>OldestInclusive = 1500, NewestInclusive = 3000\<rparr>"]
      range_values [OF s, of "\<lparr>OldestInclusive = 2500, NewestInclusive = 1500\<rparr>"]
    by (simp add: three_samples_def)
qed

end
