(* ===== verification/Querier.thy ===== *)
theory Querier
  imports Sample_Iterator Chunk_Sets User_Id
begin

text \<open>
  Queriers (\<open>querier.go\<close>): the \<open>ChunkQuerier\<close> turns the chunks of a store into sample
  streams, and the \<open>MergeQuerier\<close> merges the streams of several queriers into iterators. Both
  group by the fingerprint of the metric in a Go map; the model keeps the map as an association
  list and lets \<open>ord\<close> be the order in which the final \<open>range\<close> visits it. Queries may change
  the state of the services behind them (\<open>'w\<close>). Decoding a chunk's data is an argument.
\<close>

section \<open>Grouping by fingerprint\<close>

abbreviation Fingerprint :: "metric \<Rightarrow> 64 word" where
  "Fingerprint \<equiv> labelSetToFingerprint"

type_synonym streams = "(64 word \<times> SampleStream) list"

fun add_values :: "64 word \<Rightarrow> metric \<Rightarrow> SamplePair list \<Rightarrow> streams \<Rightarrow> streams" where
  "add_values fp m vs [] = [(fp, \<lparr>ss_Metric = m, ss_Values = vs\<rparr>)]"
| "add_values fp m vs ((k, ss) # r) =
     (if k = fp then (k, ss\<lparr>ss_Values := ss_Values ss @ vs\<rparr>) # r else (k, ss) # add_values fp m vs r)"

definition group_step :: "streams \<Rightarrow> metric \<times> SamplePair list \<Rightarrow> streams" where
  "group_step acc x = add_values (Fingerprint (fst x)) (fst x) (snd x) acc"

definition group_streams :: "(metric \<times> SamplePair list) list \<Rightarrow> streams" where
  "group_streams xs = foldl group_step [] xs"

text \<open>Sort the values of every stream; list the streams in the order of the map iteration.\<close>

definition finish_streams :: "schedule \<Rightarrow> streams \<Rightarrow> SampleStream list" where
  "finish_streams ord acc = permute ord (map (\<lambda>x. (snd x)\<lparr>ss_Values := sort_by_time (ss_Values (snd x))\<rparr>) acc)"

section \<open>ChunkQuerier\<close>

type_synonym 'w store_get =
  "Context \<Rightarrow> Time \<Rightarrow> Time \<Rightarrow> LabelMatcher list \<Rightarrow> 'w \<Rightarrow> (err + Chunk list \<times> 'w) go"

definition ChunkQuerier_Query ::
  "(bytes \<Rightarrow> SamplePair list) \<Rightarrow> schedule \<Rightarrow> 'w store_get \<Rightarrow> Context \<Rightarrow> Time \<Rightarrow> Time \<Rightarrow> LabelMatcher list \<Rightarrow> 'w \<Rightarrow>
   (err + Matrix \<times> 'w) go" where
  "ChunkQuerier_Query decodeChunk ord get ctx from to matchers w =
     bind_err (get ctx from to matchers w) (\<lambda>(chunks, w').
       Ret (Inr (finish_streams ord (group_streams (map (\<lambda>c. (Metric c, decodeChunk (Data c))) chunks)), w')))"

definition ChunkQuerier_LabelValues :: "Context \<Rightarrow> LabelName \<Rightarrow> 'w \<Rightarrow> (err + LabelValue list \<times> 'w) go" where
  "ChunkQuerier_LabelValues ctx ln w = Ret (Inr ([], w))"

section \<open>MergeQuerier\<close>

record 'w Querier =
  q_Query :: "Context \<Rightarrow> Time \<Rightarrow> Time \<Rightarrow> LabelMatcher list \<Rightarrow> 'w \<Rightarrow> (err + Matrix \<times> 'w) go"
  q_LabelValues :: "Context \<Rightarrow> LabelName \<Rightarrow> 'w \<Rightarrow> (err + LabelValue list \<times> 'w) go"

definition as_group :: "Matrix \<Rightarrow> (metric \<times> SamplePair list) list" where
  "as_group matrix = map (\<lambda>ss. (ss_Metric ss, ss_Values ss)) matrix"

fun query_all ::
  "'w Querier list \<Rightarrow> Context \<Rightarrow> Time \<Rightarrow> Time \<Rightarrow> LabelMatcher list \<Rightarrow> streams \<Rightarrow> 'w \<Rightarrow> (err + streams \<times> 'w) go" where
  "query_all [] ctx from to matchers acc w = Ret (Inr (acc, w))"
| "query_all (q # qs) ctx from to matchers acc w =
     bind_err (q_Query q ctx from to matchers w) (\<lambda>(matrix, w').
       query_all qs ctx from to matchers (foldl group_step acc (as_group matrix)) w')"

definition QueryRange ::
  "'w Querier list \<Rightarrow> schedule \<Rightarrow> Context \<Rightarrow> Time \<Rightarrow> Time \<Rightarrow> LabelMatcher list \<Rightarrow> 'w \<Rightarrow> (err + SampleStream list \<times> 'w) go" where
  "QueryRange queriers ord ctx from to matchers w =
     bind_err (query_all queriers ctx from to matchers [] w) (\<lambda>(acc, w'). Ret (Inr (finish_streams ord acc, w')))"

definition QueryInstant ::
  "'w Querier list \<Rightarrow> schedule \<Rightarrow> Context \<Rightarrow> Time \<Rightarrow> int \<Rightarrow> LabelMatcher list \<Rightarrow> 'w \<Rightarrow> (err + SampleStream list \<times> 'w) go" where
  "QueryInstant queriers ord ctx ts stalenessDelta matchers w =
     QueryRange queriers ord ctx (Time_Add ts (- stalenessDelta)) ts matchers w"

definition MetricsForLabelMatchers :: "Time \<Rightarrow> Time \<Rightarrow> LabelMatcher list list \<Rightarrow> err + metric list" where
  "MetricsForLabelMatchers from through matcherSets = Inr []"

definition LastSampleForLabelMatchers :: "Time \<Rightarrow> LabelMatcher list list \<Rightarrow> err + Sample list" where
  "LastSampleForLabelMatchers cutoff matcherSets = Inr []"

text \<open>A set of values as a Go map, in the order of insertion.\<close>

definition add_all :: "'a list \<Rightarrow> 'a list \<Rightarrow> 'a list" where
  "add_all valueSet vals = foldl (\<lambda>s v. if v \<in> set s then s else s @ [v]) valueSet vals"

fun label_values_all :: "'w Querier list \<Rightarrow> Context \<Rightarrow> LabelName \<Rightarrow> LabelValue list \<Rightarrow> 'w \<Rightarrow> (err + LabelValue list \<times> 'w) go" where
  "label_values_all [] ctx name valueSet w = Ret (Inr (valueSet, w))"
| "label_values_all (q # qs) ctx name valueSet w =
     bind_err (q_LabelValues q ctx name w) (\<lambda>(vals, w').
       label_values_all qs ctx name (add_all valueSet vals) w')"

definition LabelValuesForLabelName ::
  "'w Querier list \<Rightarrow> schedule \<Rightarrow> Context \<Rightarrow> LabelName \<Rightarrow> 'w \<Rightarrow> (err + LabelValue list \<times> 'w) go" where
  "LabelValuesForLabelName queriers ord ctx name w =
     bind_err (label_values_all queriers ctx name [] w) (\<lambda>(valueSet, w'). Ret (Inr (permute ord valueSet, w')))"

section \<open>Grouping keeps every sample under its fingerprint\<close>

definition values_for :: "(metric \<times> SamplePair list) list \<Rightarrow> 64 word \<Rightarrow> SamplePair list" where
  "values_for xs fp = concat (map snd (filter (\<lambda>x. Fingerprint (fst x) = fp) xs))"

lemma values_for_append: "values_for (xs @ ys) fp = values_for xs fp @ values_for ys fp"
  by (simp add: values_for_def)

definition grouped :: "(metric \<times> SamplePair list) list \<Rightarrow> streams \<Rightarrow> bool" where
  "grouped xs acc \<longleftrightarrow> distinct (map fst acc) \<and> fst ` set acc = (Fingerprint \<circ> fst) ` set xs \<and>
     (\<forall>(fp, ss)\<in>set acc. ss_Metric ss \<in> fst ` set xs \<and> fp = Fingerprint (ss_Metric ss) \<and> ss_Values ss = values_for xs fp)"

lemma fst_add_values: "map fst (add_values fp m vs acc) = (if fp \<in> fst ` set acc then map fst acc else map fst acc @ [fp])"
  by (induction fp m vs acc rule: add_values.induct) auto

lemma set_add_values:
  "distinct (map fst acc) \<Longrightarrow> (k, ss) \<in> set (add_values fp m vs acc) \<Longrightarrow>
   (k \<noteq> fp \<and> (k, ss) \<in> set acc) \<or>
   (k = fp \<and> (\<exists>ss0. (fp, ss0) \<in> set acc \<and> ss = ss0\<lparr>ss_Values := ss_Values ss0 @ vs\<rparr>)) \<or>
   (k = fp \<and> fp \<notin> fst ` set acc \<and> ss = \<lparr>ss_Metric = m, ss_Values = vs\<rparr>)"
proof (induction fp m vs acc rule: add_values.induct)
  case (2 fp m vs j sj r)
  then show ?case by (cases "j = fp") force+
qed auto

lemma grouped_step:
  assumes "grouped xs acc"
  shows "grouped (xs @ [x]) (group_step acc x)"
proof -
  obtain m vs where x: "x = (m, vs)" by (cases x)
  let ?fp = "Fingerprint m"
  have d: "distinct (map fst acc)" and k: "fst ` set acc = (Fingerprint \<circ> fst) ` set xs"
    and e: "\<And>fp ss. (fp, ss) \<in> set acc \<Longrightarrow>
      ss_Metric ss \<in> fst ` set xs \<and> fp = Fingerprint (ss_Metric ss) \<and> ss_Values ss = values_for xs fp"
    using assms by (auto simp: grouped_def)
  have "distinct (map fst (group_step acc x))"
    using d by (auto simp: group_step_def x fst_add_values)
  moreover have "fst ` set (group_step acc x) = (Fingerprint \<circ> fst) ` set (xs @ [x])"
  proof -
    have "set (map fst (group_step acc x)) = insert ?fp (fst ` set acc)"
      unfolding group_step_def fst_add_values by (auto simp: x)
    then show ?thesis by (simp add: k x)
  qed
  moreover have "ss_Metric ss \<in> fst ` set (xs @ [x]) \<and> fp = Fingerprint (ss_Metric ss) \<and> ss_Values ss = values_for (xs @ [x]) fp"
    if mem: "(fp, ss) \<in> set (group_step acc x)" for fp ss
  proof -
    have v: "values_for (xs @ [x]) fp = values_for xs fp @ (if fp = ?fp then vs else [])"
      unfolding values_for_append by (auto simp: values_for_def x)
    have none: "values_for xs ?fp = []" if "?fp \<notin> fst ` set acc"
    proof -
      have "filter (\<lambda>y. Fingerprint (fst y) = ?fp) xs = []"
        using that unfolding k filter_empty_conv by (metis comp_apply imageI)
      then show ?thesis by (simp add: values_for_def)
    qed
    from set_add_values [OF d, of fp ss ?fp m vs] mem show ?thesis
      using e none unfolding v by (auto simp: group_step_def x)
  qed
  ultimately show ?thesis unfolding grouped_def by blast
qed

lemma grouped_foldl: "grouped xs acc \<Longrightarrow> grouped (xs @ ys) (foldl group_step acc ys)"
proof (induction ys arbitrary: xs acc)
  case (Cons y ys)
  from Cons.IH [OF grouped_step [OF Cons.prems]] show ?case by simp
qed simp

lemma grouped_Nil: "grouped [] []"
  by (simp add: grouped_def)

lemma grouped_streams: "grouped xs (group_streams xs)"
  using grouped_foldl [OF grouped_Nil, of xs] by (simp add: group_streams_def)

text \<open>
  What a grouping makes of a list of labelled sample lists, if no two metrics of the list
  share a fingerprint: one stream per metric, sorted by time, with all samples of that metric.
\<close>

definition merged :: "(metric \<times> SamplePair list) list \<Rightarrow> SampleStream list \<Rightarrow> bool" where
  "merged xs out \<longleftrightarrow> distinct (map ss_Metric out) \<and> ss_Metric ` set out = fst ` set xs \<and>
     (\<forall>ss\<in>set out. time_sorted ss \<and> mset (ss_Values ss) = mset (concat (map snd (filter (\<lambda>x. fst x = ss_Metric ss) xs))))"

lemma finish_merged:
  assumes g: "grouped xs acc" and inj: "inj_on Fingerprint (fst ` set xs)" and ord: "fair ord"
  shows "merged xs (finish_streams ord acc)"
proof -
  let ?f = "\<lambda>x. (snd x)\<lparr>ss_Values := sort_by_time (ss_Values (snd x))\<rparr>" and ?out = "finish_streams ord acc"
  have e: "ss_Metric ss \<in> fst ` set xs \<and> fp = Fingerprint (ss_Metric ss) \<and> ss_Values ss = values_for xs fp"
    if "(fp, ss) \<in> set acc" for fp ss
    using g that by (auto simp: grouped_def)
  have so: "set ?out = ?f ` set acc" by (simp add: finish_streams_def set_permute [OF ord])
  have "map fst acc = map (Fingerprint \<circ> ss_Metric \<circ> snd) acc" using e by (auto intro!: map_cong)
  moreover have "distinct (map fst acc)" using g by (simp add: grouped_def)
  ultimately have "distinct (map Fingerprint (map (\<lambda>x. ss_Metric (snd x)) acc))"
    unfolding map_map by (simp only: o_def)
  then have "distinct (map (\<lambda>x. ss_Metric (snd x)) acc)" by (simp only: distinct_map)
  moreover have "mset (map ss_Metric ?out) = mset (map (\<lambda>x. ss_Metric (snd x)) acc)"
    unfolding finish_streams_def mset_map mset_permute [OF ord] by (simp add: mset_map image_mset.compositionality o_def)
  ultimately have "distinct (map ss_Metric ?out)" by (metis mset_eq_imp_distinct_iff)
  moreover have "ss_Metric ` set ?out = fst ` set xs"
  proof -
    have "Fingerprint ` ss_Metric ` set ?out = Fingerprint ` fst ` set xs"
    proof -
      have "Fingerprint ` ss_Metric ` set ?out = fst ` set acc"
        unfolding so image_image using e by (force simp: image_iff)
      then show ?thesis using g by (simp add: grouped_def image_image o_def)
    qed
    moreover have "ss_Metric ` set ?out \<subseteq> fst ` set xs" unfolding so using e by auto
    ultimately show ?thesis by (simp only: inj_on_image_eq_iff [OF inj _ order_refl])
  qed
  moreover have "time_sorted ss \<and> mset (ss_Values ss) = mset (concat (map snd (filter (\<lambda>x. fst x = ss_Metric ss) xs)))"
    if ss: "ss \<in> set ?out" for ss
  proof -
    obtain fp s0 where s0: "(fp, s0) \<in> set acc" "ss = s0\<lparr>ss_Values := sort_by_time (ss_Values s0)\<rparr>"
      using ss unfolding so by auto
    note e0 = e [OF s0(1)]
    have "filter (\<lambda>x. Fingerprint (fst x) = fp) xs = filter (\<lambda>x. fst x = ss_Metric s0) xs"
      using e0 by (intro filter_cong) (auto dest: inj_onD [OF inj])
    then show ?thesis
      using e0 s0(2) by (simp add: time_sorted_def sort_by_time_def gosort.sort_sorted gosort.sort_perm values_for_def)
  qed
  ultimately show ?thesis unfolding merged_def by blast
qed

section \<open>Running all queriers\<close>

text \<open>The matrices the queriers return one after the other, each in the state the last left.\<close>

fun answers :: "'w Querier list \<Rightarrow> Context \<Rightarrow> Time \<Rightarrow> Time \<Rightarrow> LabelMatcher list \<Rightarrow> 'w \<Rightarrow> Matrix list \<Rightarrow> 'w \<Rightarrow> bool" where
  "answers [] ctx from to ms w Ms w' \<longleftrightarrow> Ms = [] \<and> w' = w"
| "answers (q # qs) ctx from to ms w Ms w' \<longleftrightarrow>
     (\<exists>M Ms' w1. Ms = M # Ms' \<and> q_Query q ctx from to ms w = Ret (Inr (M, w1)) \<and> answers qs ctx from to ms w1 Ms' w')"

lemma query_all_answers:
  "answers qs ctx from to ms w Ms w' \<Longrightarrow>
   query_all qs ctx from to ms acc w = Ret (Inr (foldl group_step acc (concat (map as_group Ms)), w'))"
  by (induction qs arbitrary: acc w Ms) auto

lemma query_all_fails:
  assumes "answers qs ctx from to ms w Ms w1" "q_Query q ctx from to ms w1 = Ret (Inl e)"
  shows "query_all (qs @ q # rest) ctx from to ms acc w = Ret (Inl e)"
  using assms by (induction qs arbitrary: acc w Ms) auto

lemma set_add_all: "set (add_all s vs) = set s \<union> set vs \<and> (distinct s \<longrightarrow> distinct (add_all s vs))"
  unfolding add_all_def by (induction vs arbitrary: s) auto

fun value_answers :: "'w Querier list \<Rightarrow> Context \<Rightarrow> LabelName \<Rightarrow> 'w \<Rightarrow> LabelValue list list \<Rightarrow> 'w \<Rightarrow> bool" where
  "value_answers [] ctx name w Vs w' \<longleftrightarrow> Vs = [] \<and> w' = w"
| "value_answers (q # qs) ctx name w Vs w' \<longleftrightarrow>
     (\<exists>V Vs' w1. Vs = V # Vs' \<and> q_LabelValues q ctx name w = Ret (Inr (V, w1)) \<and> value_answers qs ctx name w1 Vs' w')"

lemma label_values_all_answers:
  "value_answers qs ctx name w Vs w' \<Longrightarrow> distinct s \<Longrightarrow>
   \<exists>out. label_values_all qs ctx name s w = Ret (Inr (out, w')) \<and> distinct out \<and> set out = set s \<union> set (concat Vs)"
proof (induction qs arbitrary: s w Vs)
  case (Cons q qs)
  then obtain V Vs' w1 where V: "Vs = V # Vs'" "q_LabelValues q ctx name w = Ret (Inr (V, w1))" "value_answers qs ctx name w1 Vs' w'"
    by auto
  have "distinct (add_all s V)" using set_add_all [of s V] Cons.prems(2) by blast
  from Cons.IH [OF V(3) this] show ?case using V(1,2) set_add_all [of s V] by auto
qed auto

section \<open>Properties\<close>

lemma ChunkQuerier_merged:
  assumes "get ctx from to ms w = Ret (Inr (chunks, w'))" "inj_on Fingerprint (Metric ` set chunks)" "fair ord"
  shows "\<exists>out. ChunkQuerier_Query decodeChunk ord get ctx from to ms w = Ret (Inr (out, w')) \<and>
    merged (map (\<lambda>c. (Metric c, decodeChunk (Data c))) chunks) out"
proof -
  let ?xs = "map (\<lambda>c. (Metric c, decodeChunk (Data c))) chunks"
  have "merged ?xs (finish_streams ord (group_streams ?xs))"
    by (rule finish_merged [OF grouped_streams _ assms(3)]) (use assms(2) in \<open>simp add: image_image\<close>)
  then show ?thesis using assms(1) by (simp add: ChunkQuerier_Query_def)
qed

text \<open>
  C18: \<open>ChunkQuerier.Query\<close> returns one stream per metric among the store's chunks, sorted
  by time, holding exactly the samples of that metric's chunks, whatever the order of the map
  iterations, provided no two of these metrics share a fingerprint.
\<close>

theorem chunk_querier_streams:
  assumes "get ctx from to ms w = Ret (Inr (chunks, w'))" "inj_on Fingerprint (Metric ` set chunks)" "fair ord"
  shows "\<exists>out. ChunkQuerier_Query decodeChunk ord get ctx from to ms w = Ret (Inr (out, w')) \<and>
    merged (map (\<lambda>c. (Metric c, decodeChunk (Data c))) chunks) out"
  using assms by (rule ChunkQuerier_merged)

definition one_chunk :: Chunk where
  "one_chunk = \<lparr>ID = ''c1'', From = 1000, Through = 2000, Metric = [(''__name__'', ''up'')], Data = ''xy''\<rparr>"

definition byte_samples :: "bytes \<Rightarrow> SamplePair list" where
  "byte_samples d = map (\<lambda>c. \<lparr>sp_Timestamp = of_char c, sp_Value = 0\<rparr>) d"

theorem chunk_querier_streams_witness:
  "\<exists>out. ChunkQuerier_Query byte_samples in_order (\<lambda>ctx from to ms w. Ret (Inr ([one_chunk], w))) Background 0 9 [] () = Ret (Inr (out, ())) \<and>
     merged (map (\<lambda>c. (Metric c, byte_samples (Data c))) [one_chunk]) out"
  by (rule chunk_querier_streams) (simp_all add: inj_on_def)

lemma QueryRange_merged:
  assumes "answers qs ctx from to ms w Ms w'" "inj_on Fingerprint (ss_Metric ` set (concat Ms))" "fair ord"
  shows "\<exists>out. QueryRange qs ord ctx from to ms w = Ret (Inr (out, w')) \<and> merged (as_group (concat Ms)) out"
proof -
  have c: "concat (map as_group Ms) = as_group (concat Ms)" by (induction Ms) (simp_all add: as_group_def)
  have "merged (as_group (concat Ms)) (finish_streams ord (foldl group_step [] (as_group (concat Ms))))"
    using grouped_foldl [OF grouped_Nil, of "as_group (concat Ms)"] assms(2,3)
    by (intro finish_merged) (simp_all add: as_group_def image_image)
  then show ?thesis using query_all_answers [OF assms(1), of "[]"] by (simp add: QueryRange_def c)
qed

text \<open>
  C17: \<open>MergeQuerier.QueryRange\<close> returns one iterator per metric that any querier returned,
  its samples sorted by time and together exactly the samples all queriers returned for that
  metric, provided no two of these metrics share a fingerprint.
\<close>

theorem merge_querier_merges:
  assumes "answers qs ctx from to ms w Ms w'" "inj_on Fingerprint (ss_Metric ` set (concat Ms))" "fair ord"
  shows "\<exists>out. QueryRange qs ord ctx from to ms w = Ret (Inr (out, w')) \<and> merged (as_group (concat Ms)) out"
  by (rule QueryRange_merged [OF assms])

definition fixed_querier :: "Matrix \<Rightarrow> unit Querier" where
  "fixed_querier M = \<lparr>q_Query = (\<lambda>ctx from to ms w. Ret (Inr (M, w))), q_LabelValues = (\<lambda>ctx name w. Ret (Inr (map (\<lambda>ss. label_get (ss_Metric ss) name) M, w)))\<rparr>"

theorem merge_querier_merges_witness:
  "\<exists>out. QueryRange [fixed_querier [three_samples], fixed_querier [three_samples]] in_reverse Background 0 9 [] () = Ret (Inr (out, ())) \<and>
     merged (as_group (concat [[three_samples], [three_samples]])) out"
  by (rule merge_querier_merges) (simp_all add: fixed_querier_def inj_on_def)

text \<open>
  The first querier that fails decides the result of \<open>QueryRange\<close>: its error is
  returned and the queriers after it are not asked.
\<close>

lemma merge_querier_error:
  assumes "answers qs ctx from to ms w Ms w1" "q_Query q ctx from to ms w1 = Ret (Inl e)"
  shows "QueryRange (qs @ q # rest) ord ctx from to ms w = Ret (Inl e)"
  by (simp add: QueryRange_def query_all_fails [OF assms])

text \<open>
  \<open>MergeQuerier.LabelValuesForLabelName\<close> returns every label value that any of its
  queriers returned, each once.
\<close>

lemma merge_label_values:
  assumes "value_answers qs ctx name w Vs w'" "fair ord"
  shows "\<exists>out. LabelValuesForLabelName qs ord ctx name w = Ret (Inr (out, w')) \<and> distinct out \<and> set out = set (concat Vs)"
proof -
  obtain vs where vs: "label_values_all qs ctx name [] w = Ret (Inr (vs, w'))" "distinct vs" "set vs = set (concat Vs)"
    using label_values_all_answers [OF assms(1), of "[]"] by auto
  have "distinct (permute ord vs)" using vs(2) mset_permute [OF assms(2), of vs] by (metis mset_eq_imp_distinct_iff)
  then show ?thesis using vs by (simp add: LabelValuesForLabelName_def set_permute [OF assms(2)])
qed

end
