(* ===== verification/Distributor.thy ===== *)
theory Distributor
  imports Ring_Lookup Querier
begin

unbundle bit_operations_syntax

text \<open>
  The distributor (\<open>distributor.go\<close>): it hashes user and metric name to a token, asks the
  ring for the ingester of the token, and forwards appends and queries to that ingester's
  client. What it relies on of the ring is the interface \<open>read_ring\<close>. An ingester client is a
  record of operations over the state \<open>'w\<close> of the ingesters behind it.
\<close>

section \<open>Clients and the distributor\<close>

record 'w IngesterClient =
  c_Append :: "Context \<Rightarrow> Sample list \<Rightarrow> 'w \<Rightarrow> err option \<times> 'w"
  c_Query :: "Context \<Rightarrow> Time \<Rightarrow> Time \<Rightarrow> LabelMatcher list \<Rightarrow> 'w \<Rightarrow> (err + Matrix \<times> 'w) go"
  c_LabelValues :: "Context \<Rightarrow> LabelName \<Rightarrow> 'w \<Rightarrow> (err + LabelValue list \<times> 'w) go"

record ('r, 'w) Distributor =
  d_ring :: 'r
  clientFactory :: "string \<Rightarrow> err + 'w IngesterClient"
  clients :: "string \<rightharpoonup> 'w IngesterClient"

definition NewDistributor :: "'r \<Rightarrow> (string \<Rightarrow> err + 'w IngesterClient) \<Rightarrow> ('r, 'w) Distributor" where
  "NewDistributor r factory = \<lparr>d_ring = r, clientFactory = factory, clients = Map.empty\<rparr>"

definition getClientFor :: "string \<Rightarrow> ('r, 'w) Distributor \<Rightarrow> (err + 'w IngesterClient) \<times> ('r, 'w) Distributor" where
  "getClientFor hostname d =
     (case clients d hostname of
        Some client \<Rightarrow> (Inr client, d)
      | None \<Rightarrow>
          (case clientFactory d hostname of
             Inl e \<Rightarrow> (Inl e, d)
           | Inr client \<Rightarrow> (Inr client, d\<lparr>clients := (clients d)(hostname \<mapsto> client)\<rparr>)))"

section \<open>Tokens\<close>

text \<open>\<open>hash/fnv.New32\<close>: 32-bit FNV-1, the multiplication before the xor.\<close>

definition fnv32_byte :: "32 word \<Rightarrow> char \<Rightarrow> 32 word" where
  "fnv32_byte h b = (h * 16777619) XOR word_of_nat (of_char b)"

definition fnv32_write :: "32 word \<Rightarrow> bytes \<Rightarrow> 32 word" where
  "fnv32_write h bs = foldl fnv32_byte h bs"

definition tokenFor :: "string \<Rightarrow> LabelValue \<Rightarrow> 32 word" where
  "tokenFor userID name = fnv32_write (fnv32_write 2166136261 userID) name"

definition tokenForMetric :: "string \<Rightarrow> metric \<Rightarrow> 32 word" where
  "tokenForMetric userID m = tokenFor userID (label_get m MetricNameLabel)"

section \<open>Append\<close>

type_synonym 'r ring_get = "'r \<Rightarrow> 32 word \<Rightarrow> err + IngesterDesc"

text \<open>\<open>samplesByIngester\<close>: the Go map, as an association list in the order of insertion.\<close>

fun add_sample :: "string \<Rightarrow> Sample \<Rightarrow> (string \<times> Sample list) list \<Rightarrow> (string \<times> Sample list) list" where
  "add_sample h s [] = [(h, [s])]"
| "add_sample h s ((k, ss) # r) = (if k = h then (k, ss @ [s]) # r else (k, ss) # add_sample h s r)"

fun group_samples ::
  "'r ring_get \<Rightarrow> 'r \<Rightarrow> string \<Rightarrow> Sample list \<Rightarrow> (string \<times> Sample list) list \<Rightarrow> err + (string \<times> Sample list) list" where
  "group_samples get r userID [] acc = Inr acc"
| "group_samples get r userID (s # ss) acc =
     (case get r (tokenForMetric userID (s_Metric s)) of
        Inl e \<Rightarrow> Inl e
      | Inr collector \<Rightarrow> group_samples get r userID ss (add_sample (Hostname collector) s acc))"

definition sendSamples ::
  "Context \<Rightarrow> string \<times> Sample list \<Rightarrow> ('r, 'w) Distributor \<times> 'w \<Rightarrow> err option \<times> ('r, 'w) Distributor \<times> 'w" where
  "sendSamples ctx hs dw =
     (case getClientFor (fst hs) (fst dw) of
        (Inl e, d') \<Rightarrow> (Some e, d', snd dw)
      | (Inr client, d') \<Rightarrow> (case c_Append client ctx (snd hs) (snd dw) of (e, w') \<Rightarrow> (e, d', w')))"

fun send_all ::
  "Context \<Rightarrow> (string \<times> Sample list) list \<Rightarrow> ('r, 'w) Distributor \<times> 'w \<Rightarrow> err option list \<times> ('r, 'w) Distributor \<times> 'w" where
  "send_all ctx [] dw = ([], dw)"
| "send_all ctx (hs # rest) dw =
     (case sendSamples ctx hs dw of (e, dw1) \<Rightarrow> (case send_all ctx rest dw1 of (es, dw2) \<Rightarrow> (e # es, dw2)))"

definition Append ::
  "'r ring_get \<Rightarrow> schedule \<Rightarrow> Context \<Rightarrow> Sample list \<Rightarrow> ('r, 'w) Distributor \<times> 'w \<Rightarrow> err option \<times> ('r, 'w) Distributor \<times> 'w" where
  "Append get sched ctx samples dw =
     (case GetID ctx of
        Inl e \<Rightarrow> (Some e, dw)
      | Inr userID \<Rightarrow>
          (case group_samples get (d_ring (fst dw)) userID samples [] of
             Inl e \<Rightarrow> (Some e, dw)
           | Inr groups \<Rightarrow> (case send_all ctx (permute sched groups) dw of (es, dw') \<Rightarrow> (last_err es, dw'))))"

section \<open>Query\<close>

fun metricNameFromLabelMatchers :: "LabelMatcher list \<Rightarrow> err + LabelValue" where
  "metricNameFromLabelMatchers [] = Inl (Err ''no metric name matcher found'')"
| "metricNameFromLabelMatchers (m # ms) =
     (if m_Name m = MetricNameLabel then
        (if m_Type m \<noteq> Equal then Inl (Err ''non-equality matchers are not supported on the metric name'')
         else Inr (m_Value m))
      else metricNameFromLabelMatchers ms)"

definition Distributor_Query ::
  "'r ring_get \<Rightarrow> Context \<Rightarrow> Time \<Rightarrow> Time \<Rightarrow> LabelMatcher list \<Rightarrow> ('r, 'w) Distributor \<times> 'w \<Rightarrow>
   (err + Matrix \<times> ('r, 'w) Distributor \<times> 'w) go" where
  "Distributor_Query get ctx from to matchers dw =
     (case metricNameFromLabelMatchers matchers of
        Inl e \<Rightarrow> Ret (Inl e)
      | Inr metricName \<Rightarrow>
     (case GetID ctx of
        Inl e \<Rightarrow> Ret (Inl e)
      | Inr userID \<Rightarrow>
     (case get (d_ring (fst dw)) (tokenFor userID metricName) of
        Inl e \<Rightarrow> Ret (Inl e)
      | Inr collector \<Rightarrow>
     (case getClientFor (Hostname collector) (fst dw) of
        (Inl e, d') \<Rightarrow> Ret (Inl e)
      | (Inr client, d') \<Rightarrow>
          bind_err (c_Query client ctx from to matchers (snd dw)) (\<lambda>(result, w'). Ret (Inr (result, d', w')))))))"

text \<open>\<open>all\<close> is what \<open>ring.GetAll\<close> returned.\<close>

fun label_values_loop ::
  "IngesterDesc list \<Rightarrow> Context \<Rightarrow> LabelName \<Rightarrow> LabelValue list \<Rightarrow> ('r, 'w) Distributor \<times> 'w \<Rightarrow>
   (err + LabelValue list \<times> ('r, 'w) Distributor \<times> 'w) go" where
  "label_values_loop [] ctx labelName valueSet dw = Ret (Inr (valueSet, dw))"
| "label_values_loop (c # cs) ctx labelName valueSet dw =
     (case getClientFor (Hostname c) (fst dw) of
        (Inl e, d') \<Rightarrow> Ret (Inl e)
      | (Inr client, d') \<Rightarrow>
          bind_err (c_LabelValues client ctx labelName (snd dw)) (\<lambda>(vals, w').
            label_values_loop cs ctx labelName (add_all valueSet vals) (d', w')))"

definition Distributor_LabelValues ::
  "('r \<Rightarrow> IngesterDesc list) \<Rightarrow> schedule \<Rightarrow> Context \<Rightarrow> LabelName \<Rightarrow> ('r, 'w) Distributor \<times> 'w \<Rightarrow>
   (err + LabelValue list \<times> ('r, 'w) Distributor \<times> 'w) go" where
  "Distributor_LabelValues getAll ord ctx labelName dw =
     bind_err (label_values_loop (getAll (d_ring (fst dw))) ctx labelName [] dw)
       (\<lambda>(valueSet, dw'). Ret (Inr (permute ord valueSet, dw')))"

definition NeedsThrottling :: "Context \<Rightarrow> bool" where
  "NeedsThrottling ctx = False"

section \<open>The interface of the ring\<close>

locale read_ring =
  fixes get :: "'r ring_get" and members :: "'r \<Rightarrow> IngesterDesc set" and inv :: "'r \<Rightarrow> bool"
  assumes get_member: "inv r \<Longrightarrow> get r key = Inr x \<Longrightarrow> x \<in> members r"
    and get_total: "inv r \<Longrightarrow> get r key = Inl e \<Longrightarrow> get r key' = Inl e"
begin

text \<open>Where a sample goes.\<close>

definition host :: "'r \<Rightarrow> string \<Rightarrow> Sample \<Rightarrow> string" where
  "host r u s = (case get r (tokenForMetric u (s_Metric s)) of Inl e \<Rightarrow> [] | Inr x \<Rightarrow> Hostname x)"

definition covers :: "'r \<Rightarrow> string \<Rightarrow> Sample list \<Rightarrow> bool" where
  "covers r u ss \<longleftrightarrow> (\<forall>s\<in>set ss. \<exists>x. get r (tokenForMetric u (s_Metric s)) = Inr x)"

definition grouping :: "'r \<Rightarrow> string \<Rightarrow> Sample list \<Rightarrow> (string \<times> Sample list) list \<Rightarrow> bool" where
  "grouping r u ss acc \<longleftrightarrow> distinct (map fst acc) \<and> fst ` set acc = host r u ` set ss \<and>
     (\<forall>(h, xs)\<in>set acc. xs = filter (\<lambda>s. host r u s = h) ss)"

end

lemma fst_add_sample: "map fst (add_sample h s acc) = (if h \<in> fst ` set acc then map fst acc else map fst acc @ [h])"
  by (induction h s acc rule: add_sample.induct) auto

lemma set_add_sample:
  "distinct (map fst acc) \<Longrightarrow> (k, xs) \<in> set (add_sample h s acc) \<Longrightarrow>
   (k \<noteq> h \<and> (k, xs) \<in> set acc) \<or> (k = h \<and> (\<exists>xs0. (h, xs0) \<in> set acc \<and> xs = xs0 @ [s])) \<or>
   (k = h \<and> h \<notin> fst ` set acc \<and> xs = [s])"
proof (induction h s acc rule: add_sample.induct)
  case (2 h s j ss r)
  then show ?case by (cases "j = h") force+
qed auto

context read_ring
begin

lemma grouping_step:
  assumes "grouping r u ss acc"
  shows "grouping r u (ss @ [s]) (add_sample (host r u s) s acc)"
proof -
  let ?h = "host r u s"
  have d: "distinct (map fst acc)" and k: "fst ` set acc = host r u ` set ss"
    and e: "\<And>h xs. (h, xs) \<in> set acc \<Longrightarrow> xs = filter (\<lambda>s. host r u s = h) ss"
    using assms by (auto simp: grouping_def)
  have none: "filter (\<lambda>s. host r u s = ?h) ss = []" if "?h \<notin> fst ` set acc"
    using that unfolding k filter_empty_conv by (metis imageI)
  have "distinct (map fst (add_sample ?h s acc))" using d by (auto simp: fst_add_sample)
  moreover have "fst ` set (add_sample ?h s acc) = host r u ` set (ss @ [s])"
  proof -
    have "set (map fst (add_sample ?h s acc)) = insert ?h (fst ` set acc)" unfolding fst_add_sample by auto
    then show ?thesis by (simp add: k)
  qed
  moreover have "xs = filter (\<lambda>s. host r u s = h) (ss @ [s])" if "(h, xs) \<in> set (add_sample ?h s acc)" for h xs
    using set_add_sample [OF d that] e none by auto
  ultimately show ?thesis unfolding grouping_def by blast
qed

lemma group_samples_grouping:
  "covers r u ss \<Longrightarrow> grouping r u pre acc \<Longrightarrow>
   \<exists>g. group_samples get r u ss acc = Inr g \<and> grouping r u (pre @ ss) g"
proof (induction ss arbitrary: pre acc)
  case (Cons s ss)
  then obtain x where x: "get r (tokenForMetric u (s_Metric s)) = Inr x" by (auto simp: covers_def)
  then have h: "Hostname x = host r u s" by (simp add: host_def)
  have "covers r u ss" using Cons.prems(1) by (simp add: covers_def)
  from Cons.IH [OF this grouping_step [OF Cons.prems(2), of s]] show ?case using x h by simp
qed simp

lemma grouping_Nil: "grouping r u [] []"
  by (simp add: grouping_def)

text \<open>What is sent to a host is what belongs to it, in any order of the hosts.\<close>

lemma groups_per_host:
  assumes "covers r u ss" "fair sched"
  shows "\<exists>g. group_samples get r u ss [] = Inr g \<and> distinct (map fst (permute sched g)) \<and>
    (\<forall>h. (case map_of (permute sched g) h of None \<Rightarrow> [] | Some xs \<Rightarrow> xs) = filter (\<lambda>s. host r u s = h) ss)"
proof -
  obtain g where g: "group_samples get r u ss [] = Inr g" "grouping r u ([] @ ss) g"
    using group_samples_grouping [OF assms(1) grouping_Nil] by blast
  have d: "distinct (map fst g)" using g(2) by (simp add: grouping_def)
  have m: "mset (permute sched g) = mset g" by (rule mset_permute [OF assms(2)])
  then have dp: "distinct (map fst (permute sched g))" using d by (metis mset_eq_imp_distinct_iff mset_map)
  have mo: "map_of (permute sched g) = map_of g" by (rule map_of_mset_eq [OF dp m])
  have "(case map_of (permute sched g) h of None \<Rightarrow> [] | Some xs \<Rightarrow> xs) = filter (\<lambda>s. host r u s = h) ss" for h
  proof (cases "map_of g h")
    case None
    then have "h \<notin> host r u ` set ss" using g(2) by (simp add: grouping_def map_of_eq_None_iff)
    then have "filter (\<lambda>s. host r u s = h) ss = []" unfolding filter_empty_conv by (metis imageI)
    then show ?thesis using None mo by simp
  next
    case (Some xs)
    then have "(h, xs) \<in> set g" by (rule map_of_SomeD)
    then show ?thesis using Some mo g(2) by (auto simp: grouping_def)
  qed
  then show ?thesis using g(1) dp by blast
qed

text \<open>Samples are only ever sent to members of the ring.\<close>

lemma host_member: "inv r \<Longrightarrow> covers r u ss \<Longrightarrow> s \<in> set ss \<Longrightarrow> \<exists>x\<in>members r. host r u s = Hostname x"
  using get_member by (fastforce simp: covers_def host_def)

lemma covers_all:
  assumes "inv r" "get r key = Inr x"
  shows "covers r u ss"
  unfolding covers_def
proof
  fix s assume "s \<in> set ss"
  show "\<exists>x. get r (tokenForMetric u (s_Metric s)) = Inr x"
    using get_total [OF assms(1), of "tokenForMetric u (s_Metric s)" _ key] assms(2)
    by (cases "get r (tokenForMetric u (s_Metric s))") auto
qed

end

interpretation ringread: read_ring ring_Get "\<lambda>r. ran (Ingesters (ringDesc r))" "\<lambda>r. wf_desc (ringDesc r)"
proof
  fix r key x assume wf: "wf_desc (ringDesc r)" and g: "ring_Get r key = Inr x"
  have ne: "Tokens (ringDesc r) \<noteq> []" using g by (auto simp: ring_Get_def Let_def split: if_splits)
  then have "Tokens (ringDesc r) ! ring_search r key \<in> set (Tokens (ringDesc r))" using ring_search_less [OF ne] by simp
  then obtain y where "Ingesters (ringDesc r) (Ingester (Tokens (ringDesc r) ! ring_search r key)) = Some y"
    using wf by (auto simp: wf_desc_def)
  then show "x \<in> ran (Ingesters (ringDesc r))" using g ne by (auto simp: ring_Get_def Let_def intro: ranI)
next
  fix r key e key' assume "ring_Get r key = Inl e"
  then show "ring_Get r key' = Inl e" by (auto simp: ring_Get_def Let_def split: if_splits)
qed

section \<open>Deliveries\<close>

text \<open>
  Clients whose appends arrive: a world records per host the samples it was sent, with the
  context of the call.
\<close>

type_synonym deliveries = "string \<Rightarrow> (Context \<times> Sample) list"

definition delivers :: "(string \<Rightarrow> err + deliveries IngesterClient) \<Rightarrow> bool" where
  "delivers factory \<longleftrightarrow>
     (\<forall>h. \<exists>c. factory h = Inr c \<and> (\<forall>ctx ss w. c_Append c ctx ss w = (None, w(h := w h @ map (Pair ctx) ss))))"

definition clients_ok :: "('r, 'w) Distributor \<Rightarrow> bool" where
  "clients_ok d \<longleftrightarrow> (\<forall>h c. clients d h = Some c \<longrightarrow> clientFactory d h = Inr c)"

lemma clients_ok_new [wf_intros]: "clients_ok (NewDistributor r factory)"
  by (simp add: clients_ok_def NewDistributor_def)

lemma getClientFor_ok:
  assumes "clients_ok d" "clientFactory d h = Inr c"
  shows "\<exists>d'. getClientFor h d = (Inr c, d') \<and> clients_ok d' \<and> clientFactory d' = clientFactory d \<and> d_ring d' = d_ring d"
  using assms by (cases "clients d h") (auto simp: getClientFor_def clients_ok_def)

lemma send_all_delivers:
  assumes "delivers (clientFactory d)" "clients_ok d" "distinct (map fst gs)"
  shows "\<exists>es d' w'. send_all ctx gs (d, w) = (es, d', w') \<and> last_err es = None \<and> clients_ok d' \<and> d_ring d' = d_ring d \<and>
    clientFactory d' = clientFactory d \<and>
    (\<forall>h. w' h = w h @ (case map_of gs h of None \<Rightarrow> [] | Some ss \<Rightarrow> map (Pair ctx) ss))"
proof -
  have "\<exists>d' w'. send_all ctx gs (d, w) = (replicate (length gs) None, d', w') \<and> clients_ok d' \<and> d_ring d' = d_ring d \<and>
    clientFactory d' = clientFactory d \<and>
    (\<forall>h. w' h = w h @ (case map_of gs h of None \<Rightarrow> [] | Some ss \<Rightarrow> map (Pair ctx) ss))"
    using assms
  proof (induction gs arbitrary: d w)
    case (Cons g gs)
    obtain h ss where g: "g = (h, ss)" by (cases g)
    obtain c where c: "clientFactory d h = Inr c" "\<And>ctx ss w. c_Append c ctx ss w = (None, w(h := w h @ map (Pair ctx) ss))"
      using Cons.prems(1) unfolding delivers_def by blast
    obtain d1 where d1: "getClientFor h d = (Inr c, d1)" "clients_ok d1" "clientFactory d1 = clientFactory d" "d_ring d1 = d_ring d"
      using getClientFor_ok [OF Cons.prems(2) c(1)] by blast
    let ?w1 = "w(h := w h @ map (Pair ctx) ss)"
    obtain d' w' where r: "send_all ctx gs (d1, ?w1) = (replicate (length gs) None, d', w')" "clients_ok d'" "d_ring d' = d_ring d"
      "clientFactory d' = clientFactory d"
      "\<forall>h. w' h = ?w1 h @ (case map_of gs h of None \<Rightarrow> [] | Some ss \<Rightarrow> map (Pair ctx) ss)"
    proof -
      have "delivers (clientFactory d1)" "distinct (map fst gs)" using Cons.prems(1,3) d1(3) by simp_all
      from Cons.IH [OF this(1) d1(2) this(2), of ?w1] show ?thesis using that unfolding d1(3,4) by blast
    qed
    have "map_of gs h = None" using Cons.prems(3) by (simp add: g map_of_eq_None_iff)
    then have "\<forall>k. w' k = w k @ (case map_of (g # gs) k of None \<Rightarrow> [] | Some ss \<Rightarrow> map (Pair ctx) ss)"
      using r(5) by (auto simp: g)
    then show ?case using r(1-4) d1(1) c(2) by (auto simp: g sendSamples_def)
  qed simp
  then show ?thesis using last_err_None_iff by fastforce
qed

section \<open>Properties\<close>

text \<open>
  On a well-formed ring with tokens, and with clients that deliver, \<open>Append\<close> succeeds
  and every sample is sent exactly once, to the ingester that owns the token of its user and
  metric name; each ingester gets its samples in their order, whatever the order in which the
  goroutines complete.
\<close>

lemma append_delivers:
  assumes "wf_desc (ringDesc (d_ring d))" "Tokens (ringDesc (d_ring d)) \<noteq> []" "GetID ctx = Inr u"
    and "delivers (clientFactory d)" "clients_ok d" "fair sched"
  shows "\<exists>d' w'. Append ring_Get sched ctx samples (d, w) = (None, d', w') \<and> clients_ok d' \<and> d_ring d' = d_ring d \<and>
    (\<forall>h. w' h = w h @ map (Pair ctx)
      (filter (\<lambda>s. \<exists>x. ring_Get (d_ring d) (tokenForMetric u (s_Metric s)) = Inr x \<and> Hostname x = h) samples))"
proof -
  let ?r = "d_ring d"
  have "\<exists>x. ring_Get ?r 0 = Inr x" using assms(2) by (simp add: ring_Get_def Let_def)
  then have cov: "ringread.covers ?r u samples" using ringread.covers_all [OF assms(1)] by blast
  then obtain g where g: "group_samples ring_Get ?r u samples [] = Inr g" "distinct (map fst (permute sched g))"
    "\<forall>h. (case map_of (permute sched g) h of None \<Rightarrow> [] | Some xs \<Rightarrow> xs) = filter (\<lambda>s. ringread.host ?r u s = h) samples"
    using ringread.groups_per_host [OF _ assms(6)] by blast
  obtain es d' w' where sent: "send_all ctx (permute sched g) (d, w) = (es, d', w')" "last_err es = None" "clients_ok d'" "d_ring d' = ?r"
    "\<forall>h. w' h = w h @ (case map_of (permute sched g) h of None \<Rightarrow> [] | Some ss \<Rightarrow> map (Pair ctx) ss)"
    using send_all_delivers [OF assms(4,5) g(2)] by blast
  have "(case map_of (permute sched g) h of None \<Rightarrow> [] | Some ss \<Rightarrow> map (Pair ctx) ss) =
      map (Pair ctx) (filter (\<lambda>s. \<exists>x. ring_Get ?r (tokenForMetric u (s_Metric s)) = Inr x \<and> Hostname x = h) samples)" for h
  proof -
    have eq: "ringread.host ?r u s = h \<longleftrightarrow> (\<exists>x. ring_Get ?r (tokenForMetric u (s_Metric s)) = Inr x \<and> Hostname x = h)"
      if "s \<in> set samples" for s
      using cov that by (auto simp: ringread.host_def ringread.covers_def)
    have "(case map_of (permute sched g) h of None \<Rightarrow> [] | Some ss \<Rightarrow> map (Pair ctx) ss) =
        map (Pair ctx) (case map_of (permute sched g) h of None \<Rightarrow> [] | Some xs \<Rightarrow> xs)"
      by (simp split: option.split)
    then show ?thesis unfolding g(3) [rule_format, of h] using eq by (simp cong: filter_cong)
  qed
  then show ?thesis using sent by (simp add: Append_def assms(3) g(1))
qed

definition log_client :: "string \<Rightarrow> deliveries IngesterClient" where
  "log_client h = \<lparr>c_Append = (\<lambda>ctx ss w. (None, w(h := w h @ map (Pair ctx) ss))),
     c_Query = (\<lambda>ctx from to ms w. Ret (Inr ([\<lparr>ss_Metric = [(''host'', h)], ss_Values = []\<rparr>], w))),
     c_LabelValues = (\<lambda>ctx ln w. Ret (Inr ([h], w)))\<rparr>"

definition log_distributor :: "(Ring, deliveries) Distributor" where
  "log_distributor = NewDistributor two_ring (\<lambda>h. Inr (log_client h))"

definition up_sample :: Sample where
  "up_sample = \<lparr>s_Metric = [(''__name__'', ''up'')], s_Value = 0, s_Timestamp = 1000\<rparr>"

text \<open>
  An append that the ring cannot route, for whatever sample, returns the ring's error and
  sends nothing at all; on a ring without tokens that is \<open>ErrEmptyRing\<close>.
\<close>

lemma append_unroutable:
  assumes "Tokens (ringDesc (d_ring d)) = []" "GetID ctx = Inr u" "samples \<noteq> []"
  shows "Append ring_Get sched ctx samples (d, w) = (Some ErrEmptyRing, d, w)"
  using assms by (cases samples) (simp_all add: Append_def ring_Get_def)

text \<open>
  Queries go where appends went. A query with an equality matcher on the metric name is
  answered by the client of the ingester that the ring gives for every sample with that name
  and user; what the distributor returns is that client's answer.
\<close>

lemma query_follows_append:
  assumes "metricNameFromLabelMatchers ms = Inr n" "GetID ctx = Inr u" "ring_Get (d_ring d) (tokenFor u n) = Inr x"
    and "clients_ok d" "clientFactory d (Hostname x) = Inr c" "c_Query c ctx from to ms w = Ret (Inr (M, w'))"
  shows "(\<exists>d'. Distributor_Query ring_Get ctx from to ms (d, w) = Ret (Inr (M, d', w')) \<and> clients_ok d' \<and> d_ring d' = d_ring d) \<and>
    (\<forall>s. label_get (s_Metric s) MetricNameLabel = n \<longrightarrow> ring_Get (d_ring d) (tokenForMetric u (s_Metric s)) = Inr x)"
proof
  obtain d' where "getClientFor (Hostname x) d = (Inr c, d')" "clients_ok d'" "d_ring d' = d_ring d"
    using getClientFor_ok [OF assms(4,5)] by blast
  then show "\<exists>d'. Distributor_Query ring_Get ctx from to ms (d, w) = Ret (Inr (M, d', w')) \<and> clients_ok d' \<and> d_ring d' = d_ring d"
    using assms(1-3,6) by (simp add: Distributor_Query_def)
qed (simp add: tokenForMetric_def assms(3))

definition name_matcher :: "string \<Rightarrow> LabelMatcher" where
  "name_matcher n = \<lparr>m_Type = Equal, m_Name = MetricNameLabel, m_Value = n, m_re = (\<lambda>_. False)\<rparr>"

end
