(* ===== verification/Server.thy ===== *)
theory Server
  imports Sample_Iterator User_Id
begin

text \<open>
  The HTTP handlers of distributor and ingester (\<open>server.go\<close>) and the messages they exchange
  with the client (vendored \<open>storage/remote\<close> and \<open>storage/remote/generic\<close>). Protocol buffer
  codecs and snappy are arguments; a request is its path, the user header and its body, a
  response its status and body. The appender and the querier behind the handlers work on a
  state \<open>'w\<close>.
\<close>

section \<open>Messages\<close>

type_synonym LabelPair = "string \<times> string"

record TimeSeries =
  ts_Labels :: "LabelPair list"
  ts_Samples :: "(SampleValue \<times> int) list"

type_synonym WriteRequest = "TimeSeries list"
type_synonym WriteResponse = unit

text \<open>An optional field of a proto2 message is an option; a getter of a missing one gives zero.\<close>

record GenericLabelMatcher =
  gm_Type :: "int option"
  gm_Name :: "string option"
  gm_Value :: "string option"

record GenericReadRequest =
  StartTimestampMs :: "int option"
  EndTimestampMs :: "int option"
  Matchers :: "GenericLabelMatcher list"

record GenericTimeSeries =
  g_Name :: "string option"
  g_Labels :: "(string option \<times> string option) list"
  g_Samples :: "(SampleValue option \<times> int option) list"

type_synonym GenericReadResponse = "GenericTimeSeries list"
type_synonym GenericLabelValuesRequest = "string option"
type_synonym GenericLabelValuesResponse = "string list"

definition get_string :: "string option \<Rightarrow> string" where "get_string x = (case x of None \<Rightarrow> [] | Some s \<Rightarrow> s)"
definition get_int :: "int option \<Rightarrow> int" where "get_int x = (case x of None \<Rightarrow> 0 | Some i \<Rightarrow> i)"
definition get_value :: "SampleValue option \<Rightarrow> SampleValue" where "get_value x = (case x of None \<Rightarrow> 0 | Some v \<Rightarrow> v)"

text \<open>The enum \<open>generic.MatchType\<close>.\<close>

definition MatchType_EQUAL :: int where "MatchType_EQUAL = 0"
definition MatchType_NOT_EQUAL :: int where "MatchType_NOT_EQUAL = 1"
definition MatchType_REGEX_MATCH :: int where "MatchType_REGEX_MATCH = 2"
definition MatchType_REGEX_NO_MATCH :: int where "MatchType_REGEX_NO_MATCH = 3"

lemmas MatchType_defs = MatchType_EQUAL_def MatchType_NOT_EQUAL_def MatchType_REGEX_MATCH_def MatchType_REGEX_NO_MATCH_def

record 'm Proto =
  p_Marshal :: "'m \<Rightarrow> err + bytes"
  p_Unmarshal :: "bytes \<Rightarrow> err + 'm"

record Snappy =
  compress :: "bytes \<Rightarrow> bytes"
  decompress :: "bytes \<Rightarrow> err + bytes"

record HttpRequest =
  r_Path :: string
  r_UserID :: string
  r_Body :: bytes

record HttpResponse =
  StatusCode :: int
  resp_Body :: bytes

definition http_error :: "string \<Rightarrow> int \<Rightarrow> HttpResponse" where
  "http_error m code = \<lparr>StatusCode = code, resp_Body = m @ [CHR 0x0A]\<rparr>"

section \<open>Requests and responses\<close>

definition parseRequest :: "'m Proto \<Rightarrow> HttpRequest \<Rightarrow> HttpResponse + Context \<times> 'm" where
  "parseRequest P r =
     (if r_UserID r = [] then Inl (http_error [] 401)
      else
        (case p_Unmarshal P (r_Body r) of
           Inl e \<Rightarrow> Inl (http_error (msg e) 400)
         | Inr req \<Rightarrow> Inr (WithID Background (r_UserID r), req)))"

definition writeResponse :: "'m Proto \<Rightarrow> 'm \<Rightarrow> HttpResponse" where
  "writeResponse P resp =
     (case p_Marshal P resp of
        Inl e \<Rightarrow> http_error (msg e) 500
      | Inr data \<Rightarrow> \<lparr>StatusCode = 200, resp_Body = data\<rparr>)"

section \<open>Appending\<close>

type_synonym 'w appender = "Context \<Rightarrow> Sample list \<Rightarrow> 'w \<Rightarrow> (err option \<times> 'w) go"

definition labels_metric :: "LabelPair list \<Rightarrow> metric" where
  "labels_metric ls = foldl (\<lambda>m l. label_set (fst l) (snd l) m) [] ls"

definition series_samples :: "TimeSeries \<Rightarrow> Sample list" where
  "series_samples ts =
     map (\<lambda>s. \<lparr>s_Metric = labels_metric (ts_Labels ts), s_Value = fst s, s_Timestamp = snd s\<rparr>) (ts_Samples ts)"

definition grpc_Write :: "'w appender \<Rightarrow> Context \<Rightarrow> WriteRequest \<Rightarrow> 'w \<Rightarrow> ((err + WriteResponse) \<times> 'w) go" where
  "grpc_Write appd ctx req w =
     bind_go (appd ctx (concat (map series_samples req)) w) (\<lambda>(e, w').
       case e of Some err \<Rightarrow> Ret (Inl err, w') | None \<Rightarrow> Ret (Inr (), w'))"

definition AppenderHandler ::
  "WriteRequest Proto \<Rightarrow> WriteResponse Proto \<Rightarrow> Snappy \<Rightarrow> 'w appender \<Rightarrow> HttpRequest \<Rightarrow> 'w \<Rightarrow> (HttpResponse \<times> 'w) go" where
  "AppenderHandler P Q Z appd r w =
     (if r_UserID r = [] then Ret (http_error [] 401, w)
      else
        (case decompress Z (r_Body r) of
           Inl e \<Rightarrow> Ret (http_error (msg e) 400, w)
         | Inr reqBuf \<Rightarrow>
        (case p_Unmarshal P reqBuf of
           Inl e \<Rightarrow> Ret (http_error (msg e) 400, w)
         | Inr req \<Rightarrow>
             bind_go (grpc_Write appd (WithID Background (r_UserID r)) req w) (\<lambda>(r, w').
               case r of
                 Inl e \<Rightarrow> Ret (http_error (msg e) 500, w')
               | Inr resp \<Rightarrow>
                   (case p_Marshal Q resp of
                      Inl e \<Rightarrow> Ret (http_error (msg e) 500, w')
                    | Inr respBuf \<Rightarrow> Ret (\<lparr>StatusCode = 200, resp_Body = compress Z respBuf\<rparr>, w'))))))"

section \<open>Querying\<close>

type_synonym 'w query = "Context \<Rightarrow> Time \<Rightarrow> Time \<Rightarrow> LabelMatcher list \<Rightarrow> 'w \<Rightarrow> (err + Matrix \<times> 'w) go"

definition match_type :: "int \<Rightarrow> MatchType option" where
  "match_type t =
     (if t = MatchType_EQUAL then Some Equal
      else if t = MatchType_NOT_EQUAL then Some NotEqual
      else if t = MatchType_REGEX_MATCH then Some RegexMatch
      else if t = MatchType_REGEX_NO_MATCH then Some RegexNoMatch
      else None)"

fun read_matchers ::
  "(string \<Rightarrow> err + (string \<Rightarrow> bool)) \<Rightarrow> GenericLabelMatcher list \<Rightarrow> HttpResponse + LabelMatcher list" where
  "read_matchers compile [] = Inr []"
| "read_matchers compile (m # ms) =
     (case match_type (get_int (gm_Type m)) of
        None \<Rightarrow> Inl (http_error ''invalid matcher type'' 400)
      | Some mtype \<Rightarrow>
     (case NewLabelMatcher compile mtype (get_string (gm_Name m)) (get_string (gm_Value m)) of
        Inl e \<Rightarrow> Inl (http_error (''error creating matcher: '' @ msg e) 400)
      | Inr matcher \<Rightarrow>
     (case read_matchers compile ms of Inl r \<Rightarrow> Inl r | Inr rest \<Rightarrow> Inr (matcher # rest))))"

text \<open>\<open>ord\<close> is the order in which the \<open>range\<close> visits a metric.\<close>

definition write_series :: "schedule \<Rightarrow> SampleStream \<Rightarrow> GenericTimeSeries" where
  "write_series ord ss =
     \<lparr>g_Name = Some (label_get (ss_Metric ss) MetricNameLabel),
      g_Labels = map (\<lambda>(k, v). (Some k, Some v)) (filter (\<lambda>(k, v). k \<noteq> MetricNameLabel) (permute ord (ss_Metric ss))),
      g_Samples = map (\<lambda>s. (Some (sp_Value s), Some (sp_Timestamp s))) (ss_Values ss)\<rparr>"

definition QueryHandler ::
  "(string \<Rightarrow> err + (string \<Rightarrow> bool)) \<Rightarrow> schedule \<Rightarrow> GenericReadRequest Proto \<Rightarrow> GenericReadResponse Proto \<Rightarrow> 'w query \<Rightarrow>
   HttpRequest \<Rightarrow> 'w \<Rightarrow> (HttpResponse \<times> 'w) go" where
  "QueryHandler compile ord P Q query r w =
     (case parseRequest P r of
        Inl resp \<Rightarrow> Ret (resp, w)
      | Inr (ctx, req) \<Rightarrow>
     (case read_matchers compile (Matchers req) of
        Inl resp \<Rightarrow> Ret (resp, w)
      | Inr matchers \<Rightarrow>
          bind_go (query ctx (get_int (StartTimestampMs req)) (get_int (EndTimestampMs req)) matchers w) (\<lambda>res.
            case res of
              Inl e \<Rightarrow> Ret (http_error (msg e) 500, w)
            | Inr (matrix, w') \<Rightarrow> Ret (writeResponse Q (map (write_series ord) matrix), w'))))"

definition LabelValuesHandler ::
  "GenericLabelValuesRequest Proto \<Rightarrow> GenericLabelValuesResponse Proto \<Rightarrow>
   (Context \<Rightarrow> LabelName \<Rightarrow> 'w \<Rightarrow> (err + LabelValue list \<times> 'w) go) \<Rightarrow> HttpRequest \<Rightarrow> 'w \<Rightarrow> (HttpResponse \<times> 'w) go" where
  "LabelValuesHandler P Q labelValues r w =
     (case parseRequest P r of
        Inl resp \<Rightarrow> Ret (resp, w)
      | Inr (ctx, req) \<Rightarrow>
          bind_go (labelValues ctx (get_string req) w) (\<lambda>res.
            case res of
              Inl e \<Rightarrow> Ret (http_error (msg e) 500, w)
            | Inr (values, w') \<Rightarrow> Ret (writeResponse Q values, w')))"

section \<open>Metrics from labels\<close>

lemma labels_metric_perm:
  assumes "wf_metric m" "mset ls = mset m"
  shows "labels_metric ls = m"
  unfolding labels_metric_def by (rule rebuild_metric [OF assms])

end
