(* ===== verification/Ingester_Client.thy ===== *)
theory Ingester_Client
  imports Server Distributor
begin

text \<open>
  The client of an ingester (\<open>ingester_client.go\<close>): it turns samples and queries into protocol
  buffer messages, sends them over HTTP with the user ID in a header, and turns the answers
  back. \<open>transport\<close> is \<open>http.Client.Do\<close>: the address, the request and the state of the
  servers give a response or an error. The theorems connect the client to the handlers of
  \<open>Server\<close>: what arrives behind the handler is what was sent.
\<close>

section \<open>The client\<close>

type_synonym 'w transport = "string \<Rightarrow> HttpRequest \<Rightarrow> 'w \<Rightarrow> ((err + HttpResponse) \<times> 'w) go"

definition StatusText :: "int \<Rightarrow> string" where
  "StatusText code =
     (if code = 200 then ''OK'' else if code = 400 then ''Bad Request'' else if code = 401 then ''Unauthorized''
      else if code = 500 then ''Internal Server Error'' else [])"

definition http_status :: "int \<Rightarrow> string" where
  "http_status code = show_int code @ '' '' @ StatusText code"

definition doRequest ::
  "'q Proto \<Rightarrow> 'a Proto \<Rightarrow> Snappy \<Rightarrow> 'w transport \<Rightarrow> string \<Rightarrow> Context \<Rightarrow> string \<Rightarrow> 'q \<Rightarrow> bool \<Rightarrow> 'w \<Rightarrow> ((err + 'a) \<times> 'w) go" where
  "doRequest P Q Z transport address ctx endpoint req compressed w =
     (case GetID ctx of
        Inl e \<Rightarrow> Ret (Inl e, w)
      | Inr userID \<Rightarrow>
     (case p_Marshal P req of
        Inl e \<Rightarrow> Ret (Inl (Err (''unable to marshal request: '' @ msg e)), w)
      | Inr data \<Rightarrow>
          let body = (if compressed then compress Z data else data)
          in bind_go (transport address \<lparr>r_Path = endpoint, r_UserID = userID, r_Body = body\<rparr> w) (\<lambda>(r, w').
     case r of
        Inl e \<Rightarrow> Ret (Inl (Err (''error sending request: '' @ msg e)), w')
      | Inr httpResp \<Rightarrow>
          if StatusCode httpResp sdiv 100 \<noteq> 2
          then Ret (Inl (Err (''server returned HTTP status '' @ http_status (StatusCode httpResp))), w')
          else
     (case (if compressed then decompress Z (resp_Body httpResp) else Inr (resp_Body httpResp)) of
        Inl e \<Rightarrow> Ret (Inl (Err (''unable to read response body: '' @ msg e)), w')
      | Inr buf \<Rightarrow>
     (case p_Unmarshal Q buf of
        Inl e \<Rightarrow> Ret (Inl (Err (''unable to unmarshal response body: '' @ msg e)), w')
      | Inr resp \<Rightarrow> Ret (Inr resp, w'))))))"

definition sample_series :: "schedule \<Rightarrow> Sample \<Rightarrow> TimeSeries" where
  "sample_series ord s = \<lparr>ts_Labels = permute ord (s_Metric s), ts_Samples = [(s_Value s, s_Timestamp s)]\<rparr>"

definition Client_Append ::
  "WriteRequest Proto \<Rightarrow> WriteResponse Proto \<Rightarrow> Snappy \<Rightarrow> schedule \<Rightarrow> 'w transport \<Rightarrow> string \<Rightarrow> Context \<Rightarrow> Sample list \<Rightarrow> 'w \<Rightarrow>
   (err option \<times> 'w) go" where
  "Client_Append P Q Z ord transport address ctx samples w =
     bind_go (doRequest P Q Z transport address ctx ''/push'' (map (sample_series ord) samples) True w)
       (\<lambda>(r, w'). Ret (case r of Inl e \<Rightarrow> Some e | Inr _ \<Rightarrow> None, w'))"

fun match_enum :: "MatchType \<Rightarrow> int" where
  "match_enum Equal = MatchType_EQUAL"
| "match_enum NotEqual = MatchType_NOT_EQUAL"
| "match_enum RegexMatch = MatchType_REGEX_MATCH"
| "match_enum RegexNoMatch = MatchType_REGEX_NO_MATCH"

definition write_matcher :: "LabelMatcher \<Rightarrow> GenericLabelMatcher" where
  "write_matcher m = \<lparr>gm_Type = Some (match_enum (m_Type m)), gm_Name = Some (m_Name m), gm_Value = Some (m_Value m)\<rparr>"

definition read_request :: "Time \<Rightarrow> Time \<Rightarrow> LabelMatcher list \<Rightarrow> GenericReadRequest" where
  "read_request from to matchers =
     \<lparr>StartTimestampMs = Some from, EndTimestampMs = Some to, Matchers = map write_matcher matchers\<rparr>"

definition read_series :: "GenericTimeSeries \<Rightarrow> SampleStream" where
  "read_series ts =
     (let m0 = (case g_Name ts of None \<Rightarrow> [] | Some n \<Rightarrow> label_set MetricNameLabel n [])
      in \<lparr>ss_Metric = foldl (\<lambda>m l. label_set (get_string (fst l)) (get_string (snd l)) m) m0 (g_Labels ts),
          ss_Values = map (\<lambda>s. \<lparr>sp_Timestamp = get_int (snd s), sp_Value = get_value (fst s)\<rparr>) (g_Samples ts)\<rparr>)"

definition Client_Query ::
  "GenericReadRequest Proto \<Rightarrow> GenericReadResponse Proto \<Rightarrow> Snappy \<Rightarrow> 'w transport \<Rightarrow> string \<Rightarrow> Context \<Rightarrow> Time \<Rightarrow> Time \<Rightarrow>
   LabelMatcher list \<Rightarrow> 'w \<Rightarrow> ((err + Matrix) \<times> 'w) go" where
  "Client_Query P Q Z transport address ctx from to matchers w =
     bind_go (doRequest P Q Z transport address ctx ''/query'' (read_request from to matchers) False w)
       (\<lambda>(r, w'). Ret (case r of Inl e \<Rightarrow> Inl e | Inr resp \<Rightarrow> Inr (map read_series resp), w'))"

definition Client_LabelValues ::
  "GenericLabelValuesRequest Proto \<Rightarrow> GenericLabelValuesResponse Proto \<Rightarrow> Snappy \<Rightarrow> 'w transport \<Rightarrow> string \<Rightarrow> Context \<Rightarrow>
   LabelName \<Rightarrow> 'w \<Rightarrow> ((err + LabelValue list) \<times> 'w) go" where
  "Client_LabelValues P Q Z transport address ctx ln w =
     doRequest P Q Z transport address ctx ''/label_values'' (Some ln) False w"

section \<open>Messages keep their content\<close>

text \<open>A codec gives a message back.\<close>

definition reads_back :: "'m Proto \<Rightarrow> 'm \<Rightarrow> bool" where
  "reads_back P m \<longleftrightarrow> (\<exists>b. p_Marshal P m = Inr b \<and> p_Unmarshal P b = Inr m)"

definition snappy_ok :: "Snappy \<Rightarrow> bool" where
  "snappy_ok Z \<longleftrightarrow> (\<forall>b. decompress Z (compress Z b) = Inr b)"

lemma series_samples_back:
  assumes "wf_metric (s_Metric s)" "fair ord"
  shows "series_samples (sample_series ord s) = [s]"
proof -
  have "labels_metric (permute ord (s_Metric s)) = s_Metric s"
    by (rule labels_metric_perm [OF assms(1) mset_permute [OF assms(2)]])
  then show ?thesis by (simp add: series_samples_def sample_series_def)
qed

lemma append_message_back:
  assumes "\<forall>s\<in>set samples. wf_metric (s_Metric s)" "fair ord"
  shows "concat (map series_samples (map (sample_series ord) samples)) = samples"
  using assms(1) by (induction samples) (simp_all add: series_samples_back [OF _ assms(2)])

lemma pairs_back: "map (\<lambda>l. (get_string (fst l), get_string (snd l))) (map (\<lambda>(k, v). (Some k, Some v)) ps) = ps"
  by (induction ps) (auto simp: get_string_def)

lemma map_of_filter_neq: "map_of (filter (\<lambda>(k, v). k \<noteq> n) ps) = map_of ps |` {k. k \<noteq> n}"
  by (induction ps) (auto simp: restrict_map_def fun_eq_iff)

text \<open>A stream survives the round trip; a metric without a name comes back with an empty one.\<close>

definition with_name :: "metric \<Rightarrow> metric" where
  "with_name m = label_set MetricNameLabel (label_get m MetricNameLabel) m"

lemma with_name_id: "wf_metric m \<Longrightarrow> map_of m MetricNameLabel = Some n \<Longrightarrow> with_name m = m"
  by (rule wf_metric_eqI) (auto simp: with_name_def label_get_def wf_label_set fun_upd_idem)

lemma read_write_series:
  assumes "wf_metric (ss_Metric ss)" "fair ord"
  shows "read_series (write_series ord ss) = ss\<lparr>ss_Metric := with_name (ss_Metric ss)\<rparr>"
proof -
  let ?m = "ss_Metric ss" and ?N = MetricNameLabel
  let ?base = "label_set ?N (label_get ?m ?N) []"
  let ?ls = "map (\<lambda>(k, v). (Some k, Some v)) (filter (\<lambda>(k, v). k \<noteq> ?N) (permute ord ?m))"
  let ?R = "foldl (\<lambda>m l. label_set (get_string (fst l)) (get_string (snd l)) m) ?base ?ls"
  let ?ps = "filter (\<lambda>(k, v). k \<noteq> ?N) (permute ord ?m)"
  have bk: "map (\<lambda>l. (get_string (fst l), get_string (snd l))) ?ls = ?ps"
    by (rule pairs_back)
  have d: "distinct (map fst ?m)" by (rule wf_metric_distinct [OF assms(1)])
  have "mset (map fst (permute ord ?m)) = mset (map fst ?m)" by (simp add: mset_map mset_permute [OF assms(2)])
  then have dp: "distinct (map fst (permute ord ?m))" using d by (metis mset_eq_imp_distinct_iff)
  then have dps: "distinct (map fst ?ps)" by (rule distinct_map_filter)
  have mp: "map_of (permute ord ?m) = map_of ?m"
    by (rule map_of_mset_eq [OF dp mset_permute [OF assms(2)]])
  have "map_of (rev ?ps) = map_of ?ps"
    using dps by (intro map_of_mset_eq) (simp_all add: rev_map [symmetric])
  also have "\<dots> = map_of ?m |` {k. k \<noteq> ?N}"
    unfolding map_of_filter_neq mp ..
  finally have "map_of ?R = map_of (with_name ?m)"
    unfolding foldl_label_set bk
    by (auto simp: with_name_def fun_eq_iff map_add_def restrict_map_def split: option.splits)
  moreover have "wf_metric ?R" by (simp add: wf_foldl_label_set wf_label_set)
  moreover have "wf_metric (with_name ?m)" using assms(1) by (simp add: with_name_def wf_label_set)
  ultimately have "?R = with_name ?m" by (intro wf_metric_eqI)
  moreover have "map (\<lambda>x. \<lparr>sp_Timestamp = sp_Timestamp x, sp_Value = sp_Value x\<rparr>) vs = vs" for vs
    by (rule map_idI) simp
  ultimately show ?thesis
    by (cases ss) (simp add: read_series_def write_series_def Let_def get_int_def get_value_def o_def)
qed

text \<open>Matchers that a \<open>NewLabelMatcher\<close> built come back the same.\<close>

definition built :: "(string \<Rightarrow> err + (string \<Rightarrow> bool)) \<Rightarrow> LabelMatcher \<Rightarrow> bool" where
  "built compile m \<longleftrightarrow> NewLabelMatcher compile (m_Type m) (m_Name m) (m_Value m) = Inr m"

lemma match_type_enum [simp]: "match_type (match_enum t) = Some t"
  by (cases t) (simp_all add: match_type_def MatchType_defs)

lemma read_matchers_back:
  "\<forall>m\<in>set ms. built compile m \<Longrightarrow> read_matchers compile (map write_matcher ms) = Inr ms"
  by (induction ms) (simp_all add: write_matcher_def get_int_def get_string_def built_def)

section \<open>Properties\<close>

text \<open>
  Appends arrive unchanged at an appender behind \<open>AppenderHandler\<close>; the client reports
  success exactly when the appender did.
\<close>

lemma append_served:
  assumes "GetID ctx = Inr u" "u \<noteq> []" "\<forall>s\<in>set samples. wf_metric (s_Metric s)" "fair ord" "snappy_ok Z"
    and "reads_back P (map (sample_series ord) samples)" "reads_back Q ()"
    and "\<And>r w. r_Path r = ''/push'' \<Longrightarrow>
      transport address r w = bind_go (AppenderHandler P Q Z appd r w) (\<lambda>(resp, w'). Ret (Inr resp, w'))"
  shows "Client_Append P Q Z ord transport address ctx samples w =
    bind_go (appd (WithID Background u) samples w) (\<lambda>(e, w').
      Ret (map_option (\<lambda>_. Err ''server returned HTTP status 500 Internal Server Error'') e, w'))"
proof -
  obtain b where b: "p_Marshal P (map (sample_series ord) samples) = Inr b" "p_Unmarshal P b = Inr (map (sample_series ord) samples)"
    using assms(6) by (auto simp: reads_back_def)
  obtain q where q: "p_Marshal Q () = Inr q" "p_Unmarshal Q q = Inr ()" using assms(7) by (auto simp: reads_back_def)
  have z: "decompress Z (compress Z x) = Inr x" for x using assms(5) by (simp add: snappy_ok_def)
  have msg: "concat (map series_samples (map (sample_series ord) samples)) = samples"
    by (rule append_message_back [OF assms(3,4)])
  have status: "show_int 500 = ''500''" by code_simp
  show ?thesis
  proof (cases "appd (WithID Background u) samples w")
    case (Ret x)
    obtain e w' where "x = (e, w')" by (cases x)
    then show ?thesis
      using assms(1,2,8) b q z msg Ret status
      by (cases e) (simp_all add: Client_Append_def doRequest_def AppenderHandler_def grpc_Write_def Let_def http_error_def
          http_status_def StatusText_def sdiv_pos del: map_map)
  qed (use assms(1,2,8) b z msg in \<open>simp_all add: Client_Append_def doRequest_def AppenderHandler_def grpc_Write_def Let_def del: map_map\<close>)
qed

text \<open>Queries and their answers survive the wire to a querier behind \<open>QueryHandler\<close>.\<close>

lemma query_served:
  assumes "GetID ctx = Inr u" "u \<noteq> []" "\<forall>m\<in>set ms. built compile m" "fair ord"
    and "query (WithID Background u) from to ms w = Ret (Inr (M, w'))" "\<forall>ss\<in>set M. wf_metric (ss_Metric ss)"
    and "reads_back P (read_request from to ms)" "reads_back Q (map (write_series ord) M)"
    and "\<And>r w. r_Path r = ''/query'' \<Longrightarrow> transport address r w =
      bind_go (QueryHandler compile ord P Q query r w) (\<lambda>(resp, w'). Ret (Inr resp, w'))"
  shows "Client_Query P Q Z transport address ctx from to ms w =
    Ret (Inr (map (\<lambda>ss. ss\<lparr>ss_Metric := with_name (ss_Metric ss)\<rparr>) M), w')"
proof -
  obtain b where b: "p_Marshal P (read_request from to ms) = Inr b" "p_Unmarshal P b = Inr (read_request from to ms)"
    using assms(7) by (auto simp: reads_back_def)
  obtain q where q: "p_Marshal Q (map (write_series ord) M) = Inr q" "p_Unmarshal Q q = Inr (map (write_series ord) M)"
    using assms(8) by (auto simp: reads_back_def)
  have ms: "read_matchers compile (Matchers (read_request from to ms)) = Inr ms"
    using read_matchers_back [OF assms(3)] by (simp add: read_request_def)
  have times: "get_int (StartTimestampMs (read_request from to ms)) = from" "get_int (EndTimestampMs (read_request from to ms)) = to"
    by (simp_all add: read_request_def get_int_def)
  have bk: "map read_series (map (write_series ord) M) = map (\<lambda>ss. ss\<lparr>ss_Metric := with_name (ss_Metric ss)\<rparr>) M"
    using assms(4,6) by (simp add: read_write_series)
  have "QueryHandler compile ord P Q query \<lparr>r_Path = ''/query'', r_UserID = u, r_Body = b\<rparr> w = Ret (\<lparr>StatusCode = 200, resp_Body = q\<rparr>, w')"
    using assms(2,5) b q ms times by (simp add: QueryHandler_def parseRequest_def writeResponse_def)
  then show ?thesis
    using assms(1,9) b q bk by (simp add: Client_Query_def doRequest_def Let_def sdiv_pos del: map_map)
qed

lemma label_values_served:
  assumes "GetID ctx = Inr u" "u \<noteq> []" "lvs (WithID Background u) ln w = Ret (Inr (vals, w'))"
    and "reads_back P (Some ln)" "reads_back Q vals"
    and "\<And>r w. r_Path r = ''/label_values'' \<Longrightarrow> transport address r w =
      bind_go (LabelValuesHandler P Q lvs r w) (\<lambda>(resp, w'). Ret (Inr resp, w'))"
  shows "Client_LabelValues P Q Z transport address ctx ln w = Ret (Inr vals, w')"
proof -
  obtain b where b: "p_Marshal P (Some ln) = Inr b" "p_Unmarshal P b = Inr (Some ln)" using assms(4) by (auto simp: reads_back_def)
  obtain q where q: "p_Marshal Q vals = Inr q" "p_Unmarshal Q q = Inr vals" using assms(5) by (auto simp: reads_back_def)
  have "LabelValuesHandler P Q lvs \<lparr>r_Path = ''/label_values'', r_UserID = u, r_Body = b\<rparr> w = Ret (\<lparr>StatusCode = 200, resp_Body = q\<rparr>, w')"
    using assms(2,3) b q by (simp add: LabelValuesHandler_def parseRequest_def writeResponse_def get_string_def)
  then show ?thesis
    using assms(1,6) b q by (simp add: Client_LabelValues_def doRequest_def Let_def sdiv_pos)
qed

text \<open>
  A request without a user is refused before anything else happens: every handler answers
  401, whatever the body, and leaves the state behind it alone; the client sends nothing when
  its context has no user.
\<close>

lemma requests_need_user:
  "AppenderHandler P Q Z appd \<lparr>r_Path = p, r_UserID = [], r_Body = b\<rparr> w = Ret (http_error [] 401, w) \<and>
   QueryHandler compile ord P' Q' query \<lparr>r_Path = p, r_UserID = [], r_Body = b\<rparr> w = Ret (http_error [] 401, w) \<and>
   LabelValuesHandler P'' Q'' labelValues \<lparr>r_Path = p, r_UserID = [], r_Body = b\<rparr> w = Ret (http_error [] 401, w) \<and>
   doRequest P3 Q3 Z transport address Background endpoint req compressed v = Ret (Inl (Err ''no user id''), v)"
  by (simp add: AppenderHandler_def QueryHandler_def LabelValuesHandler_def parseRequest_def doRequest_def)

end
