(* ===== verification/Memcache_Client.thy ===== *)
theory Memcache_Client
  imports Go_Std "HOL-Library.Word"
begin

unbundle bit_operations_syntax

text \<open>
  The memcache client of the chunk cache (\<open>chunk/memcache_client.go\<close>): it takes its server
  list from DNS SRV records and refreshes it in a goroutine. The server list itself is the
  vendored \<open>memcache.ServerList\<close> (\<open>gomemcache/memcache/selector.go\<close>), which maps a key to
  an index of the list by its CRC-32. What the network answers (SRV lookups and the resolution
  of addresses) is an argument of every refresh, since it may change from one to the next.
\<close>

section \<open>hash/crc32\<close>

text \<open>The IEEE polynomial in reversed bit order, one byte at a time.\<close>

definition crc_poly :: "32 word" where
  "crc_poly = 0xEDB88320"

definition crc_bit :: "32 word \<Rightarrow> 32 word" where
  "crc_bit c = (if c AND 1 = 1 then drop_bit 1 c XOR crc_poly else drop_bit 1 c)"

definition crc_byte :: "32 word \<Rightarrow> char \<Rightarrow> 32 word" where
  "crc_byte c x = (crc_bit ^^ 8) (c XOR of_char x)"

definition ChecksumIEEE :: "bytes \<Rightarrow> 32 word" where
  "ChecksumIEEE bs = NOT (foldl crc_byte (- 1) bs)"

section \<open>The server list\<close>

record SRV =
  Target :: string
  Port :: nat

record 'a net =
  LookupSRV :: "string \<Rightarrow> string \<Rightarrow> string \<Rightarrow> err + SRV list"
  ResolveUnixAddr :: "string \<Rightarrow> string \<Rightarrow> err + 'a"
  ResolveTCPAddr :: "string \<Rightarrow> string \<Rightarrow> err + 'a"

definition resolve :: "'a net \<Rightarrow> string \<Rightarrow> err + 'a" where
  "resolve n server =
     (if CHR ''/'' \<in> set server then ResolveUnixAddr n ''unix'' server else ResolveTCPAddr n ''tcp'' server)"

fun resolve_all :: "'a net \<Rightarrow> string list \<Rightarrow> err + 'a list" where
  "resolve_all n [] = Inr []"
| "resolve_all n (s # ss) =
     (case resolve n s of
        Inl e \<Rightarrow> Inl e
      | Inr a \<Rightarrow> (case resolve_all n ss of Inl e \<Rightarrow> Inl e | Inr r \<Rightarrow> Inr (a # r)))"

definition SetServers :: "'a net \<Rightarrow> string list \<Rightarrow> 'a list \<Rightarrow> err option \<times> 'a list" where
  "SetServers n servers addrs =
     (case resolve_all n servers of Inl e \<Rightarrow> (Some e, addrs) | Inr naddr \<Rightarrow> (None, naddr))"

definition ErrNoServers :: err where
  "ErrNoServers = Err ''memcache: no servers configured or available''"

definition PickServer :: "'a list \<Rightarrow> string \<Rightarrow> err + 'a" where
  "PickServer addrs key =
     (if length addrs = 0 then Inl ErrNoServers
      else if length addrs = 1 then Inr (addrs ! 0)
      else let cs = ChecksumIEEE (take 256 key) in Inr (addrs ! (unat cs mod length addrs)))"

section \<open>The client\<close>

record MemcacheConfig =
  mc_Host :: string
  mc_Service :: string
  mc_Timeout :: int
  mc_UpdateInterval :: int

text \<open>
  \<open>quit\<close> is whether the channel is closed and \<open>wait\<close> the counter of the wait group. The
  goroutine's ticker runs (\<open>ticking\<close>) and has a channel with room for one tick (\<open>tick\<close>).
\<close>

record 'a MemcacheClient =
  cl_Timeout :: int
  serverList :: "'a list"
  hostname :: string
  service :: string
  quit :: bool
  wait :: nat
  ticking :: bool
  tick :: bool

definition srv_name :: "SRV \<Rightarrow> string" where
  "srv_name srv = Target srv @ '':'' @ show_nat (Port srv)"

definition updateMemcacheServers :: "'a net \<Rightarrow> 'a MemcacheClient \<Rightarrow> err option \<times> 'a MemcacheClient" where
  "updateMemcacheServers n c =
     (case LookupSRV n (service c) ''tcp'' (hostname c) of
        Inl e \<Rightarrow> (Some e, c)
      | Inr addrs \<Rightarrow>
          let servers = sort_slice (\<lambda>s. s) (map srv_name addrs);
              (e, l) = SetServers n servers (serverList c)
          in (e, c\<lparr>serverList := l\<rparr>))"

text \<open>The error of the first refresh is logged and dropped. The goroutine is started last.\<close>

definition NewMemcacheClient :: "'a net \<Rightarrow> MemcacheConfig \<Rightarrow> 'a MemcacheClient" where
  "NewMemcacheClient n config =
     (let c = \<lparr>cl_Timeout = mc_Timeout config, serverList = [], hostname = mc_Host config,
               service = mc_Service config, quit = False, wait = 0, ticking = False, tick = False\<rparr>;
          c' = snd (updateMemcacheServers n c)
      in c'\<lparr>wait := wait c' + 1, ticking := True\<rparr>)"

text \<open>
  One iteration of \<open>updateLoop\<close>: the ticker puts a tick into its channel unless there is
  one, the \<open>select\<close> takes the tick and refreshes the list, or it takes the closed \<open>quit\<close>
  channel and stops the ticker. No case of the loop returns, so no step runs the deferred
  \<open>wait.Done()\<close>.
\<close>

inductive updateLoop :: "'a MemcacheClient \<Rightarrow> 'a MemcacheClient \<Rightarrow> bool" where
  fire: "ticking c \<Longrightarrow> updateLoop c (c\<lparr>tick := True\<rparr>)"
| refresh: "tick c \<Longrightarrow> updateLoop c ((snd (updateMemcacheServers n c))\<lparr>tick := False\<rparr>)"
| quitting: "quit c \<Longrightarrow> updateLoop c (c\<lparr>ticking := False\<rparr>)"

text \<open>\<open>Stop\<close> closes the channel, which panics the second time, and then waits for the group.\<close>

definition Stop_close :: "'a MemcacheClient \<Rightarrow> 'a MemcacheClient go" where
  "Stop_close c = (if quit c then Panic ''close of closed channel'' else Ret (c\<lparr>quit := True\<rparr>))"

definition Stop_returns :: "'a MemcacheClient \<Rightarrow> bool" where
  "Stop_returns c \<longleftrightarrow> wait c = 0"

inductive client_reach :: "'a MemcacheClient \<Rightarrow> bool" where
  new: "client_reach (NewMemcacheClient n config)"
| loop: "client_reach c \<Longrightarrow> updateLoop c c' \<Longrightarrow> client_reach c'"
| stop: "client_reach c \<Longrightarrow> Stop_close c = Ret c' \<Longrightarrow> client_reach c'"

inductive_cases updateLoopE [elim]: "updateLoop c c'"

section \<open>The server list is a function of the set of records\<close>

lemma sort_names_cong:
  "mset xs = mset ys \<Longrightarrow> sort_slice (\<lambda>s. s) (map srv_name xs) = sort_slice (\<lambda>s. s) (map srv_name ys)"
  by (rule sort_self_cong) (simp add: mset_map)

lemma update_fields:
  "service (snd (updateMemcacheServers n c)) = service c" "hostname (snd (updateMemcacheServers n c)) = hostname c"
  "wait (snd (updateMemcacheServers n c)) = wait c" "quit (snd (updateMemcacheServers n c)) = quit c"
  "ticking (snd (updateMemcacheServers n c)) = ticking c"
  by (simp_all add: updateMemcacheServers_def Let_def split: sum.splits prod.splits)

text \<open>What a refresh installs if the lookup and the resolution succeed, and nothing otherwise.\<close>

definition refreshed :: "'a net \<Rightarrow> string \<Rightarrow> string \<Rightarrow> 'a list option" where
  "refreshed n serv host =
     (case LookupSRV n serv ''tcp'' host of
        Inl e \<Rightarrow> None
      | Inr addrs \<Rightarrow>
          (case resolve_all n (sort_slice (\<lambda>s. s) (map srv_name addrs)) of Inl e \<Rightarrow> None | Inr l \<Rightarrow> Some l))"

lemma update_refreshed:
  "serverList (snd (updateMemcacheServers n c)) = (case refreshed n (service c) (hostname c) of None \<Rightarrow> serverList c | Some l \<Rightarrow> l)"
  "fst (updateMemcacheServers n c) = None \<longleftrightarrow> refreshed n (service c) (hostname c) \<noteq> None"
  by (simp_all add: updateMemcacheServers_def refreshed_def SetServers_def split: sum.splits)

lemma resolve_all_Inr: "(\<And>s. s \<in> set ss \<Longrightarrow> resolve n s = Inr (f s)) \<Longrightarrow> resolve_all n ss = Inr (map f ss)"
  by (induction ss) simp_all

text \<open>The list after any number of refreshes is that of the last one that succeeded.\<close>

definition refreshes :: "'a MemcacheClient \<Rightarrow> 'a net list \<Rightarrow> 'a MemcacheClient" where
  "refreshes c ns = foldl (\<lambda>c n. snd (updateMemcacheServers n c)) c ns"

lemma refreshes_fields: "service (refreshes c ns) = service c \<and> hostname (refreshes c ns) = hostname c"
  unfolding refreshes_def by (induction ns arbitrary: c) (simp_all add: update_fields)

lemma refreshes_append: "refreshes c (ns @ ms) = refreshes (refreshes c ns) ms"
  by (simp add: refreshes_def)

lemma refreshes_fail:
  "(\<And>n. n \<in> set ns \<Longrightarrow> refreshed n (service c) (hostname c) = None) \<Longrightarrow> serverList (refreshes c ns) = serverList c"
proof (induction ns rule: rev_induct)
  case (snoc n ns)
  then show ?case
    by (simp add: refreshes_append) (simp add: refreshes_def update_refreshed refreshes_fields [unfolded refreshes_def])
qed (simp add: refreshes_def)

lemma refreshes_last:
  assumes "refreshed n (service c) (hostname c) = Some l"
    and "\<And>m. m \<in> set after \<Longrightarrow> refreshed m (service c) (hostname c) = None"
  shows "serverList (refreshes c (before @ n # after)) = l"
proof -
  let ?c = "snd (updateMemcacheServers n (refreshes c before))"
  have "refreshes c (before @ n # after) = refreshes ?c after" by (simp add: refreshes_def)
  moreover have "service ?c = service c" "hostname ?c = hostname c" by (simp_all add: update_fields refreshes_fields)
  ultimately show ?thesis using assms by (simp add: refreshes_fail update_refreshed refreshes_fields)
qed

lemma refreshed_cong:
  assumes "LookupSRV n serv ''tcp'' host = Inr xs" "LookupSRV n' serv ''tcp'' host = Inr ys" "mset xs = mset ys"
    and "\<And>s. resolve n s = resolve n' s"
  shows "refreshed n serv host = refreshed n' serv host"
proof -
  have "resolve_all n ss = resolve_all n' ss" for ss
    by (induction ss) (simp_all add: assms(4) split: sum.split)
  then show ?thesis using assms(1,2) by (simp add: refreshed_def sort_names_cong [OF assms(3)])
qed

lemma PickServer_index: "length l \<noteq> 0 \<Longrightarrow> \<exists>i<length l. PickServer l key = Inr (l ! i)"
  unfolding PickServer_def Let_def
  by (cases "length l = 1")
    (force, intro exI [of _ "unat (ChecksumIEEE (take 256 key)) mod length l"], simp)

text \<open>The check value of the CRC-32 standard.\<close>

lemma crc_byte_unfold:
  "crc_byte c x = crc_bit (crc_bit (crc_bit (crc_bit (crc_bit (crc_bit (crc_bit (crc_bit (c XOR of_char x))))))))"
  by (simp add: crc_byte_def numeral_eq_Suc)

lemma crc_check_value: "ChecksumIEEE ''123456789'' = 0xCBF43926"
  by (simp add: ChecksumIEEE_def crc_byte_unfold crc_bit_def crc_poly_def)

definition demo_net :: "SRV list \<Rightarrow> string net" where
  "demo_net srvs = \<lparr>LookupSRV = \<lambda>serv proto host. Inr srvs,
     ResolveUnixAddr = \<lambda>k a. Inr a, ResolveTCPAddr = \<lambda>k a. Inr a\<rparr>"

definition down_net :: "string net" where
  "down_net = \<lparr>LookupSRV = \<lambda>serv proto host. Inl (Err ''no such host''),
     ResolveUnixAddr = \<lambda>k a. Inr a, ResolveTCPAddr = \<lambda>k a. Inr a\<rparr>"

definition demo_srvs :: "SRV list" where
  "demo_srvs = [\<lparr>Target = ''mc2'', Port = 11211\<rparr>, \<lparr>Target = ''mc1'', Port = 11211\<rparr>]"

definition demo_client :: "string MemcacheClient" where
  "demo_client = NewMemcacheClient down_net \<lparr>mc_Host = ''mc'', mc_Service = ''memcached'', mc_Timeout = 0, mc_UpdateInterval = 60\<rparr>"

text \<open>
  C21: Two nodes agree on the server of every key. Take two clients for the same service, each
  with its own history of refreshes. If the last successful refresh of the two saw the same SRV
  records, in whatever order DNS returned them, and the addresses resolve alike, then the two
  clients pick the same server for every key, and they pick one if there is a record. Refreshes
  that fail before or after change nothing.
\<close>

theorem memcache_nodes_agree:
  assumes same: "service c = service d" "hostname c = hostname d"
    and lookups: "LookupSRV n (service c) ''tcp'' (hostname c) = Inr xs"
      "LookupSRV m (service c) ''tcp'' (hostname c) = Inr ys" "mset xs = mset ys"
    and resolves: "\<And>s. resolve n s = resolve m s" "\<And>x. x \<in> set xs \<Longrightarrow> \<exists>a. resolve n (srv_name x) = Inr a"
    and later: "\<And>k. k \<in> set later \<Longrightarrow> refreshed k (service c) (hostname c) = None"
      "\<And>k. k \<in> set later' \<Longrightarrow> refreshed k (service c) (hostname c) = None"
  shows "PickServer (serverList (refreshes c (before @ n # later))) key =
      PickServer (serverList (refreshes d (before' @ m # later'))) key \<and>
    (xs \<noteq> [] \<longrightarrow> (\<exists>x\<in>set xs. \<exists>a. resolve n (srv_name x) = Inr a \<and>
      PickServer (serverList (refreshes c (before @ n # later))) key = Inr a))"
proof -
  let ?names = "sort_slice (\<lambda>s. s) (map srv_name xs)"
  have names: "set ?names = srv_name ` set xs" by (simp add: gosort.sort_set)
  then have "\<forall>s\<in>set ?names. \<exists>a. resolve n s = Inr a" using resolves(2) by auto
  then obtain f where f: "\<And>s. s \<in> set ?names \<Longrightarrow> resolve n s = Inr (f s)" by metis
  define l where "l = map f ?names"
  have "resolve_all n ?names = Inr l" unfolding l_def by (rule resolve_all_Inr) (rule f)
  then have r: "refreshed n (service c) (hostname c) = Some l" using lookups(1) by (simp add: refreshed_def)
  then have r': "refreshed m (service c) (hostname c) = Some l"
    using refreshed_cong [OF lookups resolves(1)] by simp
  have lc: "serverList (refreshes c (before @ n # later)) = l" by (rule refreshes_last [OF r later(1)])
  have ld: "serverList (refreshes d (before' @ m # later')) = l"
    by (rule refreshes_last) (use r' later(2) same in simp_all)
  have "\<exists>x\<in>set xs. \<exists>a. resolve n (srv_name x) = Inr a \<and> PickServer l key = Inr a" if "xs \<noteq> []"
  proof -
    have "length l = length xs" by (simp add: l_def gosort.sort_length)
    then have "length l \<noteq> 0" using that by simp
    then obtain i where i: "i < length l" "PickServer l key = Inr (l ! i)" using PickServer_index by blast
    then have "?names ! i \<in> set ?names" "l ! i = f (?names ! i)" by (simp_all add: l_def)
    then show ?thesis using i(2) f names by (metis imageE)
  qed
  then show ?thesis by (simp add: lc ld)
qed

theorem memcache_nodes_agree_witness:
  "PickServer (serverList (refreshes demo_client ([down_net] @ demo_net demo_srvs # [down_net]))) ''user/chunk'' =
     PickServer (serverList (refreshes demo_client ([] @ demo_net (rev demo_srvs) # []))) ''user/chunk''"
  by (rule memcache_nodes_agree [of _ _ _ demo_srvs _ "rev demo_srvs", THEN conjunct1])
    (simp_all add: demo_net_def down_net_def refreshed_def resolve_def)

lemma client_reach_wait: "client_reach c \<Longrightarrow> wait c = 1"
proof (induction rule: client_reach.induct)
  case (new n config)
  show ?case by (simp add: NewMemcacheClient_def Let_def update_fields)
next
  case (loop c c')
  then show ?case by (auto simp: update_fields)
next
  case (stop c c')
  then show ?case by (auto simp: Stop_close_def split: if_splits)
qed

text \<open>
  \<open>Stop\<close> of a client never returns: the loop keeps running after \<open>quit\<close> is closed, so the
  wait group never reaches zero. From then on the loop spins on the closed channel.
\<close>

theorem memcache_Stop_hangs:
  assumes "client_reach c"
  shows "\<not> Stop_returns c" and "quit c \<Longrightarrow> \<exists>c'. updateLoop c c' \<and> client_reach c' \<and> quit c' \<and> \<not> ticking c'"
proof -
  show "\<not> Stop_returns c" using client_reach_wait [OF assms] by (simp add: Stop_returns_def)
  assume q: "quit c"
  have s: "updateLoop c (c\<lparr>ticking := False\<rparr>)" by (rule quitting [OF q])
  with q show "\<exists>c'. updateLoop c c' \<and> client_reach c' \<and> quit c' \<and> \<not> ticking c'"
    using client_reach.loop [OF assms s] by (intro exI [of _ "c\<lparr>ticking := False\<rparr>"]) simp
qed

end
