(* ===== verification/Durations.thy ===== *)
theory Durations
  imports Time_Json
begin

text \<open>
  Durations as text (vendored \<open>model/time.go\<close>): \<open>ParseDuration\<close> reads a number and a unit,
  \<open>Duration.String\<close> prints the largest unit that divides the duration. The query API reads the
  step of a range query with it. A duration is an \<open>int64\<close> count of nanoseconds.
\<close>

section \<open>Parsing and printing\<close>

text \<open>The units of \<open>durationRE\<close> and how many milliseconds each has.\<close>

definition unit_millis :: "(string \<times> int) list" where
  "unit_millis =
     [(''y'', 1000 * 60 * 60 * 24 * 365), (''w'', 1000 * 60 * 60 * 24 * 7), (''d'', 1000 * 60 * 60 * 24),
      (''h'', 1000 * 60 * 60), (''m'', 1000 * 60), (''s'', 1000), (''ms'', 1)]"

definition durationRE :: "string \<Rightarrow> (string \<times> string) option" where
  "durationRE s =
     (let ds = takeWhile is_digit s; u = dropWhile is_digit s
      in if ds \<noteq> [] \<and> u \<in> fst ` set unit_millis then Some (ds, u) else None)"

text \<open>\<open>strconv.Atoi\<close> of digits, its range error dropped: the value is then the largest integer.\<close>

definition Atoi_clamped :: "string \<Rightarrow> int" where
  "Atoi_clamped ds = min (int (digits_val ds)) (2 ^ 63 - 1)"

definition ParseDuration :: "string \<Rightarrow> err + int" where
  "ParseDuration s =
     (case durationRE s of
        None \<Rightarrow> Inl (Err (''not a valid duration string: '' @ s))
      | Some (ds, u) \<Rightarrow>
          let dur = wrap64 (Atoi_clamped ds * 1000000)
          in (case map_of unit_millis u of
                None \<Rightarrow> Inl (Err (''invalid time unit in duration string: '' @ u))
              | Some f \<Rightarrow> Inr (wrap64 (dur * f))))"

text \<open>The cases of the switch are tried in order, and \<open>ms\<close> is the unit if none divides.\<close>

definition pick_unit :: "int \<Rightarrow> string \<times> int" where
  "pick_unit ms = (case find (\<lambda>(u, f). ms smod f = 0) (butlast unit_millis) of None \<Rightarrow> (''ms'', 1) | Some x \<Rightarrow> x)"

definition Duration_String :: "int \<Rightarrow> string" where
  "Duration_String d =
     (let ms = d sdiv 1000000; (u, f) = pick_unit ms in show_int (ms sdiv f) @ u)"

section \<open>Round trip\<close>

lemma unit_millis_pos: "(u, f) \<in> set unit_millis \<Longrightarrow> 0 < f \<and> u \<noteq> [] \<and> \<not> is_digit (hd u) \<and> map_of unit_millis u = Some f"
proof -
  have "list_all (\<lambda>(u, f). 0 < f \<and> u \<noteq> [] \<and> \<not> is_digit (hd u) \<and> map_of unit_millis u = Some f) unit_millis"
    by code_simp
  then show "(u, f) \<in> set unit_millis \<Longrightarrow>
    0 < f \<and> u \<noteq> [] \<and> \<not> is_digit (hd u) \<and> map_of unit_millis u = Some f" by (auto simp: list_all_iff)
qed

lemma pick_unit_divides:
  assumes "pick_unit ms = (u, f)"
  shows "(u, f) \<in> set unit_millis \<and> ms sdiv f * f = ms"
proof (cases "find (\<lambda>(u, f). ms smod f = 0) (butlast unit_millis)")
  case None
  then show ?thesis using assms by (simp add: pick_unit_def unit_millis_def sdiv_pos)
next
  case (Some x)
  then have x: "x = (u, f)" using assms by (simp add: pick_unit_def)
  then have "(u, f) \<in> set (butlast unit_millis)" using Some by (metis find_Some_iff nth_mem)
  then have "(u, f) \<in> set unit_millis" by (rule in_set_butlastD)
  moreover have "ms smod f = 0" using Some x by (auto simp: find_Some_iff)
  ultimately show ?thesis using smod_mult_sdiv_eq [of ms f] by (simp add: mult.commute)
qed

lemma durationRE_number:
  assumes "(u, f) \<in> set unit_millis"
  shows "durationRE (show_nat n @ u) = Some (show_nat n, u)"
proof -
  have d: "\<forall>c\<in>set (show_nat n). is_digit c" using show_nat_reads by blast
  have u: "u \<noteq> []" "\<not> is_digit (hd u)" using unit_millis_pos [OF assms] by blast+
  then have "takeWhile is_digit u = []" "dropWhile is_digit u = u" by (cases u; simp)+
  with d have "takeWhile is_digit (show_nat n @ u) = show_nat n" "dropWhile is_digit (show_nat n @ u) = u"
    by (simp_all add: takeWhile_append2 dropWhile_append2)
  moreover have "u \<in> fst ` set unit_millis" using assms by force
  ultimately show ?thesis by (simp add: durationRE_def Let_def show_nat_nonempty)
qed

lemma ParseDuration_number:
  assumes "(u, f) \<in> set unit_millis" "int n * f * 1000000 < 2 ^ 63"
  shows "ParseDuration (show_nat n @ u) = Inr (int n * f * 1000000)"
proof -
  have f: "1 \<le> f" "map_of unit_millis u = Some f" using unit_millis_pos [OF assms(1)] by auto
  have n: "int n * 1000000 \<le> int n * f * 1000000" using mult_left_mono [OF f(1), of "int n"] by simp
  have l: "int n * 1000000 < 2 ^ 63" using n assms(2) by linarith
  then have "int n < 2 ^ 63" by linarith
  then have "Atoi_clamped (show_nat n) = int n" by (simp add: Atoi_clamped_def show_nat_reads)
  moreover have "wrap64 (int n * 1000000) = int n * 1000000" using l by (intro wrap64_id) (simp add: int64_def)
  moreover have "wrap64 (int n * f * 1000000) = int n * f * 1000000"
  proof -
    have "0 \<le> int n * f * 1000000" using f(1) by simp
    then have "int64 (int n * f * 1000000)" unfolding int64_def using assms(2) by linarith
    then show ?thesis by (rule wrap64_id)
  qed
  ultimately show ?thesis
    by (simp add: ParseDuration_def durationRE_number [OF assms(1)] f(2) Let_def mult.assoc mult.commute [of f])
qed

text \<open>
  C33: A duration that is not negative is read back, rounded down to the millisecond, from the
  text that is printed for it; the text of a negative duration of a millisecond or more is not accepted.
\<close>

theorem duration_roundtrip:
  assumes "int64 d"
  shows "ParseDuration (Duration_String d) =
    (if d \<le> - 1000000 then Inl (Err (''not a valid duration string: '' @ Duration_String d))
     else if 0 \<le> d then Inr (d div 1000000 * 1000000) else Inr 0)"
proof -
  let ?ms = "d sdiv 1000000"
  obtain u f where p: "pick_unit ?ms = (u, f)" by fastforce
  have str: "Duration_String d = show_int (?ms sdiv f) @ u" by (simp add: Duration_String_def p)
  have pu: "(u, f) \<in> set unit_millis" "?ms sdiv f * f = ?ms" using pick_unit_divides [OF p] by blast+
  have f: "0 < f" using unit_millis_pos [OF pu(1)] by blast
  consider (neg) "d \<le> - 1000000" | (small) "- 1000000 < d" "d < 0" | (pos) "0 \<le> d" by linarith
  then show ?thesis
  proof cases
    case pos
    then have ms: "0 \<le> ?ms" "?ms = d div 1000000" by (simp_all add: sdiv_pos)
    have q: "0 \<le> ?ms sdiv f" using f ms(1) by (simp add: sdiv_pos pos_imp_zdiv_nonneg_iff)
    have "?ms * 1000000 \<le> d" unfolding ms(2) by linarith
    then have "ParseDuration (show_nat (nat (?ms sdiv f)) @ u) = Inr (?ms * 1000000)"
      using ParseDuration_number [OF pu(1), of "nat (?ms sdiv f)"] q pu(2) assms by (simp add: int64_def)
    then show ?thesis using pos str q ms(2) by (simp add: show_int_def not_less)
  next
    case small
    then have "?ms = 0" by (simp add: sdiv_pos)
    moreover have "ParseDuration (Duration_String 0) = Inr 0" by code_simp
    ultimately show ?thesis using small by (simp add: Duration_String_def)
  next
    case neg
    have "?ms < 0" using neg by (simp add: sdiv_pos pos_imp_zdiv_pos_iff)
    then have "?ms sdiv f < 0" using pu(2) f by (metis mult_nonneg_nonneg less_le not_le)
    then have "takeWhile is_digit (Duration_String d) = []"
      unfolding str by (simp add: show_int_def is_digit_def)
    then have "durationRE (Duration_String d) = None" by (simp add: durationRE_def)
    then show ?thesis using neg by (simp add: ParseDuration_def)
  qed
qed

theorem duration_roundtrip_witness: "ParseDuration (Duration_String 90061000000000) = Inr 90061000000000"
  using duration_roundtrip [of 90061000000000] by (simp add: int64_def)

text \<open>A number of years that does not fit wraps round: 293 years is a negative step.\<close>

lemma ParseDuration_wraps: "ParseDuration ''293y'' = Inr (- 9206696073709551616)"
  by code_simp

end
