(* ===== verification/Query_Api.thy ===== *)
theory Query_Api
  imports Querier Durations
begin

text \<open>
  The HTTP query API of the distributor (\<open>api/api.go\<close>): six endpoints behind a wrapper that
  takes the user from the request, calls the endpoint with that user's context and turns the
  result into a JSON response. The PromQL engine, the JSON encoder, the parsing of floating-point
  numbers and of RFC 3339 times and the quoting of strings are arguments. The vendored loop that
  steps through a range query (\<open>promql/engine.go\<close>) is modelled, because the limit that the API
  puts on a range is about the number of its iterations. Compression and request metrics around
  the handlers are left out.
\<close>

section \<open>Requests, responses and errors\<close>

definition userIDHeaderName :: string where
  "userIDHeaderName = ''X-Scope-OrgID''"

datatype status = statusSuccess | statusError

datatype errorType = errorNone | errorTimeout | errorCanceled | errorExec | errorBadData

fun errorType_text :: "errorType \<Rightarrow> string" where
  "errorType_text errorNone = []"
| "errorType_text errorTimeout = ''timeout''"
| "errorType_text errorCanceled = ''canceled''"
| "errorType_text errorExec = ''execution''"
| "errorType_text errorBadData = ''bad_data''"

record apiError =
  ae_typ :: errorType
  ae_err :: err

definition apiError_Error :: "apiError \<Rightarrow> string" where
  "apiError_Error e = errorType_text (ae_typ e) @ '': '' @ msg (ae_err e)"

record 'd response =
  rs_Status :: status
  rs_Data :: "'d option"
  rs_ErrorType :: errorType
  rs_Error :: string

text \<open>
  What the endpoints return as data: the result of a query with its type, label values or
  metrics. A \<open>nil\<close> result is \<open>None\<close>.
\<close>

datatype 'v data = QueryData string 'v | LabelValuesData "LabelValue list" | MetricsData "metric list"

record Request =
  rq_Method :: string
  rq_Header :: "string \<Rightarrow> string"
  rq_BasicAuth :: "(string \<times> string) option"
  rq_Form :: "string \<Rightarrow> string list"
  rq_Param :: "string \<Rightarrow> string"

definition FormValue :: "Request \<Rightarrow> string \<Rightarrow> string" where
  "FormValue r key = (case rq_Form r key of [] \<Rightarrow> [] | v # _ \<Rightarrow> v)"

text \<open>The user name of \<open>r.BasicAuth()\<close>, empty if there is none.\<close>

definition BasicAuth_user :: "Request \<Rightarrow> string" where
  "BasicAuth_user r = (case rq_BasicAuth r of None \<Rightarrow> [] | Some (u, p) \<Rightarrow> u)"

text \<open>An \<open>http.ResponseWriter\<close>: the first \<open>WriteHeader\<close> fixes the status.\<close>

record Writer =
  w_Header :: "string \<rightharpoonup> string"
  w_Code :: "int option"
  w_Body :: bytes

definition new_writer :: Writer where
  "new_writer = \<lparr>w_Header = Map.empty, w_Code = None, w_Body = []\<rparr>"

definition Header_Set :: "string \<Rightarrow> string \<Rightarrow> Writer \<Rightarrow> Writer" where
  "Header_Set k v w = (if w_Code w = None then w\<lparr>w_Header := (w_Header w)(k \<mapsto> v)\<rparr> else w)"

definition WriteHeader :: "int \<Rightarrow> Writer \<Rightarrow> Writer" where
  "WriteHeader code w = (if w_Code w = None then w\<lparr>w_Code := Some code\<rparr> else w)"

definition Writer_Write :: "bytes \<Rightarrow> Writer \<Rightarrow> Writer" where
  "Writer_Write b w = (WriteHeader 200 w)\<lparr>w_Body := w_Body w @ b\<rparr>"

definition corsHeaders :: "(string \<times> string) list" where
  "corsHeaders =
     [(''Access-Control-Allow-Headers'', ''Accept, Authorization, Content-Type, Origin''),
      (''Access-Control-Allow-Methods'', ''GET, OPTIONS''),
      (''Access-Control-Allow-Origin'', ''*''),
      (''Access-Control-Expose-Headers'', ''Date'')]"

definition setCORS :: "Writer \<Rightarrow> Writer" where
  "setCORS w = foldl (\<lambda>w (h, v). Header_Set h v w) w corsHeaders"

section \<open>What the API is given\<close>

text \<open>
  \<open>ParseSeconds s\<close> is \<open>int64(t * float64(time.Second))\<close> for the \<open>t\<close> that
  \<open>strconv.ParseFloat(s, 64)\<close> returns, \<open>ParseRFC3339Nano\<close> the \<open>UnixNano\<close> of
  \<open>time.Parse(time.RFC3339Nano, s)\<close>; \<open>None\<close> is an error. \<open>Quote\<close> is the verb \<open>%q\<close>.
\<close>

record 'v lib =
  ParseSeconds :: "string \<Rightarrow> int option"
  ParseRFC3339Nano :: "string \<Rightarrow> int option"
  Quote :: "string \<Rightarrow> string"
  Marshal :: "'v data response \<Rightarrow> err + bytes"

datatype queryErr = ErrQueryTimeout string | ErrQueryCanceled string | OtherErr err

fun queryErr_err :: "queryErr \<Rightarrow> err" where
  "queryErr_err (ErrQueryTimeout e) = Err (''query timed out in '' @ e)"
| "queryErr_err (ErrQueryCanceled e) = Err (''query was canceled in '' @ e)"
| "queryErr_err (OtherErr e) = e"

type_synonym ('v, 'w) exec = "'w \<Rightarrow> ((queryErr + 'v) \<times> 'w) go"

record ('v, 'w) Engine =
  NewInstantQuery :: "string \<Rightarrow> Time \<Rightarrow> err + ('v, 'w) exec"
  NewRangeQuery :: "string \<Rightarrow> Time \<Rightarrow> Time \<Rightarrow> int \<Rightarrow> err + ('v, 'w) exec"

text \<open>The interface \<open>local.Querier\<close>, as far as the API and the engine use it.\<close>

record 'w LocalQuerier =
  lq_QueryRange :: "Time \<Rightarrow> Time \<Rightarrow> LabelMatcher list \<Rightarrow> 'w \<Rightarrow> (err + SampleStream list \<times> 'w) go"
  lq_QueryInstant :: "Time \<Rightarrow> int \<Rightarrow> LabelMatcher list \<Rightarrow> 'w \<Rightarrow> (err + SampleStream list \<times> 'w) go"
  lq_Metrics :: "Time \<Rightarrow> Time \<Rightarrow> LabelMatcher list list \<Rightarrow> 'w \<Rightarrow> (err + metric list \<times> 'w) go"
  lq_LabelValues :: "LabelName \<Rightarrow> 'w \<Rightarrow> (err + LabelValue list \<times> 'w) go"

record ('v, 'w) promql =
  NewEngine :: "'w LocalQuerier \<Rightarrow> ('v, 'w) Engine"
  ValueType :: "'v \<Rightarrow> string"
  ParseMetricSelector :: "string \<Rightarrow> err + LabelMatcher list"

record 'w API =
  newQuerier :: "Context \<Rightarrow> 'w LocalQuerier"
  now :: "'w \<Rightarrow> Time"

definition api_New :: "('w \<Rightarrow> Time) \<Rightarrow> (Context \<Rightarrow> 'w LocalQuerier) \<Rightarrow> 'w API" where
  "api_New clock nq = \<lparr>newQuerier = nq, now = clock\<rparr>"

type_synonym 'v api_result = "'v data option \<times> apiError option"

type_synonym ('v, 'w) apiFunc = "Context \<Rightarrow> Request \<Rightarrow> 'w \<Rightarrow> ('v api_result \<times> 'w) go"

section \<open>Parsing of arguments\<close>

definition parseTime :: "'v lib \<Rightarrow> string \<Rightarrow> err + Time" where
  "parseTime L s =
     (case ParseSeconds L s of
        Some ts \<Rightarrow> Inr (TimeFromUnixNano ts)
      | None \<Rightarrow>
     (case ParseRFC3339Nano L s of
        Some ns \<Rightarrow> Inr (TimeFromUnixNano ns)
      | None \<Rightarrow> Inl (Err (''cannot parse '' @ Quote L s @ '' to a valid timestamp''))))"

definition parseDuration :: "'v lib \<Rightarrow> string \<Rightarrow> err + int" where
  "parseDuration L s =
     (case ParseSeconds L s of
        Some d \<Rightarrow> Inr d
      | None \<Rightarrow>
     (case ParseDuration s of
        Inr d \<Rightarrow> Inr d
      | Inl e \<Rightarrow> Inl (Err (''cannot parse '' @ Quote L s @ '' to a valid duration''))))"

text \<open>\<open>model.LabelNameRE\<close>: \<^verbatim>\<open>^[a-zA-Z_][a-zA-Z0-9_]*$\<close>.\<close>

definition is_alpha :: "char \<Rightarrow> bool" where
  "is_alpha c \<longleftrightarrow> (CHR ''a'' \<le> c \<and> c \<le> CHR ''z'') \<or> (CHR ''A'' \<le> c \<and> c \<le> CHR ''Z'') \<or> c = CHR ''_''"

definition LabelNameRE :: "string \<Rightarrow> bool" where
  "LabelNameRE s \<longleftrightarrow> s \<noteq> [] \<and> is_alpha (hd s) \<and> list_all (\<lambda>c. is_alpha c \<or> is_digit c) (tl s)"

section \<open>The endpoints\<close>

definition bad_data :: "err \<Rightarrow> 'v api_result" where
  "bad_data e = (None, Some \<lparr>ae_typ = errorBadData, ae_err = e\<rparr>)"

definition exec_error :: "err \<Rightarrow> 'v api_result" where
  "exec_error e = (None, Some \<lparr>ae_typ = errorExec, ae_err = e\<rparr>)"

definition newEngine :: "('v, 'w) promql \<Rightarrow> 'w API \<Rightarrow> Context \<Rightarrow> ('v, 'w) Engine" where
  "newEngine P api ctx = NewEngine P (newQuerier api ctx)"

definition api_options :: "('v, 'w) apiFunc" where
  "api_options ctx r w = Ret ((None, None), w)"

text \<open>The switch on the type of the error, and the data of a result.\<close>

fun exec_result :: "('v, 'w) promql \<Rightarrow> queryErr + 'v \<Rightarrow> 'v api_result" where
  "exec_result P (Inl (ErrQueryCanceled e)) =
     (None, Some \<lparr>ae_typ = errorCanceled, ae_err = queryErr_err (ErrQueryCanceled e)\<rparr>)"
| "exec_result P (Inl (ErrQueryTimeout e)) =
     (None, Some \<lparr>ae_typ = errorTimeout, ae_err = queryErr_err (ErrQueryTimeout e)\<rparr>)"
| "exec_result P (Inl (OtherErr e)) = exec_error e"
| "exec_result P (Inr v) = (Some (QueryData (ValueType P v) v), None)"

definition run_query :: "('v, 'w) promql \<Rightarrow> err + ('v, 'w) exec \<Rightarrow> 'w \<Rightarrow> ('v api_result \<times> 'w) go" where
  "run_query P q w =
     (case q of
        Inl e \<Rightarrow> Ret (bad_data e, w)
      | Inr ex \<Rightarrow> bind_go (ex w) (\<lambda>(res, w'). Ret (exec_result P res, w')))"

definition api_query :: "'v lib \<Rightarrow> ('v, 'w) promql \<Rightarrow> 'w API \<Rightarrow> ('v, 'w) apiFunc" where
  "api_query L P api ctx r w =
     (let t = FormValue r ''time''
      in case (if t \<noteq> [] then parseTime L t else Inr (now api w)) of
           Inl e \<Rightarrow> Ret (bad_data e, w)
         | Inr ts \<Rightarrow> run_query P (NewInstantQuery (newEngine P api ctx) (FormValue r ''query'') ts) w)"

definition max_resolution_error :: err where
  "max_resolution_error = Err
     ''exceeded maximum resolution of 11,000 points per timeseries. Try decreasing the query resolution (?step=XX)''"

text \<open>
  The quotient is that of \<open>int64\<close> values: a zero divisor panics, and the difference of the
  times has already been wrapped to 64 bits.
\<close>

definition api_queryRange :: "'v lib \<Rightarrow> ('v, 'w) promql \<Rightarrow> 'w API \<Rightarrow> ('v, 'w) apiFunc" where
  "api_queryRange L P api ctx r w =
     (case parseTime L (FormValue r ''start'') of
        Inl e \<Rightarrow> Ret (bad_data e, w)
      | Inr start \<Rightarrow>
     (case parseTime L (FormValue r ''end'') of
        Inl e \<Rightarrow> Ret (bad_data e, w)
      | Inr end' \<Rightarrow>
     (case parseDuration L (FormValue r ''step'') of
        Inl e \<Rightarrow> Ret (bad_data e, w)
      | Inr step \<Rightarrow>
          if step = 0 then Panic ''runtime error: integer divide by zero''
          else if wrap64 (Time_Sub end' start sdiv step) > 11000 then Ret (bad_data max_resolution_error, w)
          else run_query P (NewRangeQuery (newEngine P api ctx) (FormValue r ''query'') start end' step) w)))"

definition api_labelValues :: "'v lib \<Rightarrow> 'w API \<Rightarrow> ('v, 'w) apiFunc" where
  "api_labelValues L api ctx r w =
     (let name = rq_Param r ''name''
      in if \<not> LabelNameRE name then Ret (bad_data (Err (''invalid label name: '' @ Quote L name)), w)
         else bind_go (lq_LabelValues (newQuerier api ctx) name w) (\<lambda>res.
           case res of
             Inl e \<Rightarrow> Ret (exec_error e, w)
           | Inr (vals, w') \<Rightarrow> Ret ((Some (LabelValuesData (sort_slice (\<lambda>s. s) vals)), None), w')))"

fun parse_selectors :: "('v, 'w) promql \<Rightarrow> string list \<Rightarrow> err + LabelMatcher list list" where
  "parse_selectors P [] = Inr []"
| "parse_selectors P (s # ss) =
     (case ParseMetricSelector P s of
        Inl e \<Rightarrow> Inl e
      | Inr matchers \<Rightarrow> (case parse_selectors P ss of Inl e \<Rightarrow> Inl e | Inr rest \<Rightarrow> Inr (matchers # rest)))"

definition form_time :: "'v lib \<Rightarrow> Time \<Rightarrow> string \<Rightarrow> err + Time" where
  "form_time L dflt t = (if t \<noteq> [] then parseTime L t else Inr dflt)"

definition api_series :: "'v lib \<Rightarrow> ('v, 'w) promql \<Rightarrow> 'w API \<Rightarrow> ('v, 'w) apiFunc" where
  "api_series L P api ctx r w =
     (if length (rq_Form r ''match[]'') = 0 then Ret (bad_data (Err ''no match[] parameter provided''), w)
      else
        (case form_time L Earliest (FormValue r ''start'') of
           Inl e \<Rightarrow> Ret (bad_data e, w)
         | Inr start \<Rightarrow>
        (case form_time L Latest (FormValue r ''end'') of
           Inl e \<Rightarrow> Ret (bad_data e, w)
         | Inr end' \<Rightarrow>
        (case parse_selectors P (rq_Form r ''match[]'') of
           Inl e \<Rightarrow> Ret (bad_data e, w)
         | Inr matcherSets \<Rightarrow>
             bind_go (lq_Metrics (newQuerier api ctx) start end' matcherSets w) (\<lambda>res.
               case res of
                 Inl e \<Rightarrow> Ret (exec_error e, w)
               | Inr (metrics, w') \<Rightarrow> Ret ((Some (MetricsData metrics), None), w'))))))"

definition api_dropSeries :: "('v, 'w) apiFunc" where
  "api_dropSeries ctx r w = Ret (exec_error (Err ''dropping series is not supported''), w)"

section \<open>Responses\<close>

definition respond :: "'v lib \<Rightarrow> Writer \<Rightarrow> 'v data \<Rightarrow> Writer" where
  "respond L w data =
     (let w1 = WriteHeader 200 (Header_Set ''Content-Type'' ''application/json'' w)
      in case Marshal L \<lparr>rs_Status = statusSuccess, rs_Data = Some data, rs_ErrorType = errorNone, rs_Error = []\<rparr> of
           Inl e \<Rightarrow> w1
         | Inr b \<Rightarrow> Writer_Write b w1)"

fun error_code :: "errorType \<Rightarrow> int" where
  "error_code errorBadData = 400"
| "error_code errorExec = 422"
| "error_code errorCanceled = 503"
| "error_code errorTimeout = 503"
| "error_code errorNone = 500"

definition respondError :: "'v lib \<Rightarrow> Writer \<Rightarrow> apiError \<Rightarrow> 'v data option \<Rightarrow> Writer" where
  "respondError L w apiErr data =
     (let w1 = WriteHeader (error_code (ae_typ apiErr)) (Header_Set ''Content-Type'' ''application/json'' w)
      in case Marshal L \<lparr>rs_Status = statusError, rs_Data = data, rs_ErrorType = ae_typ apiErr, rs_Error = msg (ae_err apiErr)\<rparr> of
           Inl e \<Rightarrow> w1
         | Inr b \<Rightarrow> Writer_Write b w1)"

section \<open>The wrapper and the routes\<close>

definition finish_request :: "'v lib \<Rightarrow> 'v api_result \<times> 'w \<Rightarrow> (Writer \<times> 'w) go" where
  "finish_request L res =
     (case res of ((data, e), w) \<Rightarrow>
        (case e of
           Some apiErr \<Rightarrow> Ret (respondError L (setCORS new_writer) apiErr data, w)
         | None \<Rightarrow>
             (case data of
                Some d \<Rightarrow> Ret (respond L (setCORS new_writer) d, w)
              | None \<Rightarrow> Ret (WriteHeader 204 (setCORS new_writer), w))))"

definition instr :: "'v lib \<Rightarrow> ('v, 'w) apiFunc \<Rightarrow> Request \<Rightarrow> 'w \<Rightarrow> (Writer \<times> 'w) go" where
  "instr L f r w =
     (let header = rq_Header r userIDHeaderName;
          userID = (if rq_Method r \<noteq> ''OPTIONS'' \<and> header = [] then BasicAuth_user r else header)
      in if rq_Method r \<noteq> ''OPTIONS'' \<and> userID = [] then
           Ret (respondError L new_writer \<lparr>ae_typ = errorBadData, ae_err = Err ''missing user ID''\<rparr> None, w)
         else bind_go (f (WithID Background userID) r w) (finish_request L))"

record 'w endpoint =
  rt_Method :: string
  rt_Path :: string
  rt_Handler :: "Request \<Rightarrow> 'w \<Rightarrow> (Writer \<times> 'w) go"

definition Register :: "'v lib \<Rightarrow> ('v, 'w) promql \<Rightarrow> 'w API \<Rightarrow> 'w endpoint list" where
  "Register L P api =
     [\<lparr>rt_Method = ''OPTIONS'', rt_Path = ''/*path'', rt_Handler = instr L api_options\<rparr>,
      \<lparr>rt_Method = ''GET'', rt_Path = ''/query'', rt_Handler = instr L (api_query L P api)\<rparr>,
      \<lparr>rt_Method = ''GET'', rt_Path = ''/query_range'', rt_Handler = instr L (api_queryRange L P api)\<rparr>,
      \<lparr>rt_Method = ''GET'', rt_Path = ''/label/:name/values'', rt_Handler = instr L (api_labelValues L api)\<rparr>,
      \<lparr>rt_Method = ''GET'', rt_Path = ''/series'', rt_Handler = instr L (api_series L P api)\<rparr>,
      \<lparr>rt_Method = ''DELETE'', rt_Path = ''/series'', rt_Handler = instr L api_dropSeries\<rparr>]"

section \<open>The steps of a range query\<close>

text \<open>
  The loop of \<open>execEvalStmt\<close>:
  \<^verbatim>\<open>for ts := s.Start; !ts.After(s.End); ts = ts.Add(s.Interval)\<close>. The result lists the
  timestamps it evaluates; a loop that never ends is \<open>None\<close>.
\<close>

partial_function (option) eval_times :: "Time \<Rightarrow> Time \<Rightarrow> int \<Rightarrow> Time list option" where
  [code]: "eval_times ts end' interval =
     (if After ts end' then Some []
      else Option.bind (eval_times (Time_Add ts interval) end' interval) (\<lambda>l. Some (ts # l)))"

section \<open>Every response is well formed\<close>

text \<open>Every endpoint but \<open>options\<close> returns data and no error, or a typed error and no data.\<close>

definition ok_result :: "'v api_result \<Rightarrow> bool" where
  "ok_result res \<longleftrightarrow> (case res of (Some d, None) \<Rightarrow> True | (None, Some e) \<Rightarrow> ae_typ e \<noteq> errorNone | _ \<Rightarrow> False)"

lemma ok_results [wf_intros, simp]: "ok_result (bad_data e)" "ok_result (exec_error e)" "ok_result (exec_result P res)"
  by (simp_all add: ok_result_def bad_data_def exec_error_def)
    (cases "(P, res)" rule: exec_result.cases; simp add: exec_error_def)

lemma run_query_ok: "run_query P q w = Ret (res, w') \<Longrightarrow> ok_result res"
  by (auto simp: run_query_def bind_go_eq_Ret split: sum.splits prod.splits)

lemma ok_value [simp]: "ok_result (Some d, None)"
  by (simp add: ok_result_def)

lemma querier_result_ok:
  assumes "bind_go x (\<lambda>res. case res of Inl e \<Rightarrow> Ret (exec_error e, w)
    | Inr (v, w1) \<Rightarrow> Ret ((Some (F v), None), w1)) = Ret (res, w')"
  shows "ok_result res"
proof (cases x)
  case (Ret y)
  then show ?thesis using assms by (cases y) (auto split: prod.splits)
qed (use assms in simp_all)

lemma endpoints_ok:
  "api_query L P api ctx r w = Ret (res, w') \<Longrightarrow> ok_result res"
  "api_queryRange L P api ctx r w = Ret (res, w') \<Longrightarrow> ok_result res"
  "api_labelValues L api ctx r w = Ret (res, w') \<Longrightarrow> ok_result res"
  "api_series L P api ctx r w = Ret (res, w') \<Longrightarrow> ok_result res"
  "api_dropSeries ctx r w = Ret (res, w') \<Longrightarrow> ok_result res"
proof -
  show "api_query L P api ctx r w = Ret (res, w') \<Longrightarrow> ok_result res"
    by (auto simp: api_query_def Let_def split: sum.splits if_splits intro: run_query_ok)
  show "api_queryRange L P api ctx r w = Ret (res, w') \<Longrightarrow> ok_result res"
    by (auto simp: api_queryRange_def split: sum.splits if_splits intro: run_query_ok)
  show "api_labelValues L api ctx r w = Ret (res, w') \<Longrightarrow> ok_result res"
    by (auto simp: api_labelValues_def Let_def split: if_splits dest: querier_result_ok)
  show "api_series L P api ctx r w = Ret (res, w') \<Longrightarrow> ok_result res"
    unfolding api_series_def
    by (cases "form_time L Earliest (FormValue r ''start'')"; cases "form_time L Latest (FormValue r ''end'')";
        cases "parse_selectors P (rq_Form r ''match[]'')"; cases "rq_Form r ''match[]''")
      (auto dest: querier_result_ok)
  show "api_dropSeries ctx r w = Ret (res, w') \<Longrightarrow> ok_result res"
    by (auto simp: api_dropSeries_def)
qed

text \<open>A status code with the JSON document that belongs to it.\<close>

definition json_response :: "'v lib \<Rightarrow> Writer \<Rightarrow> int \<Rightarrow> 'v data response \<Rightarrow> bool" where
  "json_response L resp code rs \<longleftrightarrow>
     w_Code resp = Some code \<and> w_Header resp ''Content-Type'' = Some ''application/json'' \<and>
     w_Body resp = (case Marshal L rs of Inl e \<Rightarrow> [] | Inr b \<Rightarrow> b) \<and>
     (case rs_Status rs of
        statusSuccess \<Rightarrow> code = 200 \<and> rs_Data rs \<noteq> None \<and> rs_ErrorType rs = errorNone
      | statusError \<Rightarrow> code = error_code (rs_ErrorType rs) \<and> rs_Data rs = None \<and> rs_ErrorType rs \<noteq> errorNone)"

lemma setCORS_new: "w_Code (setCORS new_writer) = None" "w_Body (setCORS new_writer) = []"
  by (simp_all add: setCORS_def corsHeaders_def Header_Set_def new_writer_def)

lemma respondError_json:
  assumes "w_Code w = None" "w_Body w = []" "ae_typ e \<noteq> errorNone"
  shows "\<exists>rs. json_response L (respondError L w e None) (error_code (ae_typ e)) rs"
  using assms
  by (intro exI [of _ "\<lparr>rs_Status = statusError, rs_Data = None, rs_ErrorType = ae_typ e, rs_Error = msg (ae_err e)\<rparr>"])
    (simp add: json_response_def respondError_def Let_def Header_Set_def WriteHeader_def Writer_Write_def split: sum.split)

lemma respond_json:
  assumes "w_Code w = None" "w_Body w = []"
  shows "\<exists>rs. json_response L (respond L w d) 200 rs"
  using assms
  by (intro exI [of _ "\<lparr>rs_Status = statusSuccess, rs_Data = Some d, rs_ErrorType = errorNone, rs_Error = []\<rparr>"])
    (simp add: json_response_def respond_def Let_def Header_Set_def WriteHeader_def Writer_Write_def split: sum.split)

lemma error_code_range: "t \<noteq> errorNone \<Longrightarrow> error_code t \<in> {400, 422, 503}"
  by (cases t) simp_all

lemma finish_request_json:
  assumes "finish_request L (res, w) = Ret (resp, w')" "ok_result res"
  shows "\<exists>code\<in>{200, 400, 422, 503}. \<exists>rs. json_response L resp code rs"
proof -
  consider (data) d where "res = (Some d, None)" | (error) e where "res = (None, Some e)" "ae_typ e \<noteq> errorNone"
    using assms(2) by (cases res) (auto simp: ok_result_def split: option.splits)
  then show ?thesis
  proof cases
    case data
    then show ?thesis using assms(1) respond_json [OF setCORS_new] by (auto simp: finish_request_def)
  next
    case error
    then have "\<exists>rs. json_response L resp (error_code (ae_typ e)) rs"
      using assms(1) respondError_json [OF setCORS_new error(2), of L] by (simp add: finish_request_def)
    then show ?thesis using error_code_range [OF error(2)] by blast
  qed
qed

definition request_user :: "Request \<Rightarrow> string" where
  "request_user r =
     (if rq_Method r \<noteq> ''OPTIONS'' \<and> rq_Header r userIDHeaderName = [] then BasicAuth_user r else rq_Header r userIDHeaderName)"

lemma instr_eq:
  "instr L f r w =
     (if rq_Method r \<noteq> ''OPTIONS'' \<and> request_user r = [] then
        Ret (respondError L new_writer \<lparr>ae_typ = errorBadData, ae_err = Err ''missing user ID''\<rparr> None, w)
      else bind_go (f (WithID Background (request_user r)) r w) (finish_request L))"
  by (simp add: instr_def request_user_def Let_def)

lemma instr_json:
  assumes "instr L f r w = Ret (resp, w')" "\<And>ctx res w1. f ctx r w = Ret (res, w1) \<Longrightarrow> ok_result res"
  shows "\<exists>code\<in>{200, 400, 422, 503}. \<exists>rs. json_response L resp code rs"
proof (cases "rq_Method r \<noteq> ''OPTIONS'' \<and> request_user r = []")
  case True
  then have "resp = respondError L new_writer \<lparr>ae_typ = errorBadData, ae_err = Err ''missing user ID''\<rparr> None"
    using assms(1) by (simp add: instr_eq)
  moreover have "\<exists>rs. json_response L (respondError L new_writer \<lparr>ae_typ = errorBadData, ae_err = e\<rparr> None) 400 rs" for e
    using respondError_json [of new_writer "\<lparr>ae_typ = errorBadData, ae_err = e\<rparr>"] by (simp add: new_writer_def)
  ultimately have "\<exists>rs. json_response L resp 400 rs" by (simp only:)
  then show ?thesis by blast
next
  case False
  then obtain ctx res w1 where res: "f ctx r w = Ret (res, w1)" and fin: "finish_request L (res, w1) = Ret (resp, w')"
    using assms(1) unfolding instr_eq if_not_P [OF False] bind_go_eq_Ret by force
  show ?thesis by (rule finish_request_json [OF fin assms(2) [OF res]])
qed


section \<open>Users are kept apart\<close>

lemma endpoints_cong:
  assumes "newQuerier api ctx = newQuerier api' ctx" "now api = now api'"
  shows "api_query L P api ctx r w = api_query L P api' ctx r w"
    "api_queryRange L P api ctx r w = api_queryRange L P api' ctx r w"
    "api_labelValues L api ctx r w = api_labelValues L api' ctx r w"
    "api_series L P api ctx r w = api_series L P api' ctx r w"
  using assms
  by (simp_all only: api_query_def api_queryRange_def api_labelValues_def api_series_def newEngine_def)

lemma instr_cong:
  "(\<And>ctx. ctx = WithID Background (request_user r) \<Longrightarrow> f ctx r w = g ctx r w) \<Longrightarrow> instr L f r w = instr L g r w"
  unfolding instr_eq by simp

lemma handlers_instr: "rt \<in> set (Register L P api) \<Longrightarrow> \<exists>f. rt_Handler rt = instr L f"
  by (auto simp: Register_def)

text \<open>
  C8: The API serves a request from the querier of its user alone. The user is the one of the
  header, or of the basic authentication if the header is empty; without a user every request but
  a preflight is refused with 400 and changes nothing. Two systems that agree on the querier they
  build for that user, and on the clock, answer the request alike, whatever they hold for others.
\<close>

theorem api_user_isolation:
  assumes "i < length (Register L P api)" "rq_Method r = rt_Method (Register L P api ! i)"
    and "newQuerier api (WithID Background (request_user r)) = newQuerier api' (WithID Background (request_user r))"
    and "now api = now api'"
  shows "rt_Handler (Register L P api ! i) r w = rt_Handler (Register L P api' ! i) r w \<and>
    (rq_Method r \<noteq> ''OPTIONS'' \<and> request_user r = [] \<longrightarrow>
      rt_Handler (Register L P api ! i) r w =
        Ret (respondError L new_writer \<lparr>ae_typ = errorBadData, ae_err = Err ''missing user ID''\<rparr> None, w)) \<and>
    GetID (WithID Background (request_user r)) = Inr (request_user r)"
proof -
  note cong = endpoints_cong [OF assms(3,4)]
  have "i \<in> {0, 1, 2, 3, 4, 5}" using assms(1) by (auto simp: Register_def)
  then have "rt_Handler (Register L P api ! i) r w = rt_Handler (Register L P api' ! i) r w"
    by (elim insertE emptyE) (simp_all add: Register_def nth_Cons_numeral instr_eq cong)
  moreover obtain f where "rt_Handler (Register L P api ! i) = instr L f" using handlers_instr [OF nth_mem [OF assms(1)]] by blast
  ultimately show ?thesis by (simp add: instr_eq GetID_def WithID_def)
qed

section \<open>The number of points of a range query\<close>

lemma eval_times_step:
  "After ts e \<Longrightarrow> eval_times ts e d = Some []"
  "\<not> After ts e \<Longrightarrow> eval_times ts e d = Option.bind (eval_times (Time_Add ts d) e d) (\<lambda>l. Some (ts # l))"
  by (simp_all add: eval_times.simps [of ts e d])

definition points :: "Time \<Rightarrow> Time \<Rightarrow> int \<Rightarrow> nat" where
  "points s e k = (if s \<le> e then Suc (nat ((e - s) div k)) else 0)"

lemma points_next: "0 < k \<Longrightarrow> s \<le> e \<Longrightarrow> points s e k = Suc (points (s + k) e k)"
proof -
  assume k: "0 < k" and le: "s \<le> e"
  show ?thesis
  proof (cases "s + k \<le> e")
    case True
    have "(e - s) div k = (e - (s + k)) div k + 1"
      using k div_add_self2 [of k "e - (s + k)"] by (simp add: algebra_simps)
    moreover have "0 \<le> (e - (s + k)) div k" using True k by (simp add: pos_imp_zdiv_nonneg_iff)
    ultimately show ?thesis using True le by (simp add: points_def nat_add_distrib)
  next
    case False
    then have "(e - s) div k = 0" using le by (simp add: div_pos_pos_trivial)
    with False le show ?thesis by (simp add: points_def)
  qed
qed

lemma eval_times_points:
  assumes "0 < k" "int64 s" "int64 (e + k)"
  shows "eval_times s e (k * 1000000) = Some (map (\<lambda>i. s + int i * k) [0..<points s e k])"
  using assms(2)
proof (induction "nat (e - s + 1)" arbitrary: s rule: less_induct)
  case less
  show ?case
  proof (cases "s \<le> e")
    case True
    have fit: "int64 (s + k)" using True assms(1,3) less.prems by (simp add: int64_def)
    have add: "Time_Add s (k * 1000000) = s + k"
      using assms(1) wrap64_id [OF fit] by (simp add: Time_Add_def sdiv_pos)
    have "nat (e - (s + k) + 1) < nat (e - s + 1)" using True assms(1) by simp
    from less.hyps [OF this fit] have
      "eval_times s e (k * 1000000) = Some (s # map (\<lambda>i. s + k + int i * k) [0..<points (s + k) e k])"
      using True by (simp add: eval_times_step(2) After_def add)
    also have "s # map (\<lambda>i. s + k + int i * k) [0..<points (s + k) e k] =
        map (\<lambda>i. s + int i * k) [0..<Suc (points (s + k) e k)]"
      by (simp only: upt_conv_Cons zero_less_Suc list.map map_Suc_upt [symmetric] map_map)
        (simp add: algebra_simps)
    finally show ?thesis using points_next [OF assms(1) True] by simp
  next
    case False
    then show ?thesis by (simp add: eval_times_step(1) After_def points_def)
  qed
qed

lemma eval_times_stuck:
  assumes "eval_times ts e d = Some l" "int64 ts" "d sdiv 1000000 = 0"
  shows "e < ts"
proof -
  have "int64 ts \<and> d sdiv 1000000 = 0 \<longrightarrow> e < ts"
  proof (rule eval_times.raw_induct [OF _ assms(1)])
    fix ev ts e d l
    assume IH: "\<And>ts e d l. ev ts e d = Some l \<Longrightarrow> int64 ts \<and> d sdiv 1000000 = 0 \<longrightarrow> e < ts"
      and step: "(if After ts e then Some [] else Option.bind (ev (Time_Add ts d) e d) (\<lambda>l. Some (ts # l))) = Some l"
    show "int64 ts \<and> d sdiv 1000000 = 0 \<longrightarrow> e < ts"
    proof
      assume h: "int64 ts \<and> d sdiv 1000000 = 0"
      then have "Time_Add ts d = ts" by (simp add: Time_Add_def wrap64_id)
      then show "e < ts" using step h IH by (auto simp: After_def split: if_splits bind_splits)
    qed
  qed
  then show ?thesis using assms(2,3) by blast
qed

lemma range_quotient:
  assumes "0 < k" "\<bar>e - s\<bar> * 1000000 < 2 ^ 63"
  shows "wrap64 (Time_Sub e s sdiv (k * 1000000)) > 11000 \<longleftrightarrow> (e - s) div k > 11000"
proof -
  have T: "int64 ((e - s) * 1000000)" "int64 (e - s)" using assms(2) by (auto simp: int64_def abs_if split: if_splits)
  then have sub: "Time_Sub e s = (e - s) * 1000000" by (simp add: Time_Sub_def wrap64_id)
  have q: "(e - s) * 1000000 sdiv (k * 1000000) = (e - s) sdiv k" using assms(1) by (simp only: sdiv_scale zero_less_numeral)
  have "int64 ((e - s) sdiv k)"
  proof -
    have "\<bar>(e - s) sdiv k\<bar> \<le> \<bar>e - s\<bar>"
    proof (cases "0 \<le> e - s")
      case True
      then have "(e - s) div k \<le> e - s" using assms(1) zdiv_mono2 [of "e - s" 1 k] by simp
      moreover have "0 \<le> (e - s) div k" using True assms(1) by (simp add: pos_imp_zdiv_nonneg_iff)
      ultimately show ?thesis using True assms(1) by (simp add: sdiv_pos)
    next
      case False
      then have "(s - e) div k \<le> s - e" using assms(1) zdiv_mono2 [of "s - e" 1 k] by simp
      moreover have "0 \<le> (s - e) div k" using False assms(1) by (simp add: pos_imp_zdiv_nonneg_iff)
      ultimately show ?thesis using False assms(1) by (simp add: sdiv_pos)
    qed
    moreover have "\<bar>e - s\<bar> < 2 ^ 63" using assms(2) by simp
    ultimately have "\<bar>(e - s) sdiv k\<bar> < 2 ^ 63" by (rule le_less_trans)
    then show ?thesis unfolding int64_def abs_less_iff by (simp add: minus_less_iff)
  qed
  moreover have "(e - s) sdiv k > 11000 \<longleftrightarrow> (e - s) div k > 11000"
  proof (cases "0 \<le> e - s")
    case True
    then show ?thesis using assms(1) by (simp add: sdiv_pos)
  next
    case False
    then have "(e - s) div k < 0" "0 \<le> (s - e) div k" using assms(1) by (simp_all add: pos_imp_zdiv_neg_iff pos_imp_zdiv_nonneg_iff)
    then show ?thesis using False assms(1) by (simp add: sdiv_pos)
  qed
  ultimately show ?thesis unfolding sub q by (simp add: wrap64_id)
qed


section \<open>Requests that escape the limit\<close>

definition range_request :: "string \<Rightarrow> string \<Rightarrow> string \<Rightarrow> Request" where
  "range_request start end' step =
     \<lparr>rq_Method = ''GET'', rq_Header = (\<lambda>h. if h = userIDHeaderName then ''1'' else []), rq_BasicAuth = None,
      rq_Form = (\<lambda>k. if k = ''start'' then [start] else if k = ''end'' then [end'] else if k = ''step'' then [step]
        else if k = ''query'' then [''up''] else []), rq_Param = (\<lambda>p. [])\<rparr>"

text \<open>What \<open>strconv.ParseFloat\<close> makes of five numbers of seconds, in nanoseconds.\<close>

definition reads_seconds :: "'v lib \<Rightarrow> bool" where
  "reads_seconds L \<longleftrightarrow>
     ParseSeconds L ''0'' = Some 0 \<and> ParseSeconds L ''0.0005'' = Some 500000 \<and> ParseSeconds L ''1'' = Some (10 ^ 9) \<and>
     ParseSeconds L ''9223372036'' = Some (9223372036 * 10 ^ 9) \<and> ParseSeconds L ''-9223372036'' = Some (- 9223372036 * 10 ^ 9)"

lemma range_request_form:
  "FormValue (range_request s e d) ''start'' = s" "FormValue (range_request s e d) ''end'' = e"
  "FormValue (range_request s e d) ''step'' = d" "FormValue (range_request s e d) ''query'' = ''up''"
  by (simp_all add: FormValue_def range_request_def)


section \<open>Label values\<close>

text \<open>The \<open>MergeQuerier\<close> as the querier of the API; \<open>ord\<close> is the order of its map iterations.\<close>

definition MergeQuerier :: "'w Querier list \<Rightarrow> schedule \<Rightarrow> Context \<Rightarrow> 'w LocalQuerier" where
  "MergeQuerier queriers ord ctx =
     \<lparr>lq_QueryRange = QueryRange queriers ord ctx, lq_QueryInstant = QueryInstant queriers ord ctx,
      lq_Metrics = (\<lambda>from through sets w.
        case MetricsForLabelMatchers from through sets of Inl e \<Rightarrow> Ret (Inl e) | Inr l \<Rightarrow> Ret (Inr (l, w))),
      lq_LabelValues = LabelValuesForLabelName queriers ord ctx\<rparr>"

text \<open>
  The label values endpoint over the merged queriers. A request of a user for a valid label
  name is answered with 200 and the values that the queriers have for that user, each once and
  in ascending order, so the response does not depend on the order in which the map of values is
  visited. An invalid name is refused with 400, and then no querier is asked.
\<close>

lemma label_values_endpoint:
  assumes "request_user r = u" "u \<noteq> []" "rq_Param r ''name'' = name"
    and "value_answers qs (WithID Background u) name w Vs w'" "fair ord"
  shows "instr L (api_labelValues L (api_New clock (MergeQuerier qs ord))) r w =
    (if LabelNameRE name
     then Ret (respond L (setCORS new_writer) (LabelValuesData (sorted_list_of_set (set (concat Vs)))), w')
     else Ret (respondError L (setCORS new_writer)
       \<lparr>ae_typ = errorBadData, ae_err = Err (''invalid label name: '' @ Quote L name)\<rparr> None, w))"
proof -
  obtain out where out: "LabelValuesForLabelName qs ord (WithID Background u) name w = Ret (Inr (out, w'))"
    "distinct out" "set out = set (concat Vs)"
    using merge_label_values [OF assms(4,5)] by blast
  have "sort_slice (\<lambda>s. s) out = sorted_list_of_set (set (concat Vs))"
    unfolding out(3) [symmetric] using out(2) by (simp add: sort_slice_def sorted_list_of_set_sort_remdups distinct_remdups_id)
  then show ?thesis
    using assms(1-3) out(1)
    by (simp add: instr_eq api_labelValues_def Let_def api_New_def MergeQuerier_def finish_request_def bad_data_def)
qed

text \<open>The series endpoint has nothing behind it: its answer to valid selectors is always empty.\<close>

lemma series_always_empty:
  assumes "rq_Form r ''match[]'' = s # ss" "parse_selectors P (s # ss) = Inr sets"
    and "form_time L Earliest (FormValue r ''start'') = Inr from" "form_time L Latest (FormValue r ''end'') = Inr to"
  shows "api_series L P (api_New clock (MergeQuerier qs ord)) ctx r w = Ret ((Some (MetricsData []), None), w)"
  using assms by (simp add: api_series_def api_New_def MergeQuerier_def MetricsForLabelMatchers_def)

section \<open>A concrete API\<close>

definition demo_lib :: "unit lib" where
  "demo_lib =
     \<lparr>ParseSeconds = map_of [(''0'', 0), (''0.0005'', 500000), (''1'', 10 ^ 9), (''9223372036'', 9223372036 * 10 ^ 9),
        (''-9223372036'', - 9223372036 * 10 ^ 9)],
      ParseRFC3339Nano = (\<lambda>s. None), Quote = (\<lambda>s. s), Marshal = (\<lambda>rs. Inr ''json'')\<rparr>"

definition demo_promql :: "(unit, unit) promql" where
  "demo_promql =
     \<lparr>NewEngine = (\<lambda>q. \<lparr>NewInstantQuery = (\<lambda>s t. Inr (\<lambda>w. Ret (Inr (), w))),
        NewRangeQuery = (\<lambda>s t u d. Inr (\<lambda>w. Ret (Inr (), w)))\<rparr>),
      ValueType = (\<lambda>v. ''scalar''), ParseMetricSelector = (\<lambda>s. Inr [])\<rparr>"

definition demo_api :: "unit API" where
  "demo_api = api_New (\<lambda>w. 0) (MergeQuerier [fixed_querier [three_samples], fixed_querier [three_samples]] in_order)"

definition values_request :: Request where
  "values_request = \<lparr>rq_Method = ''GET'', rq_Header = (\<lambda>h. if h = userIDHeaderName then ''1'' else []), rq_BasicAuth = None,
     rq_Form = (\<lambda>k. []), rq_Param = (\<lambda>p. ''__name__'')\<rparr>"

definition drop_response :: Writer where
  "drop_response = respondError demo_lib (setCORS new_writer)
     \<lparr>ae_typ = errorExec, ae_err = Err ''dropping series is not supported''\<rparr> None"


theorem api_user_isolation_witness:
  "rt_Handler (Register demo_lib demo_promql demo_api ! 3) values_request () =
     rt_Handler (Register demo_lib demo_promql (demo_api\<lparr>newQuerier := (newQuerier demo_api)(WithID Background ''2'' := MergeQuerier [] in_order Background)\<rparr>) ! 3)
       values_request ()"
proof -
  have "WithID Background ''1'' \<noteq> WithID Background ''2''" by (simp add: WithID_def fun_eq_iff)
  then show ?thesis
    by (intro api_user_isolation [THEN conjunct1])
      (simp_all add: Register_def request_user_def values_request_def userIDHeaderName_def)
qed



end
