(* ===== verification/Main_Program.thy ===== *)
theory Main_Program
  imports Query_Api Ingester_Client Chunk_Write Memcache_Client "HOL-Library.Sublist"
begin

text \<open>
  The program (\<open>cmd/frankenstein/main.go\<close>): the flags, the construction of the chunk store
  (with \<open>NewAWSStore\<close> of \<open>chunk/chunk_store.go\<close>), the query pipeline of the distributor, the
  routes of the two modes and the order of start and shutdown. URL parsing and the constructors
  of the AWS clients are arguments.
\<close>

section \<open>Flags\<close>

record cfg =
  mode :: string
  listenPort :: int
  consulHost :: string
  consulPrefix :: string
  s3URL :: string
  dynamodbURL :: string
  dynamodbCreateTables :: bool
  memcachedHostname :: string
  memcachedTimeout :: int
  memcachedExpiration :: int
  memcachedService :: string
  remoteTimeout :: int
  flushPeriod :: int
  maxChunkAge :: int
  cfg_numTokens :: int

definition millisecond :: int where "millisecond = 1000000"
definition second :: int where "second = 1000 * millisecond"
definition minute :: int where "minute = 60 * second"

definition default_cfg :: cfg where
  "default_cfg =
     \<lparr>mode = ''distributor'', listenPort = 9094, consulHost = ''localhost:8500'', consulPrefix = ''collectors/'',
      s3URL = ''localhost:4569'', dynamodbURL = ''localhost:8000'', dynamodbCreateTables = False, memcachedHostname = [],
      memcachedTimeout = 100 * millisecond, memcachedExpiration = 0, memcachedService = ''memcached'',
      remoteTimeout = 5 * second, flushPeriod = 1 * minute, maxChunkAge = 10 * minute, cfg_numTokens = 128\<rparr>"

section \<open>The chunk store\<close>

record Userinfo =
  ui_Username :: string
  ui_Password :: "string option"

record URL =
  u_User :: "Userinfo option"
  u_Host :: string
  u_Path :: string

record awsConfig =
  ac_Username :: string
  ac_Password :: string
  ac_Endpoint :: "string option"
  ac_Region :: string

definition awsConfigFromURL :: "URL \<Rightarrow> err + awsConfig" where
  "awsConfigFromURL url =
     (case u_User url of
        None \<Rightarrow> Inl (Err ''must specify username & password in URL'')
      | Some user \<Rightarrow>
          let password = (case ui_Password user of None \<Rightarrow> [] | Some p \<Rightarrow> p)
          in Inr (if CHR ''.'' \<in> set (u_Host url)
                  then \<lparr>ac_Username = ui_Username user, ac_Password = password,
                        ac_Endpoint = Some (''http://'' @ u_Host url), ac_Region = ''dummy''\<rparr>
                  else \<lparr>ac_Username = ui_Username user, ac_Password = password,
                        ac_Endpoint = None, ac_Region = u_Host url\<rparr>))"

definition TrimPrefix :: "string \<Rightarrow> string \<Rightarrow> string" where
  "TrimPrefix s p = (if prefix p s then drop (length p) s else s)"

record 'm StoreConfig =
  sc_S3URL :: string
  sc_DynamoDBURL :: string
  sc_ChunkCache :: "'m Cache option"

definition NewAWSStore ::
  "(string \<Rightarrow> err + URL) \<Rightarrow> (awsConfig \<Rightarrow> 'd dynamodbClient) \<Rightarrow> (awsConfig \<Rightarrow> 's s3Client) \<Rightarrow> 'm StoreConfig \<Rightarrow>
   err + ('d, 's, 'm) AWSStore" where
  "NewAWSStore Parse dynamodb_New s3_New cfg =
     (case Parse (sc_S3URL cfg) of
        Inl e \<Rightarrow> Inl e
      | Inr s3u \<Rightarrow>
     (case awsConfigFromURL s3u of
        Inl e \<Rightarrow> Inl e
      | Inr s3Config \<Rightarrow>
     (case Parse (sc_DynamoDBURL cfg) of
        Inl e \<Rightarrow> Inl e
      | Inr dynamou \<Rightarrow>
     (case awsConfigFromURL dynamou of
        Inl e \<Rightarrow> Inl e
      | Inr dynamoDBConfig \<Rightarrow>
          Inr \<lparr>dynamodb = dynamodb_New dynamoDBConfig, s3 = s3_New s3Config, chunkCache = sc_ChunkCache cfg,
               tableName = TrimPrefix (u_Path dynamou) ''/'', bucketName = TrimPrefix (u_Path s3u) ''/'',
               putLimiter = Some maxConcurrentPuts\<rparr>))))"

text \<open>
  \<open>memcache\<close> makes the operations of the cache out of a memcache client; the client refreshes
  its server list from the network \<open>n\<close>. \<open>d\<close> is the state of DynamoDB.
\<close>

definition setup_cache :: "('a MemcacheClient \<Rightarrow> 'm Memcache) \<Rightarrow> 'a net \<Rightarrow> cfg \<Rightarrow> 'm Cache option" where
  "setup_cache memcache n cfg =
     (if memcachedHostname cfg \<noteq> []
      then Some \<lparr>Memcache = memcache (NewMemcacheClient n
                   \<lparr>mc_Host = memcachedHostname cfg, mc_Service = memcachedService cfg,
                    mc_Timeout = memcachedTimeout cfg, mc_UpdateInterval = 1 * minute\<rparr>),
                 Expiration = memcachedExpiration cfg\<rparr>
      else None)"

definition setupChunkStore ::
  "(string \<Rightarrow> err + URL) \<Rightarrow> (awsConfig \<Rightarrow> 'd dynamodbClient) \<Rightarrow> (awsConfig \<Rightarrow> 's s3Client) \<Rightarrow>
   ('a MemcacheClient \<Rightarrow> 'm Memcache) \<Rightarrow> 'a net \<Rightarrow> cfg \<Rightarrow> 'd \<Rightarrow> (err + ('d, 's, 'm) AWSStore) \<times> 'd" where
  "setupChunkStore Parse dynamodb_New s3_New memcache n cfg d =
     (case NewAWSStore Parse dynamodb_New s3_New
             \<lparr>sc_S3URL = s3URL cfg, sc_DynamoDBURL = dynamodbURL cfg, sc_ChunkCache = setup_cache memcache n cfg\<rparr> of
        Inl e \<Rightarrow> (Inl e, d)
      | Inr store \<Rightarrow>
          if dynamodbCreateTables cfg
          then (case CreateTables store d of (Some e, d') \<Rightarrow> (Inl e, d') | (None, d') \<Rightarrow> (Inr store, d'))
          else (Inr store, d))"

section \<open>The query pipeline\<close>

text \<open>
  The state behind the queries is the distributor with its ingesters, and the services behind the
  chunk store. Both queriers of the pipeline work on their part of it.
\<close>

definition distributor_querier ::
  "'r ring_get \<Rightarrow> ('r \<Rightarrow> IngesterDesc list) \<Rightarrow> schedule \<Rightarrow> ((('r, 'w) Distributor \<times> 'w) \<times> 'st) Querier" where
  "distributor_querier get getAll ord =
     \<lparr>q_Query = (\<lambda>ctx from to ms (dw, st).
        bind_err (Distributor_Query get ctx from to ms dw) (\<lambda>(M, dw'). Ret (Inr (M, (dw', st))))),
      q_LabelValues = (\<lambda>ctx ln (dw, st).
        bind_err (Distributor_LabelValues getAll ord ctx ln dw) (\<lambda>(vs, dw'). Ret (Inr (vs, (dw', st)))))\<rparr>"

definition chunk_querier :: "(bytes \<Rightarrow> SamplePair list) \<Rightarrow> schedule \<Rightarrow> 'st store_get \<Rightarrow> ('dw \<times> 'st) Querier" where
  "chunk_querier decodeChunk ord store =
     \<lparr>q_Query = (\<lambda>ctx from to ms (dw, st).
        bind_err (ChunkQuerier_Query decodeChunk ord store ctx from to ms st) (\<lambda>(M, st'). Ret (Inr (M, (dw, st'))))),
      q_LabelValues = (\<lambda>ctx ln (dw, st).
        bind_err (ChunkQuerier_LabelValues ctx ln st) (\<lambda>(vs, st'). Ret (Inr (vs, (dw, st')))))\<rparr>"

definition newQuerier_for ::
  "'r ring_get \<Rightarrow> ('r \<Rightarrow> IngesterDesc list) \<Rightarrow> (bytes \<Rightarrow> SamplePair list) \<Rightarrow> schedule \<Rightarrow> 'st store_get \<Rightarrow>
   Context \<Rightarrow> ((('r, 'w) Distributor \<times> 'w) \<times> 'st) LocalQuerier" where
  "newQuerier_for get getAll decodeChunk ord store ctx =
     MergeQuerier [distributor_querier get getAll ord, chunk_querier decodeChunk ord store] ord ctx"

section \<open>Routes\<close>

datatype handler =
    MetricsHandler | PprofHandler | RedirectHandler string
  | DistributorAppender | ApiRouter | GraphUI | StaticAssets
  | IngesterAppender | IngesterQuery | IngesterLabelValues

text \<open>
  \<open>http.ServeMux\<close>: patterns that end in a slash match every path below them and redirect the
  path without the slash; others match exactly; the longest pattern wins. Registering a pattern
  twice panics. A path is expected to be clean.
\<close>

record muxEntry =
  me_explicit :: bool
  me_h :: handler

type_synonym mux = "(string \<times> muxEntry) list"

definition ends_slash :: "string \<Rightarrow> bool" where
  "ends_slash p \<longleftrightarrow> p \<noteq> [] \<and> last p = CHR ''/''"

definition explicit_in :: "mux \<Rightarrow> string \<Rightarrow> bool" where
  "explicit_in m p \<longleftrightarrow> (case map_of m p of None \<Rightarrow> False | Some e \<Rightarrow> me_explicit e)"

definition mux_set :: "string \<Rightarrow> muxEntry \<Rightarrow> mux \<Rightarrow> mux" where
  "mux_set p e m = (p, e) # filter (\<lambda>(q, _). q \<noteq> p) m"

definition Handle :: "string \<Rightarrow> handler \<Rightarrow> mux \<Rightarrow> mux go" where
  "Handle pattern h m =
     (if pattern = [] then Panic ''http: invalid pattern''
      else if explicit_in m pattern then Panic (''http: multiple registrations for '' @ pattern)
      else
        let m1 = mux_set pattern \<lparr>me_explicit = True, me_h = h\<rparr> m; bare = butlast pattern
        in Ret (if ends_slash pattern \<and> \<not> explicit_in m1 bare
                then mux_set bare \<lparr>me_explicit = False, me_h = RedirectHandler pattern\<rparr> m1 else m1))"

definition pathMatch :: "string \<Rightarrow> string \<Rightarrow> bool" where
  "pathMatch pattern path \<longleftrightarrow>
     pattern \<noteq> [] \<and> (if ends_slash pattern then prefix pattern path else pattern = path)"

fun mux_match :: "mux \<Rightarrow> string \<Rightarrow> (nat \<times> handler) option" where
  "mux_match [] path = None"
| "mux_match ((p, e) # m) path =
     (case mux_match m path of
        None \<Rightarrow> (if pathMatch p path then Some (length p, me_h e) else None)
      | Some (n, h) \<Rightarrow> (if pathMatch p path \<and> n < length p then Some (length p, me_h e) else Some (n, h)))"

text \<open>\<open>mux.Handler\<close>: the handler of the longest pattern; none is a 404.\<close>

definition mux_Handler :: "mux \<Rightarrow> string \<Rightarrow> handler option" where
  "mux_Handler m path = (case mux_match m path of None \<Rightarrow> None | Some (n, h) \<Rightarrow> Some h)"

fun handle_all :: "(string \<times> handler) list \<Rightarrow> mux \<Rightarrow> mux go" where
  "handle_all [] m = Ret m"
| "handle_all ((p, h) # r) m = bind_go (Handle p h m) (handle_all r)"

text \<open>The handlers that importing \<open>net/http/pprof\<close> registers.\<close>

definition pprof_routes :: "(string \<times> handler) list" where
  "pprof_routes = map (\<lambda>p. (p, PprofHandler))
     [''/debug/pprof/'', ''/debug/pprof/cmdline'', ''/debug/pprof/profile'', ''/debug/pprof/symbol'', ''/debug/pprof/trace'']"

definition setupQuerier_routes :: "string \<Rightarrow> (string \<times> handler) list" where
  "setupQuerier_routes pref =
     [(''/'', ApiRouter), (pref @ ''/graph'', GraphUI), (pref @ ''/static/'', StaticAssets)]"

definition setupDistributor_routes :: "(string \<times> handler) list" where
  "setupDistributor_routes =
     (let pref = ''/api/prom'' in (pref @ ''/push'', DistributorAppender) # setupQuerier_routes pref)"

definition setupIngester_routes :: "(string \<times> handler) list" where
  "setupIngester_routes = [(''/push'', IngesterAppender), (''/query'', IngesterQuery), (''/label_values'', IngesterLabelValues)]"

definition serving_mux :: "string \<Rightarrow> mux go" where
  "serving_mux m =
     handle_all (pprof_routes @ (if m = ''distributor'' then setupDistributor_routes else setupIngester_routes) @
       [(''/metrics'', MetricsHandler)]) []"

section \<open>Start and shutdown\<close>

text \<open>
  What the process does, in order. \<open>log.Fatalf\<close> ends the process at once, without running the
  deferred calls. On the way out the deferred calls run last in, first out.
\<close>

datatype action =
    StartRing | StopRing | Register_Ingester | Unregister_Ingester | StartIngester | StopIngester
  | Routes mux | ListenAndServe string | AwaitSignal | Fatal string

record env =
  e_store :: "cfg \<Rightarrow> err option"
  e_consul :: "string \<Rightarrow> err option"
  e_register :: "int \<Rightarrow> int \<Rightarrow> err option"
  e_ingester :: "int \<Rightarrow> int \<Rightarrow> err option"

definition serve :: "cfg \<Rightarrow> action list \<Rightarrow> action list \<Rightarrow> action list" where
  "serve cfg started deferred =
     (case serving_mux (mode cfg) of
        Ret m \<Rightarrow> started @ [Routes m, ListenAndServe ('':'' @ show_int (listenPort cfg)), AwaitSignal] @ rev deferred
      | _ \<Rightarrow> started @ rev deferred)"

definition main :: "env \<Rightarrow> cfg \<Rightarrow> action list" where
  "main E cfg =
     (case e_store E cfg of
        Some e \<Rightarrow> [Fatal (''Error initializing chunk store: '' @ msg e)]
      | None \<Rightarrow>
     (case e_consul E (consulHost cfg) of
        Some e \<Rightarrow> [Fatal (''Error initializing Consul client: '' @ msg e)]
      | None \<Rightarrow>
          if mode cfg = ''distributor'' then serve cfg [StartRing] [StopRing]
          else if mode cfg = ''ingester'' then
            (case e_register E (listenPort cfg) (cfg_numTokens cfg) of
               Some e \<Rightarrow> [Fatal (''Could not register ingester: '' @ msg e)]
             | None \<Rightarrow>
            (case e_ingester E (flushPeriod cfg) (maxChunkAge cfg) of
               Some e \<Rightarrow> [Register_Ingester, Fatal (msg e)]
             | None \<Rightarrow> serve cfg [Register_Ingester, StartIngester] [Unregister_Ingester, StopIngester]))
          else [Fatal (''Mode '' @ mode cfg @ '' not supported!'')]))"

section \<open>The ingester process\<close>

text \<open>The codecs, the ingester's operations and the map order behind its three handlers.\<close>

record 'w ingester_http =
  ih_compile :: "string \<Rightarrow> err + (string \<Rightarrow> bool)"
  ih_ord :: schedule
  ih_snappy :: Snappy
  ih_WriteRequest :: "WriteRequest Proto"
  ih_WriteResponse :: "WriteResponse Proto"
  ih_ReadRequest :: "GenericReadRequest Proto"
  ih_ReadResponse :: "GenericReadResponse Proto"
  ih_LabelValuesRequest :: "GenericLabelValuesRequest Proto"
  ih_LabelValuesResponse :: "GenericLabelValuesResponse Proto"
  ih_Append :: "'w appender"
  ih_Query :: "'w query"
  ih_LabelValues :: "Context \<Rightarrow> LabelName \<Rightarrow> 'w \<Rightarrow> (err + LabelValue list \<times> 'w) go"

definition ingester_serve :: "mux \<Rightarrow> 'w ingester_http \<Rightarrow> HttpRequest \<Rightarrow> 'w \<Rightarrow> (HttpResponse \<times> 'w) go" where
  "ingester_serve m I r w =
     (case mux_Handler m (r_Path r) of
        Some IngesterAppender \<Rightarrow> AppenderHandler (ih_WriteRequest I) (ih_WriteResponse I) (ih_snappy I) (ih_Append I) r w
      | Some IngesterQuery \<Rightarrow> QueryHandler (ih_compile I) (ih_ord I) (ih_ReadRequest I) (ih_ReadResponse I) (ih_Query I) r w
      | Some IngesterLabelValues \<Rightarrow>
          LabelValuesHandler (ih_LabelValuesRequest I) (ih_LabelValuesResponse I) (ih_LabelValues I) r w
      | _ \<Rightarrow> Ret (http_error ''404 page not found'' 404, w))"

text \<open>A transport that reaches an ingester process at an address.\<close>

definition reaches :: "'w transport \<Rightarrow> string \<Rightarrow> mux \<Rightarrow> 'w ingester_http \<Rightarrow> bool" where
  "reaches transport address m I \<longleftrightarrow>
     (\<forall>r w. transport address r w = bind_go (ingester_serve m I r w) (\<lambda>(resp, w'). Ret (Inr resp, w')))"

section \<open>Which handler serves which path\<close>

lemmas mux_defs = serving_mux_def pprof_routes_def setupDistributor_routes_def setupQuerier_routes_def setupIngester_routes_def
  Handle_def mux_set_def explicit_in_def ends_slash_def Let_def

definition distributor_mux :: mux where
  "distributor_mux = (case serving_mux ''distributor'' of Ret m \<Rightarrow> m | _ \<Rightarrow> [])"

definition ingester_mux :: mux where
  "ingester_mux = (case serving_mux ''ingester'' of Ret m \<Rightarrow> m | _ \<Rightarrow> [])"

lemma serving_mux_total:
  "serving_mux ''distributor'' = Ret distributor_mux" "serving_mux ''ingester'' = Ret ingester_mux"
  by (simp_all add: distributor_mux_def ingester_mux_def mux_defs)

lemma ingester_paths:
  "mux_Handler ingester_mux ''/push'' = Some IngesterAppender"
  "mux_Handler ingester_mux ''/query'' = Some IngesterQuery"
  "mux_Handler ingester_mux ''/label_values'' = Some IngesterLabelValues"
  "mux_Handler ingester_mux ''/metrics'' = Some MetricsHandler"
  by (simp_all add: ingester_mux_def mux_defs pathMatch_def mux_Handler_def)

text \<open>
  The routes. Registering them never panics. In distributor mode the push path, the graph
  page, everything below the static path and the metrics path have their handlers, and every
  path below \<open>/api/prom/api/v1/\<close> goes to the API's router. In ingester mode exactly the three
  paths that the ingester client uses and the metrics path are served.
\<close>

lemma routes_served:
  "serving_mux ''distributor'' = Ret distributor_mux \<and> serving_mux ''ingester'' = Ret ingester_mux \<and>
   mux_Handler distributor_mux ''/api/prom/push'' = Some DistributorAppender \<and>
   mux_Handler distributor_mux ''/api/prom/graph'' = Some GraphUI \<and>
   mux_Handler distributor_mux (''/api/prom/static/'' @ file) = Some StaticAssets \<and>
   mux_Handler distributor_mux (''/api/prom/api/v1/'' @ rest) = Some ApiRouter \<and>
   mux_Handler distributor_mux ''/metrics'' = Some MetricsHandler \<and>
   mux_Handler ingester_mux ''/push'' = Some IngesterAppender \<and>
   mux_Handler ingester_mux ''/query'' = Some IngesterQuery \<and>
   mux_Handler ingester_mux ''/label_values'' = Some IngesterLabelValues \<and>
   mux_Handler ingester_mux ''/metrics'' = Some MetricsHandler \<and>
   mux_Handler ingester_mux (''/api/prom/'' @ rest) = None"
proof (intro conjI)
  show "mux_Handler distributor_mux ''/api/prom/push'' = Some DistributorAppender"
    "mux_Handler distributor_mux ''/api/prom/graph'' = Some GraphUI"
    "mux_Handler distributor_mux (''/api/prom/static/'' @ file) = Some StaticAssets"
    "mux_Handler distributor_mux (''/api/prom/api/v1/'' @ rest) = Some ApiRouter"
    "mux_Handler distributor_mux ''/metrics'' = Some MetricsHandler"
    by (simp_all add: distributor_mux_def mux_defs pathMatch_def mux_Handler_def)
  show "mux_Handler ingester_mux (''/api/prom/'' @ rest) = None"
    by (simp add: ingester_mux_def mux_defs pathMatch_def mux_Handler_def)
qed (rule serving_mux_total ingester_paths)+

section \<open>Clients and ingester processes\<close>

lemma reached:
  assumes "reaches transport address ingester_mux I"
  shows "r_Path r = ''/push'' \<Longrightarrow> transport address r w =
      bind_go (AppenderHandler (ih_WriteRequest I) (ih_WriteResponse I) (ih_snappy I) (ih_Append I) r w)
        (\<lambda>(resp, w'). Ret (Inr resp, w'))"
    and "r_Path r = ''/query'' \<Longrightarrow> transport address r w =
      bind_go (QueryHandler (ih_compile I) (ih_ord I) (ih_ReadRequest I) (ih_ReadResponse I) (ih_Query I) r w)
        (\<lambda>(resp, w'). Ret (Inr resp, w'))"
    and "r_Path r = ''/label_values'' \<Longrightarrow> transport address r w =
      bind_go (LabelValuesHandler (ih_LabelValuesRequest I) (ih_LabelValuesResponse I) (ih_LabelValues I) r w)
        (\<lambda>(resp, w'). Ret (Inr resp, w'))"
  using assms unfolding reaches_def by (simp_all add: ingester_serve_def ingester_paths)

text \<open>
  C16: Appends arrive unchanged. If the transport reaches an ingester process and the codecs read
  back what they wrote, then an \<open>Append\<close> of the client calls the process's appender once, with
  a context of the same user and with the same samples in the same order; the client reports
  success exactly when the appender did, and otherwise the HTTP status 500.
\<close>

theorem append_over_http:
  assumes "GetID ctx = Inr u" "u \<noteq> []" "\<forall>s\<in>set samples. wf_metric (s_Metric s)" "fair ord" "snappy_ok (ih_snappy I)"
    and "reads_back (ih_WriteRequest I) (map (sample_series ord) samples)" "reads_back (ih_WriteResponse I) ()"
    and "reaches transport address ingester_mux I"
  shows "Client_Append (ih_WriteRequest I) (ih_WriteResponse I) (ih_snappy I) ord transport address ctx samples w =
    bind_go (ih_Append I (WithID Background u) samples w) (\<lambda>(e, w').
      Ret (map_option (\<lambda>_. Err ''server returned HTTP status 500 Internal Server Error'') e, w'))"
  by (rule append_served [OF assms(1-7)]) (simp add: reached [OF assms(8)])

text \<open>
  C15: Queries and their answers survive the wire. If the transport reaches an ingester process,
  then its querier is asked with the same user, times and matchers, and the client returns its
  matrix with samples and labels unchanged, except that a metric without a name comes back with an
  empty \<open>__name__\<close> label. Label values come back as they are.
\<close>

theorem query_over_http:
  assumes "GetID ctx = Inr u" "u \<noteq> []" "\<forall>m\<in>set ms. built (ih_compile I) m" "fair (ih_ord I)"
    and "ih_Query I (WithID Background u) from to ms w = Ret (Inr (M, w'))" "\<forall>ss\<in>set M. wf_metric (ss_Metric ss)"
    and "reads_back (ih_ReadRequest I) (read_request from to ms)" "reads_back (ih_ReadResponse I) (map (write_series (ih_ord I)) M)"
    and "ih_LabelValues I (WithID Background u) ln v = Ret (Inr (vals, v'))"
    and "reads_back (ih_LabelValuesRequest I) (Some ln)" "reads_back (ih_LabelValuesResponse I) vals"
    and "reaches transport address ingester_mux I"
  shows "Client_Query (ih_ReadRequest I) (ih_ReadResponse I) (ih_snappy I) transport address ctx from to ms w =
      Ret (Inr (map (\<lambda>ss. ss\<lparr>ss_Metric := with_name (ss_Metric ss)\<rparr>) M), w') \<and>
    Client_LabelValues (ih_LabelValuesRequest I) (ih_LabelValuesResponse I) (ih_snappy I) transport address ctx ln v = Ret (Inr vals, v')"
proof
  note reached = reached [OF assms(12)]
  show "Client_Query (ih_ReadRequest I) (ih_ReadResponse I) (ih_snappy I) transport address ctx from to ms w =
      Ret (Inr (map (\<lambda>ss. ss\<lparr>ss_Metric := with_name (ss_Metric ss)\<rparr>) M), w')"
    by (rule query_served [where query = "ih_Query I" and compile = "ih_compile I" and ord = "ih_ord I" and u = u])
      (use assms(1-8) in \<open>simp_all add: reached\<close>)
  show "Client_LabelValues (ih_LabelValuesRequest I) (ih_LabelValuesResponse I) (ih_snappy I) transport address ctx ln v = Ret (Inr vals, v')"
    by (rule label_values_served [where lvs = "ih_LabelValues I" and u = u])
      (use assms(1,2,9-11) in \<open>simp_all add: reached\<close>)
qed

definition demo_proto :: "'m \<Rightarrow> 'm Proto" where
  "demo_proto m = \<lparr>p_Marshal = (\<lambda>_. Inr ''m''), p_Unmarshal = (\<lambda>_. Inr m)\<rparr>"

definition demo_ingester :: "(Context \<times> Sample) list ingester_http" where
  "demo_ingester =
     \<lparr>ih_compile = (\<lambda>_. Inl (Err ''bad regexp'')), ih_ord = in_order, ih_snappy = \<lparr>compress = (\<lambda>b. b), decompress = Inr\<rparr>,
      ih_WriteRequest = demo_proto (map (sample_series in_order) [up_sample]), ih_WriteResponse = demo_proto (),
      ih_ReadRequest = demo_proto (read_request 0 9 [name_matcher ''up'']),
      ih_ReadResponse = demo_proto (map (write_series in_order) [three_samples]),
      ih_LabelValuesRequest = demo_proto (Some ''job''), ih_LabelValuesResponse = demo_proto [''api''],
      ih_Append = (\<lambda>ctx ss w. Ret (None, w @ map (Pair ctx) ss)), ih_Query = (\<lambda>ctx from to ms w. Ret (Inr ([three_samples], w))),
      ih_LabelValues = (\<lambda>ctx ln w. Ret (Inr ([''api''], w)))\<rparr>"

definition demo_transport :: "(Context \<times> Sample) list transport" where
  "demo_transport a r w = bind_go (ingester_serve ingester_mux demo_ingester r w) (\<lambda>(resp, w'). Ret (Inr resp, w'))"

lemma demo_reaches: "reaches demo_transport a ingester_mux demo_ingester"
  by (simp add: reaches_def demo_transport_def)

theorem append_over_http_witness:
  "Client_Append (ih_WriteRequest demo_ingester) (ih_WriteResponse demo_ingester) (ih_snappy demo_ingester) in_order demo_transport
     ''a:1'' (WithID Background ''u1'') [up_sample] [] = Ret (None, [(WithID Background ''u1'', up_sample)])"
  by (subst append_over_http [where u = "''u1''", OF _ _ _ _ _ _ _ demo_reaches])
    (simp_all add: up_sample_def snappy_ok_def reads_back_def demo_proto_def demo_ingester_def)

theorem query_over_http_witness:
  "Client_Query (ih_ReadRequest demo_ingester) (ih_ReadResponse demo_ingester) (ih_snappy demo_ingester) demo_transport
     ''a:1'' (WithID Background ''u1'') 0 9 [name_matcher ''up''] [] =
     Ret (Inr (map (\<lambda>ss. ss\<lparr>ss_Metric := with_name (ss_Metric ss)\<rparr>) [three_samples]), [])"
  by (rule query_over_http [where u = "''u1''" and ln = "''job''" and vals = "[''api'']" and v = "[]" and v' = "[]",
      OF _ _ _ _ _ _ _ _ _ _ _ demo_reaches, THEN conjunct1])
    (simp_all add: demo_ingester_def built_def name_matcher_def NewLabelMatcher_def reads_back_def demo_proto_def three_samples_def)

section \<open>The query pipeline\<close>

lemma merged_values:
  assumes "merged xs out"
  shows "mset (concat (map snd (filter (\<lambda>x. fst x = m) (as_group out)))) = mset (concat (map snd (filter (\<lambda>x. fst x = m) xs)))"
proof (cases "m \<in> ss_Metric ` set out")
  case True
  then obtain ss where ss: "ss \<in> set out" "ss_Metric ss = m" by blast
  have "distinct (map ss_Metric out)" using assms by (simp add: merged_def)
  then have "filter (\<lambda>s. ss_Metric s = m) out = [ss]" using ss
    by (induction out) (auto simp: filter_empty_conv, metis imageI)
  then have "filter (\<lambda>x. fst x = m) (as_group out) = [(m, ss_Values ss)]"
    using ss(2) by (simp add: as_group_def filter_map o_def)
  then show ?thesis using assms ss by (auto simp: merged_def)
next
  case False
  then have "m \<notin> fst ` set xs" using assms by (simp add: merged_def)
  with False have "filter (\<lambda>x. fst x = m) xs = []" "filter (\<lambda>x. fst x = m) (as_group out) = []"
    by (auto simp: filter_empty_conv as_group_def)
  then show ?thesis by simp
qed

text \<open>All samples that a matrix has for a metric, and all that the chunks of a metric decode to.\<close>

definition matrix_samples :: "Matrix \<Rightarrow> metric \<Rightarrow> SamplePair multiset" where
  "matrix_samples M m = mset (concat (map ss_Values (filter (\<lambda>ss. ss_Metric ss = m) M)))"

definition chunk_samples :: "(bytes \<Rightarrow> SamplePair list) \<Rightarrow> Chunk list \<Rightarrow> metric \<Rightarrow> SamplePair multiset" where
  "chunk_samples decodeChunk cs m = mset (concat (map (\<lambda>c. decodeChunk (Data c)) (filter (\<lambda>c. Metric c = m) cs)))"

lemma matrix_samples_group: "matrix_samples M m = mset (concat (map snd (filter (\<lambda>x. fst x = m) (as_group M))))"
  by (simp add: matrix_samples_def as_group_def filter_map o_def)

lemma pipeline_merges:
  assumes "metricNameFromLabelMatchers ms = Inr name" "get (d_ring d) (tokenFor u name) = Inr ing"
    and "getClientFor (Hostname ing) d = (Inr client, d')"
    and "c_Query client (WithID Background u) from to ms w = Ret (Inr (M, w'))"
    and "store (WithID Background u) from to ms st = Ret (Inr (chunks, st'))"
    and "inj_on Fingerprint (ss_Metric ` set M \<union> Metric ` set chunks)" "fair ord"
  shows "\<exists>out. lq_QueryRange (newQuerier_for get getAll decodeChunk ord store (WithID Background u)) from to ms ((d, w), st) =
      Ret (Inr (out, ((d', w'), st'))) \<and>
    distinct (map ss_Metric out) \<and> ss_Metric ` set out = ss_Metric ` set M \<union> Metric ` set chunks \<and>
    (\<forall>ss\<in>set out. time_sorted ss \<and>
      mset (ss_Values ss) = matrix_samples M (ss_Metric ss) + chunk_samples decodeChunk chunks (ss_Metric ss))"
proof -
  let ?ctx = "WithID Background u" and ?xs = "map (\<lambda>c. (Metric c, decodeChunk (Data c))) chunks"
  let ?qs = "[distributor_querier get getAll ord, chunk_querier decodeChunk ord store]"
  obtain Mc where Mc: "ChunkQuerier_Query decodeChunk ord store ?ctx from to ms st = Ret (Inr (Mc, st'))" "merged ?xs Mc"
    using ChunkQuerier_merged [of store ?ctx "from" to ms st chunks st' ord decodeChunk] assms(5-7)
    by (auto intro: inj_on_subset)
  have mc: "ss_Metric ` set Mc = Metric ` set chunks" using Mc(2) by (auto simp: merged_def image_image)
  have "Distributor_Query get ?ctx from to ms (d, w) = Ret (Inr (M, (d', w')))"
    using assms(1-4) by (simp add: Distributor_Query_def GetID_def WithID_def)
  then have ans: "answers ?qs ?ctx from to ms ((d, w), st) [M, Mc] ((d', w'), st')"
    using Mc(1) by (simp add: distributor_querier_def chunk_querier_def)
  have inj: "inj_on Fingerprint (ss_Metric ` set (concat [M, Mc]))" using assms(6) mc by (simp add: image_Un)
  obtain out where out: "QueryRange ?qs ord ?ctx from to ms ((d, w), st) = Ret (Inr (out, ((d', w'), st')))"
    "merged (as_group (M @ Mc)) out"
    using QueryRange_merged [OF ans inj assms(7)] by auto
  have "mset (ss_Values ss) = matrix_samples M (ss_Metric ss) + chunk_samples decodeChunk chunks (ss_Metric ss)"
    if "ss \<in> set out" for ss
  proof -
    have "mset (ss_Values ss) = matrix_samples (M @ Mc) (ss_Metric ss)"
      using out(2) that by (simp add: merged_def matrix_samples_group)
    also have "\<dots> = matrix_samples M (ss_Metric ss) + matrix_samples Mc (ss_Metric ss)" by (simp add: matrix_samples_def)
    also have "matrix_samples Mc (ss_Metric ss) = chunk_samples decodeChunk chunks (ss_Metric ss)"
      unfolding matrix_samples_group merged_values [OF Mc(2)] by (simp add: chunk_samples_def filter_map o_def)
    finally show ?thesis .
  qed
  moreover have "ss_Metric ` set out = ss_Metric ` set M \<union> Metric ` set chunks"
    using out(2) mc by (simp add: merged_def as_group_def image_image image_Un)
  ultimately show ?thesis
    using out by (auto simp: newQuerier_for_def MergeQuerier_def merged_def)
qed

text \<open>
  C7: The query pipeline. A range query of a user for a metric name, run by the queriers that the
  distributor sets up, asks the ingester that the ring gives for that user and name and the chunk
  store, and returns one series for every metric that either of them has. Each series is sorted
  by time and holds exactly the samples of the ingester and of the chunks for its metric
  together, provided no two of the metrics share a fingerprint.
\<close>

theorem pipeline_query:
  assumes "metricNameFromLabelMatchers ms = Inr name" "get (d_ring d) (tokenFor u name) = Inr ing"
    and "getClientFor (Hostname ing) d = (Inr client, d')"
    and "c_Query client (WithID Background u) from to ms w = Ret (Inr (M, w'))"
    and "store (WithID Background u) from to ms st = Ret (Inr (chunks, st'))"
    and "inj_on Fingerprint (ss_Metric ` set M \<union> Metric ` set chunks)" "fair ord"
  shows "\<exists>out. lq_QueryRange (newQuerier_for get getAll decodeChunk ord store (WithID Background u)) from to ms ((d, w), st) =
      Ret (Inr (out, ((d', w'), st'))) \<and>
    distinct (map ss_Metric out) \<and> ss_Metric ` set out = ss_Metric ` set M \<union> Metric ` set chunks \<and>
    (\<forall>ss\<in>set out. time_sorted ss \<and>
      mset (ss_Values ss) = matrix_samples M (ss_Metric ss) + chunk_samples decodeChunk chunks (ss_Metric ss))"
  using assms by (rule pipeline_merges)

definition demo_up_client :: "deliveries IngesterClient" where
  "demo_up_client = (log_client ''a:1'')\<lparr>c_Query := \<lambda>ctx from to ms w. Ret (Inr ([three_samples], w))\<rparr>"

definition demo_distributor :: "(Ring, deliveries) Distributor" where
  "demo_distributor = \<lparr>d_ring = two_ring, clientFactory = (\<lambda>h. Inr demo_up_client), clients = (\<lambda>h. Some demo_up_client)\<rparr>"

theorem pipeline_query_witness:
  "\<exists>out. lq_QueryRange (newQuerier_for ring_Get (ring_GetAll [''A'', ''B'']) byte_samples in_order
        (\<lambda>ctx from to ms st. Ret (Inr ([one_chunk], st))) (WithID Background ''u1'')) 0 9 [name_matcher ''up''] ((demo_distributor, \<lambda>h. []), ()) =
      Ret (Inr (out, ((demo_distributor, \<lambda>h. []), ()))) \<and>
    distinct (map ss_Metric out) \<and> ss_Metric ` set out = ss_Metric ` set [three_samples] \<union> Metric ` set [one_chunk] \<and>
    (\<forall>ss\<in>set out. time_sorted ss \<and>
      mset (ss_Values ss) = matrix_samples [three_samples] (ss_Metric ss) + chunk_samples byte_samples [one_chunk] (ss_Metric ss))"
proof -
  obtain x where x: "ring_Get (d_ring demo_distributor) (tokenFor ''u1'' ''up'') = Inr x"
    using two_ring_tokens by (simp add: ring_Get_def Let_def demo_distributor_def)
  have m: "ss_Metric three_samples = Metric one_chunk" by (simp add: three_samples_def one_chunk_def)
  show ?thesis
    by (rule pipeline_query [where name = "''up''" and ing = x and client = demo_up_client])
      (use x in \<open>simp_all add: m name_matcher_def getClientFor_def demo_distributor_def demo_up_client_def\<close>)
qed

section \<open>Starting and stopping\<close>


lemma config_error:
  "(case Parse s of Inl e \<Rightarrow> Inl e | Inr u \<Rightarrow> awsConfigFromURL u) = Inl e \<Longrightarrow>
   (case Parse s of Inl e \<Rightarrow> Inl e | Inr u \<Rightarrow> (case awsConfigFromURL u of Inl e \<Rightarrow> Inl e | Inr c \<Rightarrow> f u c)) = Inl e"
  by (cases "Parse s") auto

lemma setup_error:
  "\<exists>e. NewAWSStore Parse dynamodb_New s3_New
      \<lparr>sc_S3URL = s3URL cfg, sc_DynamoDBURL = dynamodbURL cfg, sc_ChunkCache = setup_cache memcache n cfg\<rparr> = Inl e \<Longrightarrow>
   \<exists>e. setupChunkStore Parse dynamodb_New s3_New memcache n cfg d = (Inl e, d)"
  by (auto simp: setupChunkStore_def)

text \<open>
  The chunk store is set up from URLs that carry credentials. A URL without them is refused,
  whatever the rest of the configuration; in particular the program cannot start with its default
  flags. A host with a dot becomes an endpoint, any other host a region.
\<close>

lemma store_needs_credentials:
  assumes "\<And>s u. CHR ''@'' \<notin> set s \<Longrightarrow> Parse s = Inr u \<Longrightarrow> u_User u = None"
    and "CHR ''@'' \<notin> set (s3URL cfg) \<or> CHR ''@'' \<notin> set (dynamodbURL cfg)"
  shows "(\<exists>e. setupChunkStore Parse dynamodb_New s3_New memcache n cfg d = (Inl e, d)) \<and>
    (\<exists>e. setupChunkStore Parse dynamodb_New s3_New memcache n default_cfg d = (Inl e, d)) \<and>
    awsConfigFromURL \<lparr>u_User = Some \<lparr>ui_Username = k, ui_Password = Some p\<rparr>, u_Host = h, u_Path = pa\<rparr> =
      Inr \<lparr>ac_Username = k, ac_Password = p, ac_Endpoint = (if CHR ''.'' \<in> set h then Some (''http://'' @ h) else None),
           ac_Region = (if CHR ''.'' \<in> set h then ''dummy'' else h)\<rparr>"
proof (intro conjI)
  have bad: "\<exists>e. (case Parse s of Inl e \<Rightarrow> Inl e | Inr u \<Rightarrow> awsConfigFromURL u) = Inl e" if "CHR ''@'' \<notin> set s" for s
    using assms(1) [OF that] by (cases "Parse s") (simp_all add: awsConfigFromURL_def)
  have new: "\<exists>e. NewAWSStore Parse dynamodb_New s3_New c = Inl e"
    if "CHR ''@'' \<notin> set (sc_S3URL c) \<or> CHR ''@'' \<notin> set (sc_DynamoDBURL c)" for c
  proof (cases "CHR ''@'' \<notin> set (sc_S3URL c)")
    case True
    from bad [OF True] obtain e where e: "(case Parse (sc_S3URL c) of Inl e \<Rightarrow> Inl e | Inr u \<Rightarrow> awsConfigFromURL u) = Inl e" ..
    show ?thesis unfolding NewAWSStore_def config_error [of Parse, OF e] by simp
  next
    case False
    then have "CHR ''@'' \<notin> set (sc_DynamoDBURL c)" using that by blast
    from bad [OF this] obtain e where e: "(case Parse (sc_DynamoDBURL c) of Inl e \<Rightarrow> Inl e | Inr u \<Rightarrow> awsConfigFromURL u) = Inl e" ..
    show ?thesis
      unfolding NewAWSStore_def config_error [of Parse, OF e] by (simp split: sum.split)
  qed
  show "\<exists>e. setupChunkStore Parse dynamodb_New s3_New memcache n cfg d = (Inl e, d)"
    by (rule setup_error, rule new) (use assms(2) in simp)
  show "\<exists>e. setupChunkStore Parse dynamodb_New s3_New memcache n default_cfg d = (Inl e, d)"
    by (rule setup_error, rule new) (simp add: default_cfg_def)
qed (simp add: awsConfigFromURL_def)

end
