(* ===== verification/Web_Ui.thy ===== *)
theory Web_Ui
  imports Query_Api "HOL-Library.Sublist"
begin

text \<open>
  The pages of the distributor (\<open>ui.go\<close>): the graph page, made of two embedded templates, and the
  static files. The embedded assets, the template engine and \<open>http.ServeContent\<close> are arguments.
\<close>

section \<open>Paths\<close>

text \<open>
  \<open>filepath.Join\<close> of a relative directory and a path: the elements of both without empty ones
  and dots, and with every \<open>..\<close> taking back the element before it.
\<close>

fun clean_elems :: "string list \<Rightarrow> string list \<Rightarrow> string list" where
  "clean_elems stack [] = rev stack"
| "clean_elems stack (e # es) =
     (if e = [] \<or> e = ''.'' then clean_elems stack es
      else if e = ''..'' then
        (case stack of
           [] \<Rightarrow> clean_elems [''..''] es
         | t # ts \<Rightarrow> if t = ''..'' then clean_elems (''..'' # stack) es else clean_elems ts es)
      else clean_elems (e # stack) es)"

fun join_slash :: "string list \<Rightarrow> string" where
  "join_slash [] = ''.''"
| "join_slash [e] = e"
| "join_slash (e # es) = e @ ''/'' @ join_slash es"

definition filepath_Join :: "string \<Rightarrow> string \<Rightarrow> string" where
  "filepath_Join dir path = join_slash (clean_elems [] (split_on CHR ''/'' dir @ split_on CHR ''/'' path))"

section \<open>Handlers\<close>

definition http_Error :: "string \<Rightarrow> int \<Rightarrow> Writer \<Rightarrow> Writer" where
  "http_Error m code w =
     Writer_Write (m @ [CHR 0x0A])
       (WriteHeader code (Header_Set ''X-Content-Type-Options'' ''nosniff'' (Header_Set ''Content-Type'' ''text/plain; charset=utf-8'' w)))"

definition getTemplate :: "(string \<Rightarrow> err + bytes) \<Rightarrow> string \<Rightarrow> err + string" where
  "getTemplate Asset name =
     (case Asset ''web/ui/templates/_frankenstein_base.html'' of
        Inl e \<Rightarrow> Inl (Err (''error reading base template: '' @ msg e))
      | Inr baseTmpl \<Rightarrow>
     (case Asset (filepath_Join ''web/ui/templates'' name) of
        Inl e \<Rightarrow> Inl (Err (''error reading page template '' @ name @ '': '' @ msg e))
      | Inr pageTmpl \<Rightarrow> Inr (baseTmpl @ pageTmpl)))"

text \<open>
  No error ends the handler: it goes on with an empty text after a missing asset, and after a
  parse error it calls a method of the nil template, which panics.
\<close>

definition GraphHandler ::
  "(string \<Rightarrow> err + bytes) \<Rightarrow> (string \<Rightarrow> err + 't) \<Rightarrow> ('t \<Rightarrow> bytes \<times> err option) \<Rightarrow> Writer \<Rightarrow> Writer go" where
  "GraphHandler Asset Parse Execute w =
     (let (text, w1) =
            (case getTemplate Asset ''graph.html'' of Inl e \<Rightarrow> ([], http_Error (msg e) 500 w) | Inr t \<Rightarrow> (t, w))
      in case Parse text of
           Inl e \<Rightarrow> Panic ''runtime error: invalid memory address or nil pointer dereference''
         | Inr tmpl \<Rightarrow>
             (case Execute tmpl of (result, err) \<Rightarrow>
                let w2 = (case err of None \<Rightarrow> w1 | Some e \<Rightarrow> http_Error (msg e) 500 w1)
                in Ret (Writer_Write result w2)))"

definition TrimPrefix_path :: "string \<Rightarrow> string \<Rightarrow> string" where
  "TrimPrefix_path s p = (if prefix p s then drop (length p) s else s)"

definition StaticAssetsHandler ::
  "(string \<Rightarrow> err + string) \<Rightarrow> (string \<Rightarrow> err + bytes) \<Rightarrow> (string \<Rightarrow> bytes \<Rightarrow> Writer \<Rightarrow> Writer) \<Rightarrow> string \<Rightarrow> string \<Rightarrow> Writer \<Rightarrow> Writer" where
  "StaticAssetsHandler AssetInfo Asset ServeContent stripPrefix path w =
     (let fp = filepath_Join ''web/ui/static'' (TrimPrefix_path path stripPrefix)
      in case AssetInfo fp of
           Inl e \<Rightarrow> WriteHeader 404 w
         | Inr name \<Rightarrow> (case Asset fp of Inl e \<Rightarrow> WriteHeader 404 w | Inr file \<Rightarrow> ServeContent name file w))"

section \<open>Static files stay below their directory\<close>

lemma clean_elems_plain:
  "''..'' \<notin> set es \<Longrightarrow> clean_elems stack es = rev stack @ filter (\<lambda>e. e \<noteq> [] \<and> e \<noteq> ''.'') es"
  by (induction es arbitrary: stack) auto

lemma join_slash_Cons: "es \<noteq> [] \<Longrightarrow> join_slash (e # es) = e @ ''/'' @ join_slash es"
  by (cases es) auto

text \<open>
  A request for a path without \<open>..\<close> is answered from the directory of static assets and from
  nowhere else: the asset it names is that directory, or lies below it.
\<close>

lemma static_below:
  assumes "''..'' \<notin> set (split_on CHR ''/'' path)"
  shows "filepath_Join ''web/ui/static'' path = ''web/ui/static'' \<or> prefix ''web/ui/static/'' (filepath_Join ''web/ui/static'' path)"
proof -
  let ?es = "filter (\<lambda>e. e \<noteq> [] \<and> e \<noteq> ''.'') (split_on CHR ''/'' path)"
  have "split_on CHR ''/'' ''web/ui/static'' = [''web'', ''ui'', ''static'']" by simp
  then have "filepath_Join ''web/ui/static'' path = join_slash (''web'' # ''ui'' # ''static'' # ?es)"
    using assms by (simp add: filepath_Join_def clean_elems_plain)
  then show ?thesis by (cases ?es) auto
qed

text \<open>
  The graph page does not stop at an error: if the base template is missing it has already
  answered 500 with a message, parses the empty text and appends whatever that produces; a text
  that does not parse makes it panic.
\<close>

theorem graph_continues_after_error:
  assumes "Asset ''web/ui/templates/_frankenstein_base.html'' = Inl e" "w_Code w = None" "w_Body w = []"
  shows "Parse [] = Inr t \<Longrightarrow> Execute t = (out, None) \<Longrightarrow>
      \<exists>w'. GraphHandler Asset Parse Execute w = Ret w' \<and> w_Code w' = Some 500 \<and>
        w_Body w' = ''error reading base template: '' @ msg e @ [CHR 0x0A] @ out"
    and "Parse [] = Inl e' \<Longrightarrow> \<exists>m. GraphHandler Asset Parse Execute w = Panic m"
  using assms by (simp_all add: GraphHandler_def getTemplate_def http_Error_def Writer_Write_def WriteHeader_def Header_Set_def)

end
