(* ===== verification/Inverted_Index.thy ===== *)
theory Inverted_Index
  imports Labels "HOL-Library.AList"
begin

text \<open>
  The index of the ingester (\<open>invertedIndex\<close> of the vendored
  \<open>storage/local/frankenstein.go\<close>): for every label name and value the sorted list of the
  fingerprints of the series that have it. A Go map is an association list with distinct keys; a
  \<open>range\<close> over it visits the entries in the order of a schedule. What the ingester relies on is the
  locale \<open>label_index\<close>.
\<close>

type_synonym fingerprint = "64 word"
type_synonym label_values = "(LabelValue \<times> fingerprint list) list"
type_synonym invertedIndex = "(LabelName \<times> label_values) list"

section \<open>Sorted lists of fingerprints\<close>

text \<open>
  \<open>intersect\<close>, whose first argument may be nil, and \<open>merge\<close>. After a common element only the
  second index moves on.
\<close>

fun intersect_loop :: "fingerprint list \<Rightarrow> fingerprint list \<Rightarrow> fingerprint list" where
  "intersect_loop (a # as) (b # bs) =
     (if a = b then a # intersect_loop (a # as) bs
      else if a < b then intersect_loop as (b # bs) else intersect_loop (a # as) bs)"
| "intersect_loop as bs = []"

definition fp_intersect :: "fingerprint list option \<Rightarrow> fingerprint list \<Rightarrow> fingerprint list" where
  "fp_intersect a b = (case a of None \<Rightarrow> b | Some as \<Rightarrow> intersect_loop as b)"

fun fp_merge :: "fingerprint list \<Rightarrow> fingerprint list \<Rightarrow> fingerprint list" where
  "fp_merge (a # as) (b # bs) = (if a < b then a # fp_merge as (b # bs) else b # fp_merge (a # as) bs)"
| "fp_merge [] bs = bs"
| "fp_merge as [] = as"

section \<open>The index\<close>

definition newInvertedIndex :: invertedIndex where
  "newInvertedIndex = []"

definition insert_fp :: "fingerprint \<Rightarrow> fingerprint list \<Rightarrow> fingerprint list" where
  "insert_fp fp fps = (let j = search (length fps) (\<lambda>i. fps ! i \<ge> fp) in take j fps @ fp # drop j fps)"

definition entry_or :: "'v list \<Rightarrow> ('k \<times> 'v list) list \<Rightarrow> 'k \<Rightarrow> 'v list" where
  "entry_or d m k = (case map_of m k of None \<Rightarrow> d | Some v \<Rightarrow> v)"

definition add_label :: "fingerprint \<Rightarrow> invertedIndex \<Rightarrow> LabelName \<times> LabelValue \<Rightarrow> invertedIndex" where
  "add_label fp idx = (\<lambda>(name, value).
     let values = entry_or [] idx name
     in AList.update name (AList.update value (insert_fp fp (entry_or [] values value)) values) idx)"

definition index_add :: "schedule \<Rightarrow> metric \<Rightarrow> fingerprint \<Rightarrow> invertedIndex \<Rightarrow> invertedIndex" where
  "index_add ord m fp idx = foldl (add_label fp) idx (permute ord m)"

text \<open>Removing: the element at the position of the search goes; past the end the slice panics.\<close>

definition remove_at :: "nat \<Rightarrow> 'a list \<Rightarrow> 'a list" where
  "remove_at j xs = take j xs @ drop (j + 1) xs"

definition delete_label :: "fingerprint \<Rightarrow> invertedIndex \<Rightarrow> LabelName \<times> LabelValue \<Rightarrow> invertedIndex go" where
  "delete_label fp idx = (\<lambda>(name, value).
     case map_of idx name of
       None \<Rightarrow> Ret idx
     | Some values \<Rightarrow>
         (case map_of values value of
            None \<Rightarrow> Ret idx
          | Some fps \<Rightarrow>
              let j = search (length fps) (\<lambda>i. fps ! i \<ge> fp)
              in if j = length fps then Panic ''slice bounds out of range''
                 else
                   let fps' = remove_at j fps;
                       values' = (if length fps' = 0 then AList.delete value values else AList.update value fps' values)
                   in Ret (if length values' = 0 then AList.delete name idx else AList.update name values' idx)))"

fun delete_labels :: "fingerprint \<Rightarrow> (LabelName \<times> LabelValue) list \<Rightarrow> invertedIndex \<Rightarrow> invertedIndex go" where
  "delete_labels fp [] idx = Ret idx"
| "delete_labels fp (l # ls) idx = bind_go (delete_label fp idx l) (delete_labels fp ls)"

definition index_delete :: "schedule \<Rightarrow> metric \<Rightarrow> fingerprint \<Rightarrow> invertedIndex \<Rightarrow> invertedIndex go" where
  "index_delete ord m fp idx = delete_labels fp (permute ord m) idx"

definition merge_matching :: "LabelMatcher \<Rightarrow> label_values \<Rightarrow> fingerprint list" where
  "merge_matching matcher ls = foldl (\<lambda>acc (value, fps). if Match matcher value then fp_merge acc fps else acc) [] ls"

definition to_intersect :: "schedule \<Rightarrow> LabelMatcher \<Rightarrow> label_values \<Rightarrow> fingerprint list" where
  "to_intersect ord matcher values = merge_matching matcher (permute ord values)"

fun lookup_loop :: "schedule \<Rightarrow> invertedIndex \<Rightarrow> LabelMatcher list \<Rightarrow> fingerprint list option \<Rightarrow> fingerprint list" where
  "lookup_loop ord idx [] intersection = (case intersection of None \<Rightarrow> [] | Some l \<Rightarrow> l)"
| "lookup_loop ord idx (matcher # ms) intersection =
     (case map_of idx (m_Name matcher) of
        None \<Rightarrow> []
      | Some values \<Rightarrow>
          let inter = fp_intersect intersection (to_intersect ord matcher values)
          in if length inter = 0 then [] else lookup_loop ord idx ms (Some inter))"

definition index_lookup :: "schedule \<Rightarrow> invertedIndex \<Rightarrow> LabelMatcher list \<Rightarrow> fingerprint list" where
  "index_lookup ord idx matchers = (if length matchers = 0 then [] else lookup_loop ord idx matchers None)"

definition lookupLabelValues :: "schedule \<Rightarrow> invertedIndex \<Rightarrow> LabelName \<Rightarrow> LabelValue list" where
  "lookupLabelValues ord idx name =
     (case map_of idx name of None \<Rightarrow> [] | Some values \<Rightarrow> map fst (permute ord values))"

section \<open>Lists of fingerprints as sets\<close>

lemma search_fp:
  fixes fps :: "fingerprint list"
  assumes "sorted_wrt (<) fps"
  shows "search (length fps) (\<lambda>i. fps ! i \<ge> fp) = length (filter (\<lambda>x. x < fp) fps)"
    and "filter (\<lambda>x. x < fp) fps @ filter (\<lambda>x. fp \<le> x) fps = fps"
proof -
  have "sorted (map (\<lambda>x. x) fps)" using assms by (simp add: strict_sorted_iff)
  from gosearch.search_ge [OF this, of fp] sorted_split_filter [OF this, of "\<lambda>x. x < fp"]
  show "search (length fps) (\<lambda>i. fps ! i \<ge> fp) = length (filter (\<lambda>x. x < fp) fps)"
    "filter (\<lambda>x. x < fp) fps @ filter (\<lambda>x. fp \<le> x) fps = fps"
    by (simp_all add: not_less)
qed

lemma insert_fp:
  assumes "sorted_wrt (<) fps" "fp \<notin> set fps"
  shows "sorted_wrt (<) (insert_fp fp fps) \<and> set (insert_fp fp fps) = insert fp (set fps)"
proof -
  let ?l = "filter (\<lambda>x. x < fp) fps" and ?r = "filter (\<lambda>x. fp \<le> x) fps"
  have "take (length ?l) (?l @ ?r) @ fp # drop (length ?l) (?l @ ?r) = ?l @ fp # ?r" by simp
  then have eq: "insert_fp fp fps = ?l @ fp # ?r"
    unfolding search_fp(2) [OF assms(1)] by (simp add: insert_fp_def search_fp(1) [OF assms(1)])
  have "\<forall>x\<in>set ?r. fp < x" using assms(2) by (auto simp: order.strict_iff_order)
  then show ?thesis using assms(1) unfolding eq
    by (auto simp: sorted_wrt_append sorted_wrt_filter intro: order.strict_trans)
qed

lemma remove_fp:
  fixes fps :: "fingerprint list"
  assumes "sorted_wrt (<) fps" "fp \<in> set fps"
  defines "j \<equiv> search (length fps) (\<lambda>i. fps ! i \<ge> fp)"
  shows "j < length fps" "sorted_wrt (<) (remove_at j fps)" "set (remove_at j fps) = set fps - {fp}"
proof -
  let ?l = "filter (\<lambda>x. x < fp) fps" and ?r = "filter (\<lambda>x. fp < x) fps"
  have s: "sorted (map (\<lambda>x. x) fps)" and d: "distinct fps" using assms(1) by (simp_all add: strict_sorted_iff)
  have "filter (\<lambda>x. fp \<le> x) fps = fp # ?r"
  proof (rule strict_sorted_equal)
    show "sorted_wrt (<) (fp # ?r)" "sorted_wrt (<) (filter (\<lambda>x. fp \<le> x) fps)"
      using assms(1) by (simp_all add: sorted_wrt_filter)
    show "set (filter (\<lambda>x. fp \<le> x) fps) = set (fp # ?r)" using assms(2) by auto
  qed
  with search_fp [OF assms(1), of fp] have f: "fps = ?l @ fp # ?r" and j: "j = length ?l" by (simp_all add: j_def)
  have "length ?l < length (?l @ fp # ?r)" by simp
  then show "j < length fps" unfolding j f [symmetric] .
  have "take (length ?l) (?l @ fp # ?r) @ drop (length ?l + 1) (?l @ fp # ?r) = ?l @ ?r" by simp
  then have r: "remove_at j fps = ?l @ ?r" unfolding f [symmetric] remove_at_def j .
  show "sorted_wrt (<) (remove_at j fps)" using assms(1) unfolding r
    by (auto simp: sorted_wrt_append sorted_wrt_filter)
  show "set (remove_at j fps) = set fps - {fp}" unfolding r by auto
qed

lemma fp_merge:
  assumes "sorted_wrt (<) as" "sorted_wrt (<) bs" "set as \<inter> set bs = {}"
  shows "sorted_wrt (<) (fp_merge as bs) \<and> set (fp_merge as bs) = set as \<union> set bs"
  using assms
proof (induction as bs rule: fp_merge.induct)
  case (1 a as b bs)
  then show ?case by (auto simp: not_less dest: order.strict_trans)
qed simp_all

lemma intersect_loop:
  assumes "sorted_wrt (<) as" "sorted_wrt (<) bs"
  shows "sorted_wrt (<) (intersect_loop as bs) \<and> set (intersect_loop as bs) = set as \<inter> set bs"
  using assms
proof (induction as bs rule: intersect_loop.induct)
  case (1 a as b bs)
  consider "a = b" | "a < b" | "b < a" by (meson linorder_neqE)
  then show ?case
  proof cases
    case 1
    with "1.IH"(1) "1.prems" show ?thesis by auto
  next
    case 2
    with "1.IH"(2) "1.prems" show ?thesis by auto
  next
    case 3
    with "1.IH"(3) "1.prems" show ?thesis by auto
  qed
qed simp_all

section \<open>The index represents a set of series\<close>

definition posting :: "invertedIndex \<Rightarrow> LabelName \<Rightarrow> LabelValue \<Rightarrow> fingerprint list" where
  "posting idx name value = entry_or [] (entry_or [] idx name) value"

definition wf_values :: "label_values \<Rightarrow> bool" where
  "wf_values vs \<longleftrightarrow> vs \<noteq> [] \<and> distinct (map fst vs) \<and> (\<forall>v. map_of vs v \<noteq> Some [])"

definition wf_index :: "invertedIndex \<Rightarrow> bool" where
  "wf_index idx \<longleftrightarrow> distinct (map fst idx) \<and> (\<forall>n. pred_option wf_values (map_of idx n))"

definition postings_of :: "(fingerprint \<rightharpoonup> metric) \<Rightarrow> LabelName \<Rightarrow> LabelValue \<Rightarrow> fingerprint set" where
  "postings_of series n v = {fp. \<exists>m. series fp = Some m \<and> map_of m n = Some v}"

definition index_of :: "invertedIndex \<Rightarrow> (fingerprint \<rightharpoonup> metric) \<Rightarrow> bool" where
  "index_of idx series \<longleftrightarrow> wf_index idx \<and>
     (\<forall>n v. sorted_wrt (<) (posting idx n v) \<and> set (posting idx n v) = postings_of series n v)"

text \<open>A series is selected if it has the label of every matcher, with a value that matches.\<close>

definition all_match :: "LabelMatcher list \<Rightarrow> metric \<Rightarrow> bool" where
  "all_match ms m \<longleftrightarrow> (\<forall>x\<in>set ms. \<exists>v. map_of m (m_Name x) = Some v \<and> Match x v)"

lemma index_of_empty: "index_of newInvertedIndex Map.empty"
  by (simp add: index_of_def wf_index_def posting_def entry_or_def newInvertedIndex_def postings_of_def)

subsection \<open>Adding\<close>

lemma posting_add_label:
  "posting (add_label fp idx (n, v)) n' v' =
     (if n' = n \<and> v' = v then insert_fp fp (posting idx n v) else posting idx n' v')"
  by (simp add: posting_def add_label_def entry_or_def update_conv' Let_def)

lemma wf_indexD:
  assumes "wf_index idx" "map_of idx n = Some vs"
  shows "distinct (map fst vs) \<and> (\<forall>v. map_of vs v \<noteq> Some [])"
  using assms spec [of "\<lambda>n. pred_option wf_values (map_of idx n)" n] by (simp add: wf_index_def wf_values_def)

lemma wf_add_label:
  assumes "wf_index idx"
  shows "wf_index (add_label fp idx l)"
proof -
  obtain n v where l: "l = (n, v)" by (cases l)
  define vs where "vs = entry_or [] idx n"
  define vs' where "vs' = AList.update v (insert_fp fp (entry_or [] vs v)) vs"
  have "distinct (map fst vs) \<and> (\<forall>w. map_of vs w \<noteq> Some [])"
    using assms wf_indexD [OF assms, of n] by (cases "map_of idx n") (simp_all add: vs_def entry_or_def)
  then have "wf_values vs'" by (simp add: wf_values_def vs'_def distinct_update update_conv' insert_fp_def Let_def)
  moreover have "add_label fp idx l = AList.update n vs' idx" by (simp add: add_label_def l vs_def vs'_def Let_def)
  ultimately show ?thesis using assms by (simp add: wf_index_def update_conv' distinct_update)
qed

lemma add_labels:
  assumes "distinct ls" "wf_index idx"
  shows "wf_index (foldl (add_label fp) idx ls) \<and>
    posting (foldl (add_label fp) idx ls) n v = (if (n, v) \<in> set ls then insert_fp fp (posting idx n v) else posting idx n v)"
  using assms
proof (induction ls arbitrary: idx)
  case (Cons l ls)
  obtain n' v' where "l = (n', v')" by (cases l)
  then show ?case using Cons.prems Cons.IH [of "add_label fp idx l"] by (auto simp: wf_add_label posting_add_label)
qed simp

lemma postings_of_upd:
  "series fp = None \<Longrightarrow> postings_of (series(fp \<mapsto> m)) n v =
     (if map_of m n = Some v then insert fp (postings_of series n v) else postings_of series n v)"
  "postings_of (series(fp := None)) n v = postings_of series n v - {fp}"
  by (auto simp: postings_of_def)

lemma index_of_add:
  assumes "fair ord" "index_of idx series" "distinct (map fst m)" "series fp = None"
  shows "index_of (index_add ord m fp idx) (series(fp \<mapsto> m))"
proof -
  have perm: "mset (permute ord m) = mset m" by (rule mset_permute [OF assms(1)])
  then have ls: "distinct (permute ord m)" "set (permute ord m) = set m"
    using assms(3) by (metis distinct_map mset_eq_imp_distinct_iff, metis mset_eq_setD)
  have post: "posting (index_add ord m fp idx) n v = (if map_of m n = Some v then insert_fp fp (posting idx n v) else posting idx n v)"
    for n v using add_labels [OF ls(1), of idx fp n v] assms(2,3) ls(2) by (simp add: index_add_def index_of_def)
  have "fp \<notin> set (posting idx n v)" for n v using assms(2,4) by (simp add: index_of_def postings_of_def)
  then have "sorted_wrt (<) (posting (index_add ord m fp idx) n v) \<and>
      set (posting (index_add ord m fp idx) n v) = postings_of (series(fp \<mapsto> m)) n v" for n v
    using assms(2,4) insert_fp [of "posting idx n v" fp] unfolding post by (simp add: index_of_def postings_of_upd)
  moreover have "wf_index (index_add ord m fp idx)"
    using add_labels [OF ls(1), of idx] assms(2) by (simp add: index_add_def index_of_def)
  ultimately show ?thesis by (simp add: index_of_def)
qed

subsection \<open>Deleting\<close>

definition without_fp :: "fingerprint \<Rightarrow> fingerprint list \<Rightarrow> fingerprint list" where
  "without_fp fp fps = remove_at (search (length fps) (\<lambda>i. fps ! i \<ge> fp)) fps"

lemma posting_entry:
  assumes "fp \<in> set (posting idx n v)"
  obtains vs where "map_of idx n = Some vs" "map_of vs v = Some (posting idx n v)"
proof (cases "map_of idx n")
  case (Some vs)
  then show ?thesis using assms that by (cases "map_of vs v") (simp_all add: posting_def entry_or_def)
qed (use assms in \<open>simp add: posting_def entry_or_def\<close>)

lemma delete_label_ok:
  assumes "wf_index idx" "sorted_wrt (<) (posting idx n v)" "fp \<in> set (posting idx n v)"
  shows "\<exists>idx'. delete_label fp idx (n, v) = Ret idx' \<and> wf_index idx' \<and>
    (\<forall>n' v'. posting idx' n' v' = (if n' = n \<and> v' = v then without_fp fp (posting idx n v) else posting idx n' v'))"
proof -
  let ?fps = "posting idx n v"
  let ?j = "search (length ?fps) (\<lambda>i. ?fps ! i \<ge> fp)"
  obtain vs where vs: "map_of idx n = Some vs" "map_of vs v = Some ?fps" using assms(3) by (rule posting_entry)
  note d = wf_indexD [OF assms(1) vs(1)]
  define vs' where "vs' = (if without_fp fp ?fps = [] then AList.delete v vs else AList.update v (without_fp fp ?fps) vs)"
  define idx' where "idx' = (if vs' = [] then AList.delete n idx else AList.update n vs' idx)"
  have "?j \<noteq> length ?fps" using remove_fp(1) [OF assms(2,3)] by simp
  then have del: "delete_label fp idx (n, v) = Ret idx'"
    using vs by (simp add: delete_label_def Let_def idx'_def vs'_def without_fp_def)
  have vs'_of: "map_of vs' = (if without_fp fp ?fps = [] then (map_of vs)(v := None) else (map_of vs)(v \<mapsto> without_fp fp ?fps))"
    by (simp add: vs'_def update_conv' delete_conv')
  have "vs' = [] \<or> wf_values vs'"
    using d by (simp add: wf_values_def vs'_of) (simp add: vs'_def distinct_update distinct_delete)
  then have "wf_index idx'" using assms(1)
    by (auto simp: wf_index_def idx'_def update_conv' delete_conv' distinct_update distinct_delete)
  moreover have "posting idx' n' v' = (if n' = n \<and> v' = v then without_fp fp ?fps else posting idx n' v')" for n' v'
  proof (cases "n' = n")
    case True
    have "entry_or [] idx' n = vs'" by (simp add: idx'_def entry_or_def update_conv' delete_conv')
    then show ?thesis using True vs(1) by (simp add: posting_def entry_or_def vs'_of)
  next
    case False
    then have "entry_or [] idx' n' = entry_or [] idx n'" by (simp add: idx'_def entry_or_def update_conv' delete_conv')
    then show ?thesis using False by (simp add: posting_def)
  qed
  ultimately show ?thesis using del by blast
qed

lemma delete_labels_ok:
  assumes "wf_index idx" "distinct ls" "\<And>n v. (n, v) \<in> set ls \<Longrightarrow> sorted_wrt (<) (posting idx n v) \<and> fp \<in> set (posting idx n v)"
  shows "\<exists>idx'. delete_labels fp ls idx = Ret idx' \<and> wf_index idx' \<and>
    (\<forall>n v. posting idx' n v = (if (n, v) \<in> set ls then without_fp fp (posting idx n v) else posting idx n v))"
  using assms
proof (induction ls arbitrary: idx)
  case (Cons l ls)
  obtain n v where l: "l = (n, v)" by (cases l)
  obtain i1 where i1: "delete_label fp idx l = Ret i1" "wf_index i1"
    "\<And>n' v'. posting i1 n' v' = (if n' = n \<and> v' = v then without_fp fp (posting idx n v) else posting idx n' v')"
    using delete_label_ok [of idx n v fp] Cons.prems l by auto
  have "\<And>n' v'. (n', v') \<in> set ls \<Longrightarrow> sorted_wrt (<) (posting i1 n' v') \<and> fp \<in> set (posting i1 n' v')"
    using Cons.prems(2,3) l i1(3) by auto
  then obtain i2 where "delete_labels fp ls i1 = Ret i2" "wf_index i2"
    "\<And>n v. posting i2 n v = (if (n, v) \<in> set ls then without_fp fp (posting i1 n v) else posting i1 n v)"
    using Cons.IH [of i1] i1(2) Cons.prems(2) by auto
  then show ?case using i1 l Cons.prems(2) by (intro exI [of _ i2]) auto
qed simp

lemma index_of_delete:
  assumes "fair ord" "index_of idx series" "distinct (map fst m)" "series fp = Some m"
  shows "\<exists>idx'. index_delete ord m fp idx = Ret idx' \<and> index_of idx' (series(fp := None))"
proof -
  have perm: "mset (permute ord m) = mset m" by (rule mset_permute [OF assms(1)])
  then have ls: "distinct (permute ord m)" "set (permute ord m) = set m"
    using assms(3) by (metis distinct_map mset_eq_imp_distinct_iff, metis mset_eq_setD)
  have srt: "sorted_wrt (<) (posting idx n v)" "set (posting idx n v) = postings_of series n v" for n v
    using assms(2) by (simp_all add: index_of_def)
  have mem: "fp \<in> set (posting idx n v) \<longleftrightarrow> (n, v) \<in> set m" for n v
    using assms(3,4) by (simp add: srt(2) postings_of_def)
  obtain idx' where idx': "index_delete ord m fp idx = Ret idx'" "wf_index idx'"
    "\<And>n v. posting idx' n v = (if (n, v) \<in> set m then without_fp fp (posting idx n v) else posting idx n v)"
    using delete_labels_ok [of idx "permute ord m" fp] assms(2) srt(1) mem ls unfolding index_delete_def index_of_def by auto
  have "sorted_wrt (<) (posting idx' n v) \<and> set (posting idx' n v) = postings_of (series(fp := None)) n v" for n v
  proof (cases "(n, v) \<in> set m")
    case True
    then show ?thesis using remove_fp(2,3) [OF srt(1), of fp n v] mem [of n v]
      by (simp add: idx'(3) without_fp_def postings_of_upd srt(2))
  next
    case False
    then show ?thesis using mem [of n v] srt [of n v] by (simp add: idx'(3) postings_of_upd)
  qed
  then show ?thesis using idx'(1,2) by (auto simp: index_of_def)
qed

subsection \<open>Looking up\<close>

lemma merge_values:
  assumes "distinct (map fst ls)" "\<And>v fps. (v, fps) \<in> set ls \<Longrightarrow> sorted_wrt (<) fps"
    and "\<And>v v' f f'. (v, f) \<in> set ls \<Longrightarrow> (v', f') \<in> set ls \<Longrightarrow> v \<noteq> v' \<Longrightarrow> set f \<inter> set f' = {}"
  shows "sorted_wrt (<) (merge_matching x ls) \<and> set (merge_matching x ls) = (\<Union>(v, fps)\<in>set ls. if Match x v then set fps else {})"
  using assms
proof (induction ls rule: rev_induct)
  case Nil
  show ?case by (simp add: merge_matching_def)
next
  case (snoc l ls)
  obtain v fps where l: "l = (v, fps)" by (cases l)
  have IH: "sorted_wrt (<) (merge_matching x ls) \<and> set (merge_matching x ls) = (\<Union>(v, fps)\<in>set ls. if Match x v then set fps else {})"
  proof (rule snoc.IH)
    fix v v' f f' assume "(v, f) \<in> set ls" "(v', f') \<in> set ls" "v \<noteq> v'"
    then show "set f \<inter> set f' = {}" by (intro snoc.prems(3) [of v f v' f']) simp_all
  next
    fix v f assume "(v, f) \<in> set ls"
    then show "sorted_wrt (<) f" by (intro snoc.prems(2) [of v f]) simp
  qed (use snoc.prems(1) in simp)
  have "set f \<inter> set fps = {}" if "(w, f) \<in> set ls" for w f
    using snoc.prems(1) that l by (intro snoc.prems(3) [of w f v fps]) force+
  then have "set (merge_matching x ls) \<inter> set fps = {}" using IH by (auto split: if_splits) blast
  moreover have "sorted_wrt (<) fps" using snoc.prems(2) [of v fps] l by simp
  moreover have "merge_matching x (ls @ [l]) = (if Match x v then fp_merge (merge_matching x ls) fps else merge_matching x ls)" by (simp add: merge_matching_def l)
  ultimately show ?case using IH fp_merge [of "merge_matching x ls" fps] l by auto
qed

lemma to_intersect_set:
  assumes "fair ord" "index_of idx series" "map_of idx (m_Name x) = Some values"
  shows "sorted_wrt (<) (to_intersect ord x values) \<and>
    set (to_intersect ord x values) = {fp. \<exists>m. series fp = Some m \<and> all_match [x] m}"
proof -
  let ?n = "m_Name x" and ?ls = "permute ord values"
  have d: "distinct (map fst values)" using assms(2,3) wf_indexD by (auto simp: index_of_def)
  have set: "set ?ls = set values" by (rule set_permute [OF assms(1)])
  have "distinct (map fst ?ls)" using d mset_permute [OF assms(1), of "values"] by (metis mset_eq_imp_distinct_iff mset_map)
  moreover have post: "fps = posting idx ?n v" if "(v, fps) \<in> set ?ls" for v fps
    using that d set assms(3) by (simp add: posting_def entry_or_def)
  then have "(v, fps) \<in> set ?ls \<Longrightarrow> sorted_wrt (<) fps \<and> set fps = postings_of series ?n v" for v fps
    using assms(2) unfolding index_of_def by metis
  moreover have "v \<noteq> v' \<Longrightarrow> postings_of series n v \<inter> postings_of series n v' = {}" for n v v'
    by (auto simp: postings_of_def)
  ultimately have out: "sorted_wrt (<) (to_intersect ord x values) \<and>
      set (to_intersect ord x values) = (\<Union>(v, fps)\<in>set ?ls. if Match x v then set fps else {})"
    unfolding to_intersect_def by (intro merge_values) blast+
  have "(\<exists>fps. (v, fps) \<in> set ?ls \<and> fp \<in> set fps) \<longleftrightarrow> fp \<in> postings_of series ?n v" for v fp
  proof
    assume "fp \<in> postings_of series ?n v"
    then have p: "fp \<in> set (posting idx ?n v)" using assms(2) by (simp add: index_of_def)
    then obtain vs where "map_of idx ?n = Some vs" "map_of vs v = Some (posting idx ?n v)" by (rule posting_entry)
    then have "(v, posting idx ?n v) \<in> set ?ls" using assms(3) set by (simp add: map_of_SomeD)
    with p show "\<exists>fps. (v, fps) \<in> set ?ls \<and> fp \<in> set fps" by blast
  next
    assume "\<exists>fps. (v, fps) \<in> set ?ls \<and> fp \<in> set fps"
    then have "fp \<in> set (posting idx ?n v)" using post by blast
    then show "fp \<in> postings_of series ?n v" using assms(2) by (simp add: index_of_def)
  qed
  then have "(\<Union>(v, fps)\<in>set ?ls. if Match x v then set fps else {}) = {fp. \<exists>m. series fp = Some m \<and> all_match [x] m}"
    by (fastforce simp: all_match_def postings_of_def split: if_splits)
  with out show ?thesis by simp
qed

lemma all_match_Cons: "all_match (x # ms) m \<longleftrightarrow> all_match [x] m \<and> all_match ms m"
  by (simp add: all_match_def)

lemma lookup_loop_set:
  assumes "fair ord" "index_of idx series"
    and "case intersection of None \<Rightarrow> ms \<noteq> [] \<and> S = UNIV | Some l \<Rightarrow> sorted_wrt (<) l \<and> set l = S"
  shows "sorted_wrt (<) (lookup_loop ord idx ms intersection) \<and>
    set (lookup_loop ord idx ms intersection) = S \<inter> {fp. ms = [] \<or> (\<exists>m. series fp = Some m \<and> all_match ms m)}"
  using assms(3)
proof (induction ms arbitrary: intersection S)
  case Nil
  then show ?case by (auto split: option.splits)
next
  case (Cons x ms)
  let ?X = "{fp. \<exists>m. series fp = Some m \<and> all_match [x] m}"
  show ?case
  proof (cases "map_of idx (m_Name x)")
    case None
    then have "postings_of series (m_Name x) v = {}" for v
      using assms(2) unfolding index_of_def posting_def by (metis empty_set entry_or_def option.simps(4) map_of.simps(1))
    then have "?X = {}" by (auto simp: all_match_def postings_of_def)
    then show ?thesis using None by (auto simp: all_match_Cons [of x ms])
  next
    case (Some vals)
    note t = to_intersect_set [OF assms(1,2) Some]
    define inter where "inter = fp_intersect intersection (to_intersect ord x vals)"
    have i: "sorted_wrt (<) inter \<and> set inter = S \<inter> ?X"
      using t intersect_loop [of "the intersection" "to_intersect ord x vals"] Cons.prems
      unfolding inter_def fp_intersect_def by (auto split: option.splits)
    have eq: "lookup_loop ord idx (x # ms) intersection = (if inter = [] then [] else lookup_loop ord idx ms (Some inter))"
      using Some by (simp add: inter_def)
    have sel: "S \<inter> {fp. x # ms = [] \<or> (\<exists>m. series fp = Some m \<and> all_match (x # ms) m)} =
        (S \<inter> ?X) \<inter> {fp. ms = [] \<or> (\<exists>m. series fp = Some m \<and> all_match ms m)}"
      by (auto simp: all_match_Cons [of x ms]) (simp add: all_match_def)
    show ?thesis
    proof (cases "inter = []")
      case True
      then show ?thesis using i unfolding sel eq by auto
    next
      case False
      then show ?thesis using Cons.IH [where intersection = "Some inter" and S = "S \<inter> ?X"] i unfolding sel eq by simp
    qed
  qed
qed

lemma index_lookup_set:
  assumes "fair ord" "index_of idx series" "ms \<noteq> []"
  shows "sorted_wrt (<) (index_lookup ord idx ms) \<and>
    set (index_lookup ord idx ms) = {fp. \<exists>m. series fp = Some m \<and> all_match ms m}"
  using lookup_loop_set [OF assms(1,2), where intersection = None and ms = ms and S = UNIV] assms(3) by (simp add: index_lookup_def)

lemma lookupLabelValues_set:
  assumes "fair ord" "index_of idx series"
  shows "distinct (lookupLabelValues ord idx n) \<and>
    set (lookupLabelValues ord idx n) = {v. \<exists>fp m. series fp = Some m \<and> map_of m n = Some v}"
proof -
  have in_values: "v \<in> set (lookupLabelValues ord idx n) \<longleftrightarrow> posting idx n v \<noteq> []" for v
  proof (cases "map_of idx n")
    case (Some vs)
    have "v \<in> set (lookupLabelValues ord idx n) \<longleftrightarrow> map_of vs v \<noteq> None"
      using Some by (simp add: lookupLabelValues_def set_permute [OF assms(1)] map_of_eq_None_iff)
    then show ?thesis using Some assms(2) wf_indexD [of idx n vs]
      by (cases "map_of vs v") (auto simp: posting_def entry_or_def index_of_def)
  qed (simp add: lookupLabelValues_def posting_def entry_or_def)
  moreover have "posting idx n v \<noteq> [] \<longleftrightarrow> postings_of series n v \<noteq> {}" for v
    using assms(2) by (metis index_of_def set_empty)
  moreover have "distinct (lookupLabelValues ord idx n)"
  proof (cases "map_of idx n")
    case (Some vs)
    then have "distinct (map fst vs)" using assms(2) wf_indexD by (auto simp: index_of_def)
    then have "distinct (map fst (permute ord vs))" using mset_permute [OF assms(1), of vs] by (metis mset_eq_imp_distinct_iff mset_map)
    then show ?thesis using Some by (simp add: lookupLabelValues_def)
  qed (simp add: lookupLabelValues_def)
  ultimately show ?thesis by (auto simp: postings_of_def)
qed

section \<open>The interface\<close>

text \<open>
  What the ingester needs of an index of series by label: that it represents a map from
  fingerprints to metrics, under adding and deleting, and that lookups select from that map.
\<close>

locale label_index =
  fixes empty :: 'i
    and add :: "schedule \<Rightarrow> metric \<Rightarrow> fingerprint \<Rightarrow> 'i \<Rightarrow> 'i"
    and del :: "schedule \<Rightarrow> metric \<Rightarrow> fingerprint \<Rightarrow> 'i \<Rightarrow> 'i go"
    and lookup :: "schedule \<Rightarrow> 'i \<Rightarrow> LabelMatcher list \<Rightarrow> fingerprint list"
    and label_vals :: "schedule \<Rightarrow> 'i \<Rightarrow> LabelName \<Rightarrow> LabelValue list"
    and reps :: "'i \<Rightarrow> (fingerprint \<rightharpoonup> metric) \<Rightarrow> bool"
  assumes reps_empty: "reps empty Map.empty"
    and reps_add: "fair ord \<Longrightarrow> reps i S \<Longrightarrow> distinct (map fst m) \<Longrightarrow> S fp = None \<Longrightarrow> reps (add ord m fp i) (S(fp \<mapsto> m))"
    and reps_del: "fair ord \<Longrightarrow> reps i S \<Longrightarrow> distinct (map fst m) \<Longrightarrow> S fp = Some m \<Longrightarrow>
      \<exists>i'. del ord m fp i = Ret i' \<and> reps i' (S(fp := None))"
    and lookup_set: "fair ord \<Longrightarrow> reps i S \<Longrightarrow> ms \<noteq> [] \<Longrightarrow>
      sorted_wrt (<) (lookup ord i ms) \<and> set (lookup ord i ms) = {fp. \<exists>m. S fp = Some m \<and> all_match ms m}"
    and lookup_none: "lookup ord i [] = []"
    and label_vals_set: "fair ord \<Longrightarrow> reps i S \<Longrightarrow>
      distinct (label_vals ord i n) \<and> set (label_vals ord i n) = {v. \<exists>fp m. S fp = Some m \<and> map_of m n = Some v}"
begin

text \<open>Lookups are a function of the represented map, whatever the history and the orders.\<close>

lemma lookup_determined:
  assumes "fair ord" "fair ord'" "reps i S" "reps j S"
  shows "lookup ord i ms = lookup ord' j ms"
proof (cases "ms = []")
  case False
  show ?thesis
    using lookup_set [OF assms(1,3) False] lookup_set [OF assms(2,4) False] by (intro strict_sorted_equal) simp_all
qed (simp add: lookup_none)

text \<open>Taking a series out again undoes adding it.\<close>

lemma add_del:
  assumes "fair ord" "fair ord'" "reps i S" "distinct (map fst m)" "S fp = None"
  shows "\<exists>i'. del ord' m fp (add ord m fp i) = Ret i' \<and> reps i' S \<and> (\<forall>ms. lookup ord i' ms = lookup ord i ms)"
proof -
  obtain i' where i': "del ord' m fp (add ord m fp i) = Ret i'" "reps i' ((S(fp \<mapsto> m))(fp := None))"
    using reps_del [OF assms(2) reps_add [OF assms(1,3-5)] assms(4), of fp] by auto
  moreover have "(S(fp \<mapsto> m))(fp := None) = S" using assms(5) by auto
  ultimately show ?thesis using lookup_determined [OF assms(1,1) _ assms(3), of i'] by auto
qed

end

interpretation fpindex: label_index newInvertedIndex index_add index_delete index_lookup lookupLabelValues index_of
proof unfold_locales
  show "index_lookup ord i [] = []" for ord i by (simp add: index_lookup_def)
qed (simp_all add: index_of_empty index_of_add index_of_delete index_lookup_set lookupLabelValues_set)

section \<open>The index and a scan of all series\<close>

datatype index_op = Add_series metric fingerprint | Del_series metric fingerprint

fun index_run :: "schedule \<Rightarrow> index_op list \<Rightarrow> invertedIndex \<Rightarrow> invertedIndex go" where
  "index_run ord [] idx = Ret idx"
| "index_run ord (Add_series m fp # ops) idx = index_run ord ops (index_add ord m fp idx)"
| "index_run ord (Del_series m fp # ops) idx = bind_go (index_delete ord m fp idx) (index_run ord ops)"

text \<open>The reference: the series themselves, all of which a lookup scans.\<close>

fun series_run :: "index_op list \<Rightarrow> (fingerprint \<times> metric) list \<Rightarrow> (fingerprint \<times> metric) list" where
  "series_run [] series = series"
| "series_run (Add_series m fp # ops) series = series_run ops (AList.update fp m series)"
| "series_run (Del_series m fp # ops) series = series_run ops (AList.delete fp series)"

definition scan_series :: "(fingerprint \<times> metric) list \<Rightarrow> LabelMatcher list \<Rightarrow> fingerprint list" where
  "scan_series series ms = sort (map fst (filter (\<lambda>(fp, m). all_match ms m) series))"

text \<open>A series is added under a free fingerprint, and removed with its metric.\<close>

fun legal_ops :: "index_op list \<Rightarrow> (fingerprint \<times> metric) list \<Rightarrow> bool" where
  "legal_ops [] series \<longleftrightarrow> True"
| "legal_ops (Add_series m fp # ops) series \<longleftrightarrow>
     distinct (map fst m) \<and> map_of series fp = None \<and> legal_ops ops (AList.update fp m series)"
| "legal_ops (Del_series m fp # ops) series \<longleftrightarrow>
     distinct (map fst m) \<and> map_of series fp = Some m \<and> legal_ops ops (AList.delete fp series)"

lemma index_run_ok:
  assumes "fair ord" "legal_ops ops series" "index_of idx (map_of series)" "distinct (map fst series)"
  shows "\<exists>idx'. index_run ord ops idx = Ret idx' \<and> index_of idx' (map_of (series_run ops series)) \<and> distinct (map fst (series_run ops series))"
  using assms(2-4)
proof (induction ops series arbitrary: idx rule: legal_ops.induct)
  case (2 m fp ops series)
  then have "index_of (index_add ord m fp idx) (map_of (AList.update fp m series))"
    using fpindex.reps_add [OF assms(1)] by (simp add: update_conv')
  then show ?case using 2 by (simp add: distinct_update)
next
  case (3 m fp ops series)
  then obtain idx' where idx': "index_delete ord m fp idx = Ret idx'" "index_of idx' ((map_of series)(fp := None))"
    using fpindex.reps_del [OF assms(1), of idx "map_of series" m fp] by auto
  then have "index_of idx' (map_of (AList.delete fp series))" by (simp only: delete_conv')
  from "3.IH" [OF _ this] idx'(1) 3(2,4) show ?case by (simp add: distinct_delete)
qed simp

text \<open>
  C11: The index gives the same series as a scan of all of them, in the order of their fingerprints:
  after any history of adding series and removing them again, for every list of matchers and
  whatever the orders in which the maps are visited.
\<close>

theorem index_equals_scan:
  assumes "fair ord" "fair ord'" "legal_ops ops []" "ms \<noteq> []"
  shows "\<exists>idx. index_run ord ops newInvertedIndex = Ret idx \<and> index_lookup ord' idx ms = scan_series (series_run ops []) ms"
proof -
  let ?S = "series_run ops []"
  obtain idx where idx: "index_run ord ops newInvertedIndex = Ret idx" "index_of idx (map_of ?S)" "distinct (map fst ?S)"
    using index_run_ok [OF assms(1,3)] index_of_empty by auto
  have "set (scan_series ?S ms) = {fp. \<exists>m. map_of ?S fp = Some m \<and> all_match ms m}"
    using idx(3) by (auto simp: scan_series_def image_iff)
  moreover have "sorted_wrt (<) (scan_series ?S ms)"
    using idx(3) by (auto simp: scan_series_def strict_sorted_iff distinct_map intro: inj_on_subset)
  ultimately have "index_lookup ord' idx ms = scan_series ?S ms"
    using fpindex.lookup_set [OF assms(2) idx(2) assms(4)] by (intro strict_sorted_equal) simp_all
  with idx(1) show ?thesis by blast
qed

theorem index_equals_scan_witness:
  "\<exists>idx. index_run in_order
       [Add_series [(''a'', ''x''), (''b'', ''y'')] 7, Add_series [(''a'', ''z'')] 3, Add_series [(''a'', ''x'')] 5, Del_series [(''a'', ''z'')] 3]
       newInvertedIndex = Ret idx \<and>
     index_lookup in_reverse idx [\<lparr>m_Type = NotEqual, m_Name = ''a'', m_Value = ''w'', m_re = (\<lambda>v. True)\<rparr>] = [5, 7]"
proof -
  let ?ops = "[Add_series [(''a'', ''x''), (''b'', ''y'')] 7, Add_series [(''a'', ''z'')] 3, Add_series [(''a'', ''x'')] 5, Del_series [(''a'', ''z'')] 3]"
  let ?ms = "[\<lparr>m_Type = NotEqual, m_Name = ''a'', m_Value = ''w'', m_re = (\<lambda>v. True)\<rparr>]"
  have "legal_ops ?ops []" "scan_series (series_run ?ops []) ?ms = [5, 7]"
    by (simp_all add: scan_series_def all_match_def Match_def)
  with index_equals_scan [OF fair_in_order fair_in_reverse, of ?ops ?ms] show ?thesis by simp
qed

end
