(* ===== verification/Fp_Mapper.thy ===== *)
theory Fp_Mapper
  imports Inverted_Index Time_Json
begin

text \<open>
  Fingerprints of series in memory (\<open>storage/local/mapper.go\<close>): the fast fingerprint of a metric,
  and the mapper that replaces it when two metrics collide. The ingester has no archive
  (\<open>noop_persistence.go\<close>), so the lookup in the archive finds nothing.
\<close>

section \<open>Fingerprints\<close>

definition labelSetToFastFingerprint :: "metric \<Rightarrow> fingerprint" where
  "labelSetToFastFingerprint ls =
     (if ls = [] then hashNew
      else foldl (\<lambda>result (labelName, labelValue).
             result XOR hashAdd (hashAddByte (hashAdd hashNew labelName) SeparatorByte) labelValue) 0 ls)"

text \<open>The order in which the map is visited does not matter, because the parts are sorted.\<close>

definition metricToUniqueString :: "metric \<Rightarrow> string" where
  "metricToUniqueString m =
     strings_Join [SeparatorByte] (sort_slice (\<lambda>s. s) (map (\<lambda>(ln, lv). ln @ [SeparatorByte] @ lv) m))"

section \<open>The mapper\<close>

definition maxMappedFP :: fingerprint where
  "maxMappedFP = push_bit 20 1"

record fpMapper =
  highestMappedFP :: fingerprint
  mappings :: "fingerprint \<rightharpoonup> string \<rightharpoonup> fingerprint"

definition newFPMapper :: fpMapper where
  "newFPMapper = \<lparr>highestMappedFP = 0, mappings = Map.empty\<rparr>"

definition nextMappedFP :: "fpMapper \<Rightarrow> (fingerprint \<times> fpMapper) go" where
  "nextMappedFP mp =
     (let mappedFP = highestMappedFP mp + 1
      in if mappedFP > maxMappedFP then Panic ''more than 1048576 fingerprints mapped in collision detection''
         else Ret (mappedFP, mp\<lparr>highestMappedFP := mappedFP\<rparr>))"

definition maybeAddMapping :: "fingerprint \<Rightarrow> metric \<Rightarrow> fpMapper \<Rightarrow> (fingerprint \<times> fpMapper) go" where
  "maybeAddMapping fp collidingMetric mp =
     (let ms = metricToUniqueString collidingMetric
      in case mappings mp fp of
           Some mappedFPs \<Rightarrow>
             (case mappedFPs ms of
                Some mappedFP \<Rightarrow> Ret (mappedFP, mp)
              | None \<Rightarrow> bind_go (nextMappedFP mp) (\<lambda>(mappedFP, mp').
                  Ret (mappedFP, mp'\<lparr>mappings := (mappings mp')(fp \<mapsto> mappedFPs(ms \<mapsto> mappedFP))\<rparr>)))
         | None \<Rightarrow> bind_go (nextMappedFP mp) (\<lambda>(mappedFP, mp').
             Ret (mappedFP, mp'\<lparr>mappings := (mappings mp')(fp \<mapsto> [ms \<mapsto> mappedFP])\<rparr>)))"

text \<open>\<open>series\<close> gives the metric of the series in memory under a fingerprint.\<close>

definition mapFP :: "(fingerprint \<rightharpoonup> metric) \<Rightarrow> fingerprint \<Rightarrow> metric \<Rightarrow> fpMapper \<Rightarrow> (fingerprint \<times> fpMapper) go" where
  "mapFP series fp m mp =
     (if fp \<le> maxMappedFP then maybeAddMapping fp m mp
      else
        (case series fp of
           Some m' \<Rightarrow> if m = m' then Ret (fp, mp) else maybeAddMapping fp m mp
         | None \<Rightarrow>
             (case mappings mp fp of
                Some mappedFPs \<Rightarrow>
                  (case mappedFPs (metricToUniqueString m) of Some mappedFP \<Rightarrow> Ret (mappedFP, mp) | None \<Rightarrow> Ret (fp, mp))
              | None \<Rightarrow> Ret (fp, mp))))"

section \<open>The string of a metric is unique\<close>

text \<open>Label names and values are UTF-8, so they do not contain the separator byte.\<close>

definition good_metric :: "metric \<Rightarrow> bool" where
  "good_metric m \<longleftrightarrow> wf_metric m \<and> (\<forall>(n, v)\<in>set m. SeparatorByte \<notin> set n \<and> SeparatorByte \<notin> set v)"

lemma split_on_prefix: "d \<notin> set s \<Longrightarrow> split_on d (s @ d # t) = s # split_on d t"
  by (induction s) auto

lemma split_on_Join:
  assumes "\<And>f. f \<in> set fs \<Longrightarrow> d \<notin> set f" "fs \<noteq> []"
  shows "split_on d (strings_Join [d] fs) = fs"
  using assms
proof (induction fs rule: induct_list012)
  case (3 s t ss)
  then show ?case by (simp add: split_on_prefix)
qed (simp_all add: split_on_none)

lemma Join_parts:
  "strings_Join [d] (map (\<lambda>(n, v). n @ [d] @ v) ps) = strings_Join [d] (concat (map (\<lambda>(n, v). [n, v]) ps))"
proof (induction ps rule: induct_list012)
  case (3 p q ps)
  then show ?case by (cases p; cases q) simp
qed auto

lemma pairs_inj: "concat (map (\<lambda>(n, v). [n, v]) ps) = concat (map (\<lambda>(n, v). [n, v]) qs) \<Longrightarrow> ps = qs"
proof (induction ps arbitrary: qs)
  case Nil
  then show ?case by (cases qs) auto
next
  case (Cons p ps)
  then show ?case by (cases p; cases qs) auto
qed

lemma metricToUniqueString_inj:
  assumes "good_metric m" "good_metric m'" "metricToUniqueString m = metricToUniqueString m'"
  shows "m = m'"
proof -
  let ?d = SeparatorByte and ?part = "\<lambda>(n :: string, v). n @ [SeparatorByte] @ v"
  define parts where "parts m = sort_slice (\<lambda>s. s) (map ?part m)" for m :: metric
  have ex: "\<exists>ps. parts x = map ?part ps \<and> mset ps = mset x" for x
  proof -
    let ?ps = "sort_slice ?part x"
    have "mset (parts x) = mset (map ?part x)" "sorted (parts x)"
      using gosort.sort_sorted [of "\<lambda>s. s" "map ?part x"] gosort.sort_perm [of "\<lambda>s. s" "map ?part x"] by (simp_all add: parts_def)
    then have "sort (map ?part x) = parts x" by (rule properties_for_sort)
    moreover have "sort (map ?part x) = map ?part ?ps"
      by (rule properties_for_sort) (simp_all add: gosort.sort_sorted mset_map gosort.sort_perm)
    ultimately have "parts x = map ?part ?ps" by simp
    then show ?thesis using gosort.sort_perm [of ?part x] by blast
  qed
  obtain ps qs where ps: "parts m = map ?part ps" "mset ps = mset m" and qs: "parts m' = map ?part qs" "mset qs = mset m'"
    using ex [of m] ex [of m'] by blast
  let ?fs = "\<lambda>ps. concat (map (\<lambda>(n, v). [n, v]) ps) :: string list"
  have eq: "strings_Join [?d] (?fs ps) = strings_Join [?d] (?fs qs)"
    using assms(3) unfolding metricToUniqueString_def parts_def [symmetric] ps(1) qs(1) Join_parts .
  have free: "\<And>f. f \<in> set (?fs ps) \<Longrightarrow> ?d \<notin> set f" "\<And>f. f \<in> set (?fs qs) \<Longrightarrow> ?d \<notin> set f"
    using assms(1,2) mset_eq_setD [OF ps(2)] mset_eq_setD [OF qs(2)] by (auto simp: good_metric_def split: prod.splits)
  have long: "split_on ?d (strings_Join [?d] (?fs zs)) = ?fs zs \<or> zs = []" if "\<And>f. f \<in> set (?fs zs) \<Longrightarrow> ?d \<notin> set f" for zs
    using split_on_Join [of "?fs zs" ?d] that by (cases zs) auto
  have nonempty: "strings_Join [?d] (?fs zs) \<noteq> []" if "zs \<noteq> []" for zs
    using that by (cases zs rule: list.exhaust) (auto split: prod.splits)
  have "?fs ps = ?fs qs"
    using long [of ps] long [of qs] free eq nonempty [of ps] nonempty [of qs] by (cases "ps = []"; cases "qs = []") auto
  then have "mset m = mset m'" using pairs_inj ps(2) qs(2) by metis
  then have "map_of m = map_of m'" using assms(1) by (intro map_of_mset_eq) (auto simp: good_metric_def wf_metric_distinct)
  then show ?thesis using assms(1,2) by (auto simp: good_metric_def intro: wf_metric_eqI)
qed

section \<open>Every metric has a fingerprint of its own\<close>

definition mapping :: "fpMapper \<Rightarrow> metric \<Rightarrow> fingerprint option" where
  "mapping mp m = (case mappings mp (labelSetToFastFingerprint m) of None \<Rightarrow> None | Some g \<Rightarrow> g (metricToUniqueString m))"

definition canonical_fp :: "fpMapper \<Rightarrow> metric \<Rightarrow> fingerprint" where
  "canonical_fp mp m = (case mapping mp m of None \<Rightarrow> labelSetToFastFingerprint m | Some f \<Rightarrow> f)"

definition wf_mapper :: "fpMapper \<Rightarrow> bool" where
  "wf_mapper mp \<longleftrightarrow> highestMappedFP mp \<le> maxMappedFP \<and>
     (\<forall>m f. good_metric m \<and> mapping mp m = Some f \<longrightarrow> f \<le> highestMappedFP mp) \<and>
     (\<forall>m m' f. good_metric m \<and> good_metric m' \<and> mapping mp m = Some f \<and> mapping mp m' = Some f \<longrightarrow> m = m')"

definition mapper_inv :: "fpMapper \<Rightarrow> (fingerprint \<rightharpoonup> metric) \<Rightarrow> bool" where
  "mapper_inv mp series \<longleftrightarrow> wf_mapper mp \<and>
     (\<forall>fp m. series fp = Some m \<longrightarrow> good_metric m \<and> fp = canonical_fp mp m \<and>
        (mapping mp m = None \<longrightarrow> maxMappedFP < labelSetToFastFingerprint m))"

lemma wf_mapperD:
  assumes "wf_mapper mp" "good_metric x" "mapping mp x = Some f"
  shows "f \<le> highestMappedFP mp" "good_metric y \<Longrightarrow> mapping mp y = Some f \<Longrightarrow> x = y"
  using assms unfolding wf_mapper_def by blast+

lemma mapper_invD:
  assumes "mapper_inv mp series" "series fp = Some x"
  shows "good_metric x" "fp = canonical_fp mp x" "mapping mp x = None \<Longrightarrow> maxMappedFP < labelSetToFastFingerprint x"
  using assms unfolding mapper_inv_def by blast+

lemma mapper_inv_new: "mapper_inv newFPMapper Map.empty"
  by (simp add: mapper_inv_def wf_mapper_def newFPMapper_def mapping_def)

lemma next_fp:
  assumes "wf_mapper mp"
  shows "highestMappedFP mp = maxMappedFP \<and> nextMappedFP mp = Panic ''more than 1048576 fingerprints mapped in collision detection'' \<or>
    highestMappedFP mp < highestMappedFP mp + 1 \<and> highestMappedFP mp + 1 \<le> maxMappedFP \<and>
    nextMappedFP mp = Ret (highestMappedFP mp + 1, mp\<lparr>highestMappedFP := highestMappedFP mp + 1\<rparr>)"
proof -
  have le: "highestMappedFP mp \<le> maxMappedFP" using assms by (simp add: wf_mapper_def)
  have max: "unat maxMappedFP = 1048576" by (simp add: maxMappedFP_def)
  then have "unat (highestMappedFP mp) \<le> 1048576" using le by (simp add: word_le_nat_alt)
  then have "unat (highestMappedFP mp + 1) = unat (highestMappedFP mp) + 1" by (simp add: unat_word_ariths)
  then show ?thesis using le max unfolding nextMappedFP_def Let_def by (auto simp: word_le_nat_alt word_less_nat_alt word_unat_eq_iff)
qed

text \<open>Adding a mapping: it is there already, or it gets the next number, or the space is used up.\<close>

lemma maybeAddMapping_new:
  assumes "wf_mapper mp" "good_metric m"
  defines "raw \<equiv> labelSetToFastFingerprint m"
  shows "mapping mp m \<noteq> None \<and> maybeAddMapping raw m mp = Ret (the (mapping mp m), mp) \<or>
    mapping mp m = None \<and> highestMappedFP mp = maxMappedFP \<and> (\<exists>s. maybeAddMapping raw m mp = Panic s) \<or>
    mapping mp m = None \<and> (\<exists>mp'. maybeAddMapping raw m mp = Ret (highestMappedFP mp + 1, mp') \<and>
      highestMappedFP mp' = highestMappedFP mp + 1 \<and> highestMappedFP mp < highestMappedFP mp' \<and> highestMappedFP mp' \<le> maxMappedFP \<and>
      (\<forall>x. good_metric x \<longrightarrow> mapping mp' x = (if x = m then Some (highestMappedFP mp + 1) else mapping mp x)))"
proof (cases "mapping mp m")
  case None
  let ?n = "highestMappedFP mp + 1"
  define old where "old = (case mappings mp raw of None \<Rightarrow> Map.empty | Some g \<Rightarrow> g)"
  define mp' where "mp' = mp\<lparr>highestMappedFP := ?n, mappings := (mappings mp)(raw \<mapsto> old(metricToUniqueString m \<mapsto> ?n))\<rparr>"
  have eq: "maybeAddMapping raw m mp = bind_go (nextMappedFP mp) (\<lambda>(f, mp').
      Ret (f, mp'\<lparr>mappings := (mappings mp')(raw \<mapsto> old(metricToUniqueString m \<mapsto> f))\<rparr>))"
    using None by (simp add: maybeAddMapping_def mapping_def raw_def old_def Let_def split: option.splits)
  have "mapping mp' x = (if x = m then Some ?n else mapping mp x)" if "good_metric x" for x
  proof (cases "labelSetToFastFingerprint x = raw \<and> metricToUniqueString x = metricToUniqueString m")
    case True
    then have "x = m" using metricToUniqueString_inj [OF that assms(2)] by simp
    then show ?thesis by (simp add: mapping_def mp'_def raw_def)
  next
    case False
    then show ?thesis by (auto simp: mapping_def mp'_def raw_def old_def split: option.splits)
  qed
  then show ?thesis using next_fp [OF assms(1)] None unfolding eq by (auto simp: mp'_def)
next
  case (Some f)
  then show ?thesis by (cases "mappings mp raw") (simp_all add: maybeAddMapping_def mapping_def raw_def Let_def)
qed

definition fp_for :: "(fingerprint \<rightharpoonup> metric) \<Rightarrow> metric \<Rightarrow> fpMapper \<Rightarrow> fingerprint \<Rightarrow> fpMapper \<Rightarrow> bool" where
  "fp_for series m mp fp mp' \<longleftrightarrow> mapper_inv mp' (series(fp \<mapsto> m)) \<and> (series fp = None \<or> series fp = Some m) \<and>
     (\<forall>fp'. series fp' = Some m \<longrightarrow> fp' = fp)"

text \<open>A fingerprint that is the canonical one of a metric is not taken by another metric.\<close>

lemma canonical_free:
  assumes inv: "mapper_inv mp series" and m: "good_metric m" "mapping mp m = None \<longrightarrow> maxMappedFP < labelSetToFastFingerprint m"
    and free: "mapping mp m = None \<longrightarrow> (\<forall>m'. series (labelSetToFastFingerprint m) = Some m' \<longrightarrow> m' = m)"
  shows "fp_for series m mp (canonical_fp mp m) mp"
proof -
  let ?fp = "canonical_fp mp m"
  have wf: "wf_mapper mp" and own: "\<And>fp x. series fp = Some x \<Longrightarrow> good_metric x \<and> fp = canonical_fp mp x \<and>
      (mapping mp x = None \<longrightarrow> maxMappedFP < labelSetToFastFingerprint x)"
    using inv by (auto simp: mapper_inv_def)
  have small: "good_metric x \<Longrightarrow> mapping mp x = Some f \<Longrightarrow> f \<le> maxMappedFP" for x f
    using wf unfolding wf_mapper_def by (meson order_trans)
  have same: "x = m" if "series ?fp = Some x" for x
  proof (cases "mapping mp m")
    case None
    then show ?thesis using free that by (simp add: canonical_fp_def)
  next
    case (Some f)
    then have f: "series f = Some x" "f \<le> maxMappedFP" using that small m(1) by (simp_all add: canonical_fp_def)
    then have "mapping mp x = Some f" using own [OF f(1)] by (cases "mapping mp x") (auto simp: canonical_fp_def)
    then show ?thesis using wf Some m(1) own [OF f(1)] unfolding wf_mapper_def by blast
  qed
  then have "series ?fp = None \<or> series ?fp = Some m" using same by (cases "series ?fp") simp_all
  moreover have "mapper_inv mp (series(?fp \<mapsto> m))" using inv m by (auto simp: mapper_inv_def)
  moreover have "\<forall>fp'. series fp' = Some m \<longrightarrow> fp' = ?fp" using own by blast
  ultimately show ?thesis by (simp add: fp_for_def)
qed

lemma maybeAddMapping_for:
  assumes inv: "mapper_inv mp series" and m: "good_metric m"
    and other: "mapping mp m = None \<longrightarrow> labelSetToFastFingerprint m \<le> maxMappedFP \<or>
      (\<exists>m'. series (labelSetToFastFingerprint m) = Some m' \<and> m' \<noteq> m)"
  shows "(\<exists>fp mp'. maybeAddMapping (labelSetToFastFingerprint m) m mp = Ret (fp, mp') \<and> fp_for series m mp fp mp') \<or>
    highestMappedFP mp = maxMappedFP \<and> (\<exists>s. maybeAddMapping (labelSetToFastFingerprint m) m mp = Panic s)"
proof -
  have wf: "wf_mapper mp" and own: "\<And>fp x. series fp = Some x \<Longrightarrow> good_metric x \<and> fp = canonical_fp mp x \<and>
      (mapping mp x = None \<longrightarrow> maxMappedFP < labelSetToFastFingerprint x)"
    using inv by (auto simp: mapper_inv_def)
  consider (there) f where "mapping mp m = Some f" "maybeAddMapping (labelSetToFastFingerprint m) m mp = Ret (f, mp)"
    | (full) "highestMappedFP mp = maxMappedFP" "\<exists>s. maybeAddMapping (labelSetToFastFingerprint m) m mp = Panic s"
    | (new) mp' where "mapping mp m = None" "maybeAddMapping (labelSetToFastFingerprint m) m mp = Ret (highestMappedFP mp', mp')"
      "highestMappedFP mp < highestMappedFP mp'" "highestMappedFP mp' \<le> maxMappedFP"
      "\<And>x. good_metric x \<Longrightarrow> mapping mp' x = (if x = m then Some (highestMappedFP mp') else mapping mp x)"
    using maybeAddMapping_new [OF wf m] by force
  then show ?thesis
  proof cases
    case there
    then have "fp_for series m mp f mp" using canonical_free [OF inv m] by (simp add: canonical_fp_def)
    with there show ?thesis by blast
  next
    case full
    then show ?thesis by blast
  next
    case new
    let ?f = "highestMappedFP mp'"
    have old: "good_metric x \<Longrightarrow> mapping mp x = Some f \<Longrightarrow> f < ?f" for x f
      using wf new(3) unfolding wf_mapper_def by (meson order_le_less_trans)
    have gone: "series fp \<noteq> Some m" for fp
      using own [of fp m] new(1) other by (auto simp: canonical_fp_def)
    have "wf_mapper mp'"
      unfolding wf_mapper_def
    proof (intro conjI allI impI)
      fix x f assume "good_metric x \<and> mapping mp' x = Some f"
      then show "f \<le> ?f" using new(5) [of x] old [of x f] by (auto simp: less_imp_le split: if_splits)
    next
      fix x y f assume "good_metric x \<and> good_metric y \<and> mapping mp' x = Some f \<and> mapping mp' y = Some f"
      then have xy: "good_metric x" "good_metric y" "mapping mp' x = Some f" "mapping mp' y = Some f" by simp_all
      show "x = y"
      proof (cases "x = m \<or> y = m")
        case True
        then have "f = ?f" using xy(3,4) new(5) [OF m] by auto
        have is_m: "z = m" if "good_metric z" "mapping mp' z = Some f" for z
          using new(5) [OF that(1)] that(2) old [OF that(1), of f] \<open>f = ?f\<close> by (cases "z = m") simp_all
        show ?thesis using is_m [OF xy(1,3)] is_m [OF xy(2,4)] by simp
      next
        case False
        then show ?thesis using xy new(5) [OF xy(1)] new(5) [OF xy(2)] wf_mapperD(2) [OF wf xy(1) _ xy(2)] by simp
      qed
    qed (rule new(4))
    moreover have can: "canonical_fp mp' x = canonical_fp mp x" if "series fp = Some x" for fp x
      using new(5) [of x] own [OF that] gone [of fp] that by (auto simp: canonical_fp_def)
    moreover have "mapping mp' x = mapping mp x" if "series fp = Some x" for fp x
      using new(5) [of x] own [OF that] gone [of fp] that by auto
    ultimately have inv': "mapper_inv mp' series" using own unfolding mapper_inv_def by metis
    have map_m: "mapping mp' m = Some ?f" using new(5) [OF m] by simp
    then have "fp_for series m mp' ?f mp'" using canonical_free [OF inv' m] by (simp add: canonical_fp_def)
    then show ?thesis using new(2) by (auto simp: fp_for_def)
  qed
qed

text \<open>
  \<open>mapFP\<close> gives a metric the fingerprint it already has in memory, or one that no series in memory
  has. It panics only when the space of mapped fingerprints is used up.
\<close>

lemma mapFP_unique:
  assumes inv: "mapper_inv mp series" and m: "good_metric m"
  shows "(\<exists>fp mp'. mapFP series (labelSetToFastFingerprint m) m mp = Ret (fp, mp') \<and> fp_for series m mp fp mp') \<or>
    highestMappedFP mp = maxMappedFP \<and> (\<exists>s. mapFP series (labelSetToFastFingerprint m) m mp = Panic s)"
proof -
  let ?raw = "labelSetToFastFingerprint m"
  consider (add) "?raw \<le> maxMappedFP \<or> (\<exists>m'. series ?raw = Some m' \<and> m' \<noteq> m)"
      "mapFP series ?raw m mp = maybeAddMapping ?raw m mp"
    | (keep) "maxMappedFP < ?raw" "series ?raw = Some m" "mapFP series ?raw m mp = Ret (?raw, mp)"
    | (free) "maxMappedFP < ?raw" "series ?raw = None" "mapFP series ?raw m mp = Ret (canonical_fp mp m, mp)"
  proof (cases "?raw \<le> maxMappedFP")
    case True
    then show ?thesis using add by (simp add: mapFP_def)
  next
    case False
    then have raw: "maxMappedFP < ?raw" by simp
    show ?thesis
    proof (cases "series ?raw")
      case None
      have "mapFP series ?raw m mp = Ret (canonical_fp mp m, mp)"
        using None raw by (cases "mappings mp ?raw") (simp_all add: mapFP_def canonical_fp_def mapping_def not_le [symmetric] split: option.split)
      then show ?thesis using free [OF raw None] by simp
    next
      case (Some m')
      then show ?thesis using add keep [OF raw] raw by (cases "m = m'") (simp_all add: mapFP_def not_le [symmetric])
    qed
  qed
  then show ?thesis
  proof cases
    case add
    then show ?thesis using maybeAddMapping_for [OF inv m] by auto
  next
    case keep
    then have "canonical_fp mp m = ?raw" using mapper_invD(2) [OF inv keep(2)] by simp
    then have "fp_for series m mp ?raw mp" using canonical_free [OF inv m] keep by simp
    with keep show ?thesis by blast
  next
    case free
    then have "fp_for series m mp (canonical_fp mp m) mp" using canonical_free [OF inv m] by simp
    with free show ?thesis by blast
  qed
qed

section \<open>Fingerprints identify metrics\<close>

text \<open>The fingerprints of a sequence of metrics, each of which has a series in memory from then on.\<close>

fun assign :: "metric list \<Rightarrow> (fingerprint \<rightharpoonup> metric) \<Rightarrow> fpMapper \<Rightarrow> fingerprint list go" where
  "assign [] series mp = Ret []"
| "assign (m # ms) series mp =
     bind_go (mapFP series (labelSetToFastFingerprint m) m mp) (\<lambda>(fp, mp').
       bind_go (assign ms (series(fp \<mapsto> m)) mp') (\<lambda>fps. Ret (fp # fps)))"

lemma mapFP_highest:
  assumes "mapFP series fp m mp = Ret (f, mp')"
  shows "unat (highestMappedFP mp') \<le> unat (highestMappedFP mp) + 1"
proof -
  have "unat (highestMappedFP mp + 1) \<le> unat (highestMappedFP mp) + 1"
    by (simp add: unat_word_ariths(1))
  with assms show ?thesis
    by (auto simp: mapFP_def maybeAddMapping_def nextMappedFP_def Let_def bind_go_def split: if_splits option.splits go.splits)
qed

lemma assign_ok:
  assumes "mapper_inv mp series" "\<forall>m\<in>set ms. good_metric m" "unat (highestMappedFP mp) + length ms \<le> unat maxMappedFP"
  shows "\<exists>fps series'. assign ms series mp = Ret fps \<and> length fps = length ms \<and> (\<forall>k<length ms. series' (fps ! k) = Some (ms ! k)) \<and>
    series \<subseteq>\<^sub>m series' \<and> (\<exists>mp'. mapper_inv mp' series')"
  using assms
proof (induction ms arbitrary: series mp)
  case (Cons m ms)
  have "highestMappedFP mp \<noteq> maxMappedFP" using Cons.prems(3) by auto
  then obtain fp mp' where fp: "mapFP series (labelSetToFastFingerprint m) m mp = Ret (fp, mp')" "fp_for series m mp fp mp'"
    using mapFP_unique [OF Cons.prems(1), of m] Cons.prems(2) by auto
  let ?S = "series(fp \<mapsto> m)"
  have inv: "mapper_inv mp' ?S" "series fp = None \<or> series fp = Some m" using fp(2) by (auto simp: fp_for_def)
  have "unat (highestMappedFP mp') + length ms \<le> unat maxMappedFP" using mapFP_highest [OF fp(1)] Cons.prems(3) by simp
  then obtain fps series' mp2 where IH: "assign ms ?S mp' = Ret fps" "length fps = length ms" "\<forall>k<length ms. series' (fps ! k) = Some (ms ! k)"
    "?S \<subseteq>\<^sub>m series'" "mapper_inv mp2 series'"
    using Cons.IH [OF inv(1)] Cons.prems(2) by (meson list.set_intros(2))
  have "?S fp = Some m" by simp
  then have "series' fp = Some m" using IH(4) by (metis domI map_le_def)
  then have "\<forall>k<length (m # ms). series' ((fp # fps) ! k) = Some ((m # ms) ! k)" using IH(3) by (auto simp: less_Suc_eq_0_disj)
  moreover have "series \<subseteq>\<^sub>m ?S" using inv(2) by (auto simp: map_le_def)
  then have "series \<subseteq>\<^sub>m series'" using IH(4) by (rule map_le_trans)
  ultimately show ?case using fp(1) IH(1,2,5) by (intro exI [of _ "fp # fps"] exI [of _ series']) auto
next
  case Nil
  then show ?case by (intro exI [of _ "[]"] exI [of _ series]) auto
qed

text \<open>
  C12: The fingerprints that the mapper gives to series identify their metrics, whatever the hashes
  of the metrics: of any sequence of at most \<open>2 ^ 20\<close> metrics, two have the same fingerprint if and
  only if they are the same metric, and no call panics.
\<close>

theorem fingerprints_identify:
  assumes "\<forall>m\<in>set ms. good_metric m" "length ms \<le> 1048576"
  shows "\<exists>fps. assign ms Map.empty newFPMapper = Ret fps \<and> length fps = length ms \<and>
    (\<forall>j<length ms. \<forall>k<length ms. fps ! j = fps ! k \<longleftrightarrow> ms ! j = ms ! k)"
proof -
  have "unat (highestMappedFP newFPMapper) + length ms \<le> unat maxMappedFP"
    using assms(2) by (simp add: newFPMapper_def maxMappedFP_def push_bit_eq_mult)
  then obtain fps series' mp where fps: "assign ms Map.empty newFPMapper = Ret fps" "length fps = length ms"
    "\<forall>k<length ms. series' (fps ! k) = Some (ms ! k)" "mapper_inv mp series'"
    using assign_ok [OF mapper_inv_new assms(1)] by blast
  have "fps ! j = fps ! k \<longleftrightarrow> ms ! j = ms ! k" if "j < length ms" "k < length ms" for j k
    using fps(3) that mapper_invD(2) [OF fps(4), of "fps ! j"] mapper_invD(2) [OF fps(4), of "fps ! k"] by (metis option.inject)
  then show ?thesis using fps(1,2) by blast
qed

theorem fingerprints_identify_witness:
  "\<exists>fps. assign [[(''a'', ''x'')], [(''b'', ''y'')], [(''a'', ''x'')]] Map.empty newFPMapper = Ret fps \<and> length fps = 3 \<and>
    fps ! 0 = fps ! 2 \<and> fps ! 0 \<noteq> fps ! 1"
proof -
  let ?ms = "[[(''a'', ''x'')], [(''b'', ''y'')], [(''a'', ''x'')]] :: metric list"
  have "\<forall>m\<in>set ?ms. good_metric m" by (simp add: good_metric_def wf_metric_def SeparatorByte_def char_of_def)
  from fingerprints_identify [OF this] show ?thesis by (auto simp: numeral_2_eq_2)
qed

end
