(* ===== verification/Memory_Series.thy ===== *)
theory Memory_Series
  imports Sample_Iterator
begin

text \<open>
  A series in the memory of the ingester: chunk descriptors (\<open>storage/local/chunk.go\<close>), adding a
  sample (\<open>series.go\<close>), and reading a range (\<open>samplesForRange\<close> of \<open>frankenstein.go\<close>). The encoding of
  samples in a chunk is an argument, the interface \<open>chunk\<close> of the source; the iterator over a
  chunk is the one of encodings with access by index, which the default encoding has. In the
  ingester no chunk is evicted, and nobody holds an iterator while a series is changed, so the
  reference counts and the cloning of head chunks have no effect.
\<close>

section \<open>Chunks\<close>

record 'c chunk_impl =
  newChunk :: 'c
  ch_add :: "SamplePair \<Rightarrow> 'c \<Rightarrow> err + 'c list"
  ch_firstTime :: "'c \<Rightarrow> Time"
  ch_samples :: "'c \<Rightarrow> SamplePair list"
  ch_err :: "'c \<Rightarrow> err option"
  ch_marshal :: "'c \<Rightarrow> err + bytes"

text \<open>
  The iterator has a position; the accessor reports an error, if the chunk has one, once a sample
  has been read.
\<close>

definition it_err :: "'c chunk_impl \<Rightarrow> 'c \<Rightarrow> err option" where
  "it_err I c = (if ch_samples I c = [] then None else ch_err I c)"

definition findAtOrAfter :: "'c chunk_impl \<Rightarrow> 'c \<Rightarrow> Time \<Rightarrow> nat option" where
  "findAtOrAfter I c t =
     (let n = length (ch_samples I c); i = search n (\<lambda>i. \<not> Before (sp_Timestamp (ch_samples I c ! i)) t)
      in if i = n \<or> it_err I c \<noteq> None then None else Some i)"

definition scan :: "'c chunk_impl \<Rightarrow> 'c \<Rightarrow> nat \<Rightarrow> nat option" where
  "scan I c pos = (if pos + 1 \<ge> length (ch_samples I c) then None else if it_err I c = None then Some (pos + 1) else None)"

function range_loop :: "'c chunk_impl \<Rightarrow> 'c \<Rightarrow> Time \<Rightarrow> nat \<Rightarrow> SamplePair list" where
  "range_loop I c newest pos =
     (let v = ch_samples I c ! pos
      in if After (sp_Timestamp v) newest then []
         else v # (case scan I c pos of None \<Rightarrow> [] | Some p \<Rightarrow> range_loop I c newest p))"
  by pat_completeness auto
termination
  by (relation "measure (\<lambda>(I, c, newest, pos). length (ch_samples I c) - pos)") (auto simp: scan_def split: if_splits)

declare range_loop.simps [simp del]

definition rangeValues :: "'c chunk_impl \<Rightarrow> 'c \<Rightarrow> Interval \<Rightarrow> err + SamplePair list" where
  "rangeValues I c iv =
     (let result = (case findAtOrAfter I c (OldestInclusive iv) of None \<Rightarrow> [] | Some i \<Rightarrow> range_loop I c (NewestInclusive iv) i)
      in case it_err I c of None \<Rightarrow> Inr result | Some e \<Rightarrow> Inl e)"

definition lastTimestamp :: "'c chunk_impl \<Rightarrow> 'c \<Rightarrow> err + Time" where
  "lastTimestamp I c = (case ch_err I c of None \<Rightarrow> Inr (sp_Timestamp (last (ch_samples I c))) | Some e \<Rightarrow> Inl e)"

section \<open>Chunk descriptors\<close>

record 'c chunkDesc =
  cd_c :: 'c
  chunkFirstTime :: Time
  chunkLastTime :: Time

definition newChunkDesc :: "'c \<Rightarrow> Time \<Rightarrow> 'c chunkDesc" where
  "newChunkDesc c firstTime = \<lparr>cd_c = c, chunkFirstTime = firstTime, chunkLastTime = Earliest\<rparr>"

definition cd_lastTime :: "'c chunk_impl \<Rightarrow> 'c chunkDesc \<Rightarrow> err + Time" where
  "cd_lastTime I cd = (if chunkLastTime cd \<noteq> Earliest then Inr (chunkLastTime cd) else lastTimestamp I (cd_c cd))"

definition maybePopulateLastTime :: "'c chunk_impl \<Rightarrow> 'c chunkDesc \<Rightarrow> 'c chunkDesc" where
  "maybePopulateLastTime I cd =
     (if chunkLastTime cd = Earliest
      then (case lastTimestamp I (cd_c cd) of Inl e \<Rightarrow> cd | Inr t \<Rightarrow> cd\<lparr>chunkLastTime := t\<rparr>) else cd)"

section \<open>Series\<close>

record 'c memorySeries =
  ms_metric :: metric
  chunkDescs :: "'c chunkDesc list"
  savedFirstTime :: Time
  ms_lastTime :: Time
  lastSampleValue :: SampleValue
  lastSampleValueSet :: bool
  headChunkClosed :: bool

text \<open>\<open>newMemorySeries\<close> without chunks, as the ingester calls it.\<close>

definition newMemorySeries :: "metric \<Rightarrow> 'c memorySeries" where
  "newMemorySeries m =
     \<lparr>ms_metric = m, chunkDescs = [], savedFirstTime = Earliest, ms_lastTime = Earliest, lastSampleValue = 0,
      lastSampleValueSet = False, headChunkClosed = False\<rparr>"

definition ms_firstTime :: "'c memorySeries \<Rightarrow> Time" where
  "ms_firstTime s = (if length (chunkDescs s) > 0 then chunkFirstTime (hd (chunkDescs s)) else savedFirstTime s)"

definition populate_closed :: "'c chunk_impl \<Rightarrow> nat \<Rightarrow> 'c chunkDesc list \<Rightarrow> 'c chunkDesc list" where
  "populate_closed I n cds =
     (let k = length cds - n in take k cds @ map (maybePopulateLastTime I) (butlast (drop k cds)) @ [last cds])"

definition new_head :: "'c chunk_impl \<Rightarrow> Time \<Rightarrow> 'c memorySeries \<Rightarrow> 'c memorySeries" where
  "new_head I t s =
     (if length (chunkDescs s) = 0 \<or> headChunkClosed s
      then s\<lparr>chunkDescs := chunkDescs s @ [newChunkDesc (newChunk I) t], headChunkClosed := False\<rparr> else s)"

definition series_add :: "'c chunk_impl \<Rightarrow> SamplePair \<Rightarrow> 'c memorySeries \<Rightarrow> (err option \<times> 'c memorySeries) go" where
  "series_add I v s =
     (let s1 = new_head I (sp_Timestamp v) s; head = last (chunkDescs s1)
      in case ch_add I v (cd_c head) of
           Inl e \<Rightarrow> Ret (Some e, s1)
         | Inr chunks \<Rightarrow>
             if chunks = [] then Panic ''index out of range''
             else
               let cds = butlast (chunkDescs s1) @ [head\<lparr>cd_c := hd chunks\<rparr>] @ map (\<lambda>c. newChunkDesc c (ch_firstTime I c)) (tl chunks)
               in Ret (None, s1\<lparr>chunkDescs := populate_closed I (length chunks) cds, ms_lastTime := sp_Timestamp v,
                                 lastSampleValue := sp_Value v, lastSampleValueSet := True\<rparr>))"

section \<open>Reading a range\<close>

fun range_chunks :: "'c chunk_impl \<Rightarrow> Interval \<Rightarrow> 'c chunkDesc list \<Rightarrow> SamplePair list \<Rightarrow> err + SamplePair list" where
  "range_chunks I iv [] values = Inr values"
| "range_chunks I iv (cd # cds) values =
     (case rangeValues I (cd_c cd) iv of Inl e \<Rightarrow> Inl e | Inr chValues \<Rightarrow> range_chunks I iv cds (values @ chValues))"

text \<open>The last chunk of a series without chunks is read out of bounds.\<close>

definition samplesForRange :: "'c chunk_impl \<Rightarrow> 'c memorySeries \<Rightarrow> Time \<Rightarrow> Time \<Rightarrow> (err + SamplePair list) go" where
  "samplesForRange I s from through =
     (let cds = chunkDescs s; n = length cds;
          fromIdx = search n (\<lambda>i. After (chunkFirstTime (cds ! i)) from);
          throughIdx = search n (\<lambda>i. After (chunkFirstTime (cds ! i)) through);
          lo = fromIdx - 1; hi = (if throughIdx = n then throughIdx - 1 else throughIdx);
          scanned = Ret (range_chunks I \<lparr>OldestInclusive = from, NewestInclusive = through\<rparr> (take (hi + 1 - lo) (drop lo cds)) [])
      in if fromIdx = n then
           (if n = 0 then Panic ''index out of range''
            else case cd_lastTime I (last cds) of
                   Inl e \<Rightarrow> Ret (Inl e)
                 | Inr lt \<Rightarrow> if Before lt from then Ret (Inr []) else scanned)
         else scanned)"

section \<open>What is relied on of an encoding\<close>

text \<open>
  Adding a sample to a new chunk, or to one that is in order, returns the new version of the chunk
  followed by overflow chunks; together they hold the samples of the chunk and the new one.
\<close>

definition sound_chunk :: "'c chunk_impl \<Rightarrow> 'c \<Rightarrow> bool" where
  "sound_chunk I c \<longleftrightarrow> ch_samples I c \<noteq> [] \<and> ch_err I c = None \<and> ch_firstTime I c = sp_Timestamp (hd (ch_samples I c))"

definition chunk_laws :: "'c chunk_impl \<Rightarrow> bool" where
  "chunk_laws I \<longleftrightarrow> ch_samples I (newChunk I) = [] \<and>
     (\<forall>v c. c = newChunk I \<or> sound_chunk I c \<longrightarrow>
        (\<exists>cs. ch_add I v c = Inr cs \<and> cs \<noteq> [] \<and> concat (map (ch_samples I) cs) = ch_samples I c @ [v] \<and>
              (\<forall>c'\<in>set cs. sound_chunk I c')))"

section \<open>Well-formed series\<close>

definition cd_samples :: "'c chunk_impl \<Rightarrow> 'c chunkDesc \<Rightarrow> SamplePair list" where
  "cd_samples I cd = ch_samples I (cd_c cd)"

definition memory_samples :: "'c chunk_impl \<Rightarrow> 'c memorySeries \<Rightarrow> SamplePair list" where
  "memory_samples I s = concat (map (cd_samples I) (chunkDescs s))"

definition in_time_order :: "SamplePair list \<Rightarrow> bool" where
  "in_time_order vs \<longleftrightarrow> sorted_wrt (<) (map sp_Timestamp vs)"

definition wf_desc_chunk :: "'c chunk_impl \<Rightarrow> bool \<Rightarrow> 'c chunkDesc \<Rightarrow> bool" where
  "wf_desc_chunk I closed cd \<longleftrightarrow> sound_chunk I (cd_c cd) \<and> chunkFirstTime cd = sp_Timestamp (hd (cd_samples I cd)) \<and>
     chunkLastTime cd = (if closed then sp_Timestamp (last (cd_samples I cd)) else Earliest)"

definition wf_series :: "'c chunk_impl \<Rightarrow> 'c memorySeries \<Rightarrow> bool" where
  "wf_series I s \<longleftrightarrow> chunkDescs s \<noteq> [] \<and> in_time_order (memory_samples I s) \<and>
     (\<forall>v\<in>set (memory_samples I s). Earliest < sp_Timestamp v) \<and>
     (\<forall>cd\<in>set (butlast (chunkDescs s)). wf_desc_chunk I True cd) \<and>
     wf_desc_chunk I (headChunkClosed s) (last (chunkDescs s)) \<and>
     ms_lastTime s = sp_Timestamp (last (memory_samples I s)) \<and> lastSampleValue s = sp_Value (last (memory_samples I s)) \<and>
     lastSampleValueSet s"

text \<open>A series is well formed, or new.\<close>

definition series_ok :: "'c chunk_impl \<Rightarrow> 'c memorySeries \<Rightarrow> bool" where
  "series_ok I s \<longleftrightarrow> wf_series I s \<or> s = newMemorySeries (ms_metric s)"

lemma in_range_filter:
  assumes "sorted (map sp_Timestamp vs)"
  shows "takeWhile (\<lambda>v. sp_Timestamp v \<le> b) (filter (\<lambda>v. a \<le> sp_Timestamp v) vs) = filter (\<lambda>v. a \<le> sp_Timestamp v \<and> sp_Timestamp v \<le> b) vs"
  using assms
proof (induction vs)
  case (Cons v vs)
  have "filter (\<lambda>v. a \<le> sp_Timestamp v \<and> sp_Timestamp v \<le> b) vs = []" if "b < sp_Timestamp v"
    using Cons.prems that by (auto simp: filter_empty_conv)
  with Cons show ?case by auto
qed simp

lemma range_loop_takeWhile:
  assumes "ch_err I c = None" "pos < length (ch_samples I c)"
  shows "range_loop I c newest pos = takeWhile (\<lambda>v. sp_Timestamp v \<le> newest) (drop pos (ch_samples I c))"
  using assms
proof (induction "length (ch_samples I c) - pos" arbitrary: pos)
  case (Suc n)
  have d: "drop pos (ch_samples I c) = ch_samples I c ! pos # drop (pos + 1) (ch_samples I c)"
    using Suc.prems(2) by (simp add: Cons_nth_drop_Suc)
  have e: "it_err I c = None" using Suc.prems(1) by (simp add: it_err_def)
  show ?case
  proof (cases "pos + 1 < length (ch_samples I c)")
    case True
    then have "range_loop I c newest (pos + 1) = takeWhile (\<lambda>v. sp_Timestamp v \<le> newest) (drop (pos + 1) (ch_samples I c))"
      using Suc.hyps Suc.prems(1) by simp
    then show ?thesis using True e by (simp add: range_loop.simps [of I c newest pos] d scan_def After_def not_less)
  next
    case False
    then show ?thesis using e by (simp add: range_loop.simps [of I c newest pos] d scan_def After_def not_less)
  qed
qed simp

lemma rangeValues_filter:
  assumes "ch_err I c = None" "sorted (map sp_Timestamp (ch_samples I c))"
  shows "rangeValues I c \<lparr>OldestInclusive = a, NewestInclusive = b\<rparr> =
    Inr (filter (\<lambda>v. a \<le> sp_Timestamp v \<and> sp_Timestamp v \<le> b) (ch_samples I c))"
proof -
  let ?vs = "ch_samples I c"
  let ?i = "length (filter (\<lambda>v. sp_Timestamp v < a) ?vs)"
  have i: "search (length ?vs) (\<lambda>i. \<not> Before (sp_Timestamp (?vs ! i)) a) = ?i" by (rule search_not_before [OF assms(2)])
  have e: "it_err I c = None" using assms(1) by (simp add: it_err_def)
  have d: "drop ?i ?vs = filter (\<lambda>v. a \<le> sp_Timestamp v) ?vs"
    using sorted_take_filter(2) [OF assms(2), of "\<lambda>t. t < a"] by (simp add: not_less)
  show ?thesis
  proof (cases "?i = length ?vs")
    case True
    then have "filter (\<lambda>v. a \<le> sp_Timestamp v) ?vs = []" using d by simp
    then have "filter (\<lambda>v. a \<le> sp_Timestamp v \<and> sp_Timestamp v \<le> b) ?vs = []" by (auto simp: filter_empty_conv)
    then show ?thesis using True e i by (simp add: rangeValues_def findAtOrAfter_def Let_def)
  next
    case False
    then have "?i < length ?vs" by (metis length_filter_le nat_less_le)
    then have "range_loop I c b ?i = filter (\<lambda>v. a \<le> sp_Timestamp v \<and> sp_Timestamp v \<le> b) ?vs"
      using range_loop_takeWhile [OF assms(1)] d in_range_filter [OF assms(2)] by simp
    then show ?thesis using False e i by (simp add: rangeValues_def findAtOrAfter_def Let_def)
  qed
qed

section \<open>Ranges are read completely\<close>

lemma concat_order:
  assumes "in_time_order (concat (map f cds))" "k < j" "j < length cds" "x \<in> set (f (cds ! k))" "y \<in> set (f (cds ! j))"
  shows "sp_Timestamp x < sp_Timestamp y"
proof -
  have cds: "cds = take j cds @ drop j cds" by simp
  have "concat (map f cds) = concat (map f (take j cds)) @ concat (map f (drop j cds))"
    by (subst cds) (simp only: map_append concat_append)
  then have "sorted_wrt (<) (map sp_Timestamp (concat (map f (take j cds))) @ map sp_Timestamp (concat (map f (drop j cds))))"
    using assms(1) by (simp add: in_time_order_def)
  moreover have "cds ! k \<in> set (take j cds)" using assms(2,3) by (auto simp: in_set_conv_nth intro!: exI [of _ k])
  moreover have "cds ! j \<in> set (drop j cds)" using assms(3) by (metis Cons_nth_drop_Suc list.set_intros(1))
  ultimately show ?thesis using assms(4,5) by (fastforce simp: sorted_wrt_append)
qed

lemma concat_sub:
  assumes "\<And>i. i < length cds \<Longrightarrow> i < lo \<or> hi < i \<Longrightarrow> g (cds ! i) = []"
  shows "concat (map g (take (hi + 1 - lo) (drop lo cds))) = concat (map g cds)"
proof -
  have out: "concat (map g (take lo cds)) = []" "concat (map g (drop (hi + 1) cds)) = []"
    using assms by (auto simp: in_set_conv_nth)
  show ?thesis
  proof (cases "lo \<le> hi + 1")
    case True
    then have "cds = take lo cds @ take (hi + 1 - lo) (drop lo cds) @ drop (hi + 1) cds"
      by (metis append_take_drop_id drop_drop le_add_diff_inverse2)
    then have "concat (map g cds) = concat (map g (take lo cds)) @ concat (map g (take (hi + 1 - lo) (drop lo cds))) @
        concat (map g (drop (hi + 1) cds))"
      by (metis concat_append map_append)
    then show ?thesis using out by simp
  next
    case False
    then have "\<forall>cd\<in>set cds. g cd = []" using assms by (metis in_set_conv_nth less_add_one not_le order_less_trans linorder_less_linear)
    then have "concat (map g cds) = []" by simp
    then show ?thesis using False by simp
  qed
qed

definition in_range :: "Time \<Rightarrow> Time \<Rightarrow> SamplePair list \<Rightarrow> SamplePair list" where
  "in_range a b vs = filter (\<lambda>v. a \<le> sp_Timestamp v \<and> sp_Timestamp v \<le> b) vs"

lemma range_chunks_filter:
  assumes "\<And>cd. cd \<in> set cds \<Longrightarrow> ch_err I (cd_c cd) = None \<and> sorted (map sp_Timestamp (cd_samples I cd))"
  shows "range_chunks I \<lparr>OldestInclusive = a, NewestInclusive = b\<rparr> cds acc = Inr (acc @ concat (map (\<lambda>cd. in_range a b (cd_samples I cd)) cds))"
  using assms
proof (induction cds arbitrary: acc)
  case (Cons cd cds)
  then have "rangeValues I (cd_c cd) \<lparr>OldestInclusive = a, NewestInclusive = b\<rparr> = Inr (in_range a b (cd_samples I cd))"
    by (simp add: rangeValues_filter cd_samples_def in_range_def)
  with Cons show ?case by simp
qed simp

lemma wf_series_chunk:
  assumes "wf_series I s" "cd \<in> set (chunkDescs s)"
  shows "sound_chunk I (cd_c cd)" "chunkFirstTime cd = sp_Timestamp (hd (cd_samples I cd))" "cd_samples I cd \<noteq> []"
    "in_time_order (cd_samples I cd)"
proof -
  have "\<exists>b. wf_desc_chunk I b cd"
    using assms append_butlast_last_id [of "chunkDescs s"] unfolding wf_series_def by (metis Un_iff empty_iff empty_set insert_iff list.simps(15) set_append)
  then show c: "sound_chunk I (cd_c cd)" "chunkFirstTime cd = sp_Timestamp (hd (cd_samples I cd))" "cd_samples I cd \<noteq> []"
    by (auto simp: wf_desc_chunk_def sound_chunk_def cd_samples_def)
  obtain xs ys where "chunkDescs s = xs @ cd # ys" using assms(2) by (meson split_list)
  then show "in_time_order (cd_samples I cd)"
    using assms(1) by (simp add: wf_series_def memory_samples_def in_time_order_def sorted_wrt_append)
qed

lemma in_time_order_sorted: "in_time_order vs \<Longrightarrow> sorted (map sp_Timestamp vs)"
  by (simp add: in_time_order_def strict_sorted_imp_sorted)

lemma in_time_order_last: "in_time_order vs \<Longrightarrow> v \<in> set vs \<Longrightarrow> sp_Timestamp v \<le> sp_Timestamp (last vs)"
  by (cases vs rule: rev_cases) (auto simp: in_time_order_def sorted_wrt_append)

lemma wf_series_last:
  assumes "wf_series I s"
  shows "cd_lastTime I (last (chunkDescs s)) = Inr (ms_lastTime s)"
proof -
  let ?cd = "last (chunkDescs s)"
  have cd: "?cd \<in> set (chunkDescs s)" using assms by (simp add: wf_series_def)
  have "memory_samples I s = concat (map (cd_samples I) (butlast (chunkDescs s))) @ cd_samples I ?cd"
    using assms by (cases "chunkDescs s" rule: rev_cases) (simp_all add: memory_samples_def wf_series_def)
  then have "ms_lastTime s = sp_Timestamp (last (cd_samples I ?cd))"
    using assms wf_series_chunk(3) [OF assms cd] by (simp add: wf_series_def)
  then show ?thesis using assms wf_series_chunk(1) [OF assms cd]
    by (auto simp: cd_lastTime_def lastTimestamp_def wf_series_def wf_desc_chunk_def sound_chunk_def cd_samples_def)
qed

lemma wf_series_order:
  assumes "wf_series I s" "i \<le> j" "j < length (chunkDescs s)"
  shows "chunkFirstTime (chunkDescs s ! i) \<le> chunkFirstTime (chunkDescs s ! j)"
    and "i < j \<Longrightarrow> v \<in> set (cd_samples I (chunkDescs s ! i)) \<Longrightarrow> sp_Timestamp v < chunkFirstTime (chunkDescs s ! j)"
    and "v \<in> set (cd_samples I (chunkDescs s ! i)) \<Longrightarrow> chunkFirstTime (chunkDescs s ! i) \<le> sp_Timestamp v"
proof -
  have ord: "in_time_order (concat (map (cd_samples I) (chunkDescs s)))" using assms(1) by (simp add: wf_series_def memory_samples_def)
  have mem: "chunkDescs s ! k \<in> set (chunkDescs s)" if "k \<le> j" for k using that assms(3) by simp
  note c = wf_series_chunk(2,3,4) [OF assms(1) mem]
  have hd: "hd (cd_samples I (chunkDescs s ! k)) \<in> set (cd_samples I (chunkDescs s ! k))" if "k \<le> j" for k using c(2) [OF that] by simp
  show lt: "sp_Timestamp v < chunkFirstTime (chunkDescs s ! j)" if "i < j" "v \<in> set (cd_samples I (chunkDescs s ! i))" for v
    using concat_order [OF ord that(1) assms(3) that(2) hd [OF order_refl]] c(1) [OF order_refl] by simp
  show "chunkFirstTime (chunkDescs s ! i) \<le> chunkFirstTime (chunkDescs s ! j)"
    using lt [OF _ hd [OF assms(2)]] c(1) [OF assms(2)] assms(2) by (cases "i = j") simp_all
  show "chunkFirstTime (chunkDescs s ! i) \<le> sp_Timestamp v" if "v \<in> set (cd_samples I (chunkDescs s ! i))"
    using c(3) [OF assms(2)] that c(1) [OF assms(2)] by (cases "cd_samples I (chunkDescs s ! i)") (auto simp: in_time_order_def)
qed

lemma samplesForRange_exact:
  assumes "wf_series I s"
  shows "samplesForRange I s a b = Ret (Inr (in_range a b (memory_samples I s)))"
proof -
  let ?cds = "chunkDescs s"
  let ?n = "length ?cds" and ?idx = "\<lambda>t. search (length ?cds) (\<lambda>i. After (chunkFirstTime (?cds ! i)) t)"
  let ?lo = "?idx a - 1" and ?hi = "if ?idx b = length ?cds then ?idx b - 1 else ?idx b"
  have n: "?n \<noteq> 0" using assms by (simp add: wf_series_def)
  have up: "upclosed ?n (\<lambda>i. After (chunkFirstTime (?cds ! i)) t)" for t
    unfolding upclosed_def using wf_series_order(1) [OF assms] by (auto simp: After_def intro: order_less_le_trans)
  have below: "i < ?idx t \<Longrightarrow> chunkFirstTime (?cds ! i) \<le> t" for i t
    using gosearch.search_below [OF up] by (simp add: After_def not_less)
  have above: "?idx t \<le> i \<Longrightarrow> i < ?n \<Longrightarrow> t < chunkFirstTime (?cds ! i)" for i t
    using gosearch.search_from [OF up] by (simp add: After_def)
  have le: "?idx t \<le> ?n" for t by (rule gosearch.search_le)
  have out: "in_range a b (cd_samples I (?cds ! i)) = []" if "i < ?n" "i < ?lo \<or> ?hi < i" for i
    using that(2)
  proof
    assume i: "i < ?lo"
    then have "i + 1 < ?idx a" "i + 1 < ?n" using le [of a] by simp_all
    then have "\<forall>v\<in>set (cd_samples I (?cds ! i)). sp_Timestamp v < a"
      using wf_series_order(2) [OF assms, of i "i + 1"] below [of "i + 1" a] by fastforce
    then show ?thesis by (auto simp: in_range_def filter_empty_conv)
  next
    assume "?hi < i"
    then have "?idx b \<le> i" using that(1) le [of b] by (auto split: if_splits)
    then have "\<forall>v\<in>set (cd_samples I (?cds ! i)). b < sp_Timestamp v"
      using wf_series_order(3) [OF assms order_refl that(1)] above [OF _ that(1), of b] by (meson order_less_le_trans)
    then show ?thesis by (auto simp: in_range_def filter_empty_conv)
  qed
  have good: "cd \<in> set ?cds \<Longrightarrow> ch_err I (cd_c cd) = None \<and> sorted (map sp_Timestamp (cd_samples I cd))" for cd
    using wf_series_chunk(1,4) [OF assms] in_time_order_sorted by (auto simp: sound_chunk_def)
  have all: "in_range a b (memory_samples I s) = concat (map (\<lambda>cd. in_range a b (cd_samples I cd)) ?cds)"
    by (simp add: in_range_def memory_samples_def filter_concat comp_def)
  have sub: "cd \<in> set (take (?hi + 1 - ?lo) (drop ?lo ?cds)) \<Longrightarrow> cd \<in> set ?cds" for cd
    by (meson in_set_dropD in_set_takeD)
  have scanned: "range_chunks I \<lparr>OldestInclusive = a, NewestInclusive = b\<rparr> (take (?hi + 1 - ?lo) (drop ?lo ?cds)) [] =
      Inr (in_range a b (memory_samples I s))"
    unfolding all using concat_sub [of ?cds ?lo ?hi "\<lambda>cd. in_range a b (cd_samples I cd)"] out
    by (subst range_chunks_filter) (simp_all add: good sub)
  have early: "in_range a b (memory_samples I s) = []" if "ms_lastTime s < a"
    using that assms in_time_order_last [of "memory_samples I s"] by (fastforce simp: in_range_def filter_empty_conv wf_series_def)
  show ?thesis
    unfolding samplesForRange_def Let_def scanned using early n wf_series_last [OF assms] by (simp add: Before_def)
qed

section \<open>Adding a sample\<close>

text \<open>The chunks of a series after its new head is in place: closed ones, and the head.\<close>

definition head_ok :: "'c chunk_impl \<Rightarrow> Time \<Rightarrow> 'c chunkDesc \<Rightarrow> bool" where
  "head_ok I t h \<longleftrightarrow> chunkLastTime h = Earliest \<and>
     (cd_c h = newChunk I \<and> chunkFirstTime h = t \<or> sound_chunk I (cd_c h) \<and> chunkFirstTime h = sp_Timestamp (hd (cd_samples I h)))"

lemma new_head_split:
  assumes "series_ok I s" "ch_samples I (newChunk I) = []"
  obtains pre h where "chunkDescs (new_head I t s) = pre @ [h]" "\<forall>cd\<in>set pre. wf_desc_chunk I True cd" "head_ok I t h"
    "memory_samples I s = concat (map (cd_samples I) pre) @ cd_samples I h" "headChunkClosed (new_head I t s) = False"
proof (cases "length (chunkDescs s) = 0 \<or> headChunkClosed s")
  case True
  have "\<forall>cd\<in>set (chunkDescs s). wf_desc_chunk I True cd"
  proof (cases "chunkDescs s" rule: rev_cases)
    case (snoc cds h)
    then have "wf_series I s" "headChunkClosed s" using assms(1) True by (auto simp: series_ok_def newMemorySeries_def) (metis append_is_Nil_conv list.distinct(1) memorySeries.select_convs(2) newMemorySeries_def)
    then show ?thesis using snoc by (auto simp: wf_series_def)
  qed simp
  then show ?thesis using True assms(2)
    by (intro that [of "chunkDescs s" "newChunkDesc (newChunk I) t"])
      (simp_all add: new_head_def head_ok_def newChunkDesc_def memory_samples_def cd_samples_def)
next
  case False
  then have wf: "wf_series I s" "\<not> headChunkClosed s" using assms(1) by (auto simp: series_ok_def) (metis list.size(3) memorySeries.select_convs(2) newMemorySeries_def)
  obtain cds h where "chunkDescs s = cds @ [h]" using False by (cases "chunkDescs s" rule: rev_cases) simp_all
  then show ?thesis using False wf
    by (intro that [of cds h]) (auto simp: new_head_def head_ok_def wf_series_def wf_desc_chunk_def memory_samples_def)
qed

lemma populated:
  assumes "sound_chunk I (cd_c cd)" "chunkLastTime cd = Earliest" "chunkFirstTime cd = sp_Timestamp (hd (cd_samples I cd))"
  shows "wf_desc_chunk I True (maybePopulateLastTime I cd)" "wf_desc_chunk I False cd"
    "cd_c (maybePopulateLastTime I cd) = cd_c cd"
  using assms by (simp_all add: wf_desc_chunk_def maybePopulateLastTime_def lastTimestamp_def sound_chunk_def cd_samples_def)

lemma in_time_order_snoc:
  "in_time_order (vs @ [v]) \<longleftrightarrow> in_time_order vs \<and> (\<forall>x\<in>set vs. sp_Timestamp x < sp_Timestamp v)"
  by (auto simp: in_time_order_def sorted_wrt_append)

lemma wf_series_times:
  assumes "series_ok I s" "ms_lastTime s < t"
  shows "in_time_order (memory_samples I s)" "\<forall>x\<in>set (memory_samples I s). Earliest < sp_Timestamp x \<and> sp_Timestamp x < t" "Earliest < t"
proof -
  consider (wf) "wf_series I s" | (new) "s = newMemorySeries (ms_metric s)" using assms(1) by (auto simp: series_ok_def)
  then have "in_time_order (memory_samples I s) \<and> (\<forall>x\<in>set (memory_samples I s). Earliest < sp_Timestamp x \<and> sp_Timestamp x < t) \<and> Earliest < t"
  proof cases
    case wf
    then have o: "in_time_order (memory_samples I s)" "\<forall>x\<in>set (memory_samples I s). Earliest < sp_Timestamp x"
      "ms_lastTime s = sp_Timestamp (last (memory_samples I s))" by (simp_all add: wf_series_def)
    have "chunkDescs s \<noteq> []" using wf by (simp add: wf_series_def)
    then have "cd_samples I (hd (chunkDescs s)) \<noteq> []" using wf by (simp add: wf_series_chunk(3))
    then have "memory_samples I s \<noteq> []" using \<open>chunkDescs s \<noteq> []\<close> by (cases "chunkDescs s") (simp_all add: memory_samples_def)
    then have "Earliest < ms_lastTime s" using o(2,3) by simp
    then show ?thesis using o assms(2) in_time_order_last [OF o(1)] by fastforce
  next
    case new
    then have "memory_samples I s = []" "ms_lastTime s = Earliest"
      by (metis concat.simps(1) list.map(1) memorySeries.select_convs(2) memory_samples_def newMemorySeries_def,
          metis memorySeries.select_convs(4) newMemorySeries_def)
    then show ?thesis using assms(2) by (simp add: in_time_order_def)
  qed
  then show "in_time_order (memory_samples I s)" "\<forall>x\<in>set (memory_samples I s). Earliest < sp_Timestamp x \<and> sp_Timestamp x < t" "Earliest < t"
    by blast+
qed

lemma series_add_ok:
  assumes laws: "chunk_laws I" and ok: "series_ok I s" and later: "ms_lastTime s < sp_Timestamp v"
  shows "\<exists>s'. series_add I v s = Ret (None, s') \<and> wf_series I s' \<and> ms_metric s' = ms_metric s \<and>
    memory_samples I s' = memory_samples I s @ [v]"
proof -
  let ?t = "sp_Timestamp v"
  define s1 where "s1 = new_head I ?t s"
  have empty: "ch_samples I (newChunk I) = []" using laws by (simp add: chunk_laws_def)
  obtain pre h where s1: "chunkDescs s1 = pre @ [h]" "\<forall>cd\<in>set pre. wf_desc_chunk I True cd" "head_ok I ?t h"
    "memory_samples I s = concat (map (cd_samples I) pre) @ cd_samples I h" "headChunkClosed s1 = False"
    unfolding s1_def using ok empty by (rule new_head_split)
  obtain cs where cs: "ch_add I v (cd_c h) = Inr cs" "cs \<noteq> []" "concat (map (ch_samples I) cs) = cd_samples I h @ [v]"
    "\<forall>c\<in>set cs. sound_chunk I c"
    using laws s1(3) unfolding chunk_laws_def head_ok_def cd_samples_def by metis
  define D where "D = h\<lparr>cd_c := hd cs\<rparr> # map (\<lambda>c. newChunkDesc c (ch_firstTime I c)) (tl cs)"
  have D: "map cd_c D = cs" "length D = length cs" using cs(2) by (simp_all add: D_def newChunkDesc_def comp_def)
  have "ch_samples I (hd cs) \<noteq> []" using cs(2,4) by (simp add: sound_chunk_def)
  then have "hd (ch_samples I (hd cs)) = hd (cd_samples I h @ [v])"
    using cs(2,3) by (cases cs) (simp_all, metis hd_append2)
  then have "chunkFirstTime h = sp_Timestamp (hd (ch_samples I (hd cs)))"
    using s1(3) empty by (auto simp: head_ok_def cd_samples_def sound_chunk_def hd_append)
  then have good: "sound_chunk I (cd_c cd) \<and> chunkLastTime cd = Earliest \<and> chunkFirstTime cd = sp_Timestamp (hd (cd_samples I cd))"
    if "cd \<in> set D" for cd
    using that cs(2,4) s1(3) by (auto simp: D_def head_ok_def newChunkDesc_def cd_samples_def sound_chunk_def dest: list.set_sel(2))
  define E where "E = map (maybePopulateLastTime I) (butlast D) @ [last D]"
  have "D \<noteq> []" by (simp add: D_def)
  then have DE: "D \<noteq> []" "set (butlast D) \<subseteq> set D" "last D \<in> set D" by (auto dest: in_set_butlastD)
  have "map cd_c E = map cd_c D"
  proof -
    have "map cd_c (map (maybePopulateLastTime I) (butlast D)) = map cd_c (butlast D)"
      using good populated(3) DE(2) by (auto simp: subset_iff)
    then show ?thesis unfolding E_def using DE(1) by (metis append_butlast_last_id map_append list.map)
  qed
  then have samples: "concat (map (cd_samples I) E) = cd_samples I h @ [v]"
    using D(1) cs(3) by (metis (no_types, lifting) cd_samples_def map_eq_conv map_map comp_apply)
  define s' where "s' = s1\<lparr>chunkDescs := pre @ E, ms_lastTime := ?t, lastSampleValue := sp_Value v, lastSampleValueSet := True\<rparr>"
  have "populate_closed I (length cs) (pre @ D) = pre @ E" using DE(1) D(2) by (simp add: populate_closed_def E_def)
  then have "series_add I v s = Ret (None, s')"
    using s1(1) cs(1,2) by (simp add: series_add_def s1_def [symmetric] Let_def s'_def D_def)
  moreover have mem: "memory_samples I s' = memory_samples I s @ [v]" using samples s1(4) by (simp add: memory_samples_def s'_def)
  have "\<forall>cd\<in>set (butlast D). wf_desc_chunk I True (maybePopulateLastTime I cd)" "wf_desc_chunk I False (last D)"
    using good populated(1,2) DE(2,3) by blast+
  then have "\<forall>cd\<in>set (butlast (pre @ E)). wf_desc_chunk I True cd" "wf_desc_chunk I False (last (pre @ E))"
    using s1(2) by (auto simp: E_def butlast_append)
  moreover have "wf_series I s'"
    using calculation wf_series_times [OF ok later] s1(5) mem unfolding wf_series_def
    by (simp add: in_time_order_snoc) (simp add: s'_def E_def)
  moreover have "ms_metric s' = ms_metric s" by (simp add: s'_def s1_def new_head_def)
  ultimately show ?thesis using mem by blast
qed

end
