(* ===== verification/Ingester_Storage.thy ===== *)
theory Ingester_Storage
  imports Fp_Mapper Memory_Series User_Id
begin

text \<open>
  The ingester (\<open>storage/local/frankenstein.go\<close>): series in memory per user, with their index and
  the mapper of fingerprints; appending, querying and label values. Work on a series is done under
  the lock of its fingerprint, so it is one step on the state; the calls of a history run one after
  the other. \<open>ord\<close> is the order of the map iterations.
\<close>

section \<open>State\<close>

record IngesterConfig =
  FlushCheckPeriod :: int
  MaxChunkAge :: int

record 'c userState =
  us_userID :: string
  fpToSeries :: "(fingerprint \<times> 'c memorySeries) list"
  us_mapper :: fpMapper
  us_index :: invertedIndex

record 'c Ingester =
  ing_cfg :: IngesterConfig
  ing_stopped :: bool
  ing_users :: "(string \<times> 'c userState) list"

definition NewIngester :: "IngesterConfig \<Rightarrow> 'c Ingester" where
  "NewIngester cfg =
     \<lparr>ing_cfg = \<lparr>FlushCheckPeriod = (if FlushCheckPeriod cfg = 0 then 60 * 10 ^ 9 else FlushCheckPeriod cfg),
                MaxChunkAge = (if MaxChunkAge cfg = 0 then 600 * 10 ^ 9 else MaxChunkAge cfg)\<rparr>,
      ing_stopped = False, ing_users = []\<rparr>"

definition new_userState :: "string \<Rightarrow> 'c userState" where
  "new_userState u = \<lparr>us_userID = u, fpToSeries = [], us_mapper = newFPMapper, us_index = newInvertedIndex\<rparr>"

definition put_user :: "string \<Rightarrow> 'c userState \<Rightarrow> 'c Ingester \<Rightarrow> 'c Ingester" where
  "put_user u st i = i\<lparr>ing_users := AList.update u st (ing_users i)\<rparr>"

definition getStateFor :: "Context \<Rightarrow> 'c Ingester \<Rightarrow> err + (string \<times> 'c userState \<times> 'c Ingester)" where
  "getStateFor ctx i =
     (case GetID ctx of
        Inl e \<Rightarrow> Inl (Err ''no user id'')
      | Inr userID \<Rightarrow>
          (case map_of (ing_users i) userID of
             Some st \<Rightarrow> Inr (userID, st, i)
           | None \<Rightarrow> Inr (userID, new_userState userID, put_user userID (new_userState userID) i)))"

section \<open>Appending\<close>

definition ErrDuplicateSampleForTimestamp :: err where
  "ErrDuplicateSampleForTimestamp = Err ''sample with repeated timestamp but different value''"

definition ErrOutOfOrderSample :: err where
  "ErrOutOfOrderSample = Err ''sample timestamp out of order''"

text \<open>\<open>SampleValue.Equal\<close> on the bits of two floats: equal, both zero, or both not a number.\<close>

definition is_NaN :: "SampleValue \<Rightarrow> bool" where
  "is_NaN v \<longleftrightarrow> v AND 0x7FFFFFFFFFFFFFFF > 0x7FF0000000000000"

definition value_Equal :: "SampleValue \<Rightarrow> SampleValue \<Rightarrow> bool" where
  "value_Equal v w \<longleftrightarrow>
     v = w \<or> v AND 0x7FFFFFFFFFFFFFFF = 0 \<and> w AND 0x7FFFFFFFFFFFFFFF = 0 \<or> is_NaN v \<and> is_NaN w"

definition series_metrics :: "'c userState \<Rightarrow> fingerprint \<rightharpoonup> metric" where
  "series_metrics st fp = map_option ms_metric (map_of (fpToSeries st) fp)"

definition getOrCreateSeries :: "schedule \<Rightarrow> metric \<Rightarrow> 'c userState \<Rightarrow> (fingerprint \<times> 'c memorySeries \<times> 'c userState) go" where
  "getOrCreateSeries ord m st =
     bind_go (mapFP (series_metrics st) (labelSetToFastFingerprint m) m (us_mapper st)) (\<lambda>(fp, mp).
       let st1 = st\<lparr>us_mapper := mp\<rparr>
       in case map_of (fpToSeries st1) fp of
            Some s \<Rightarrow> Ret (fp, s, st1)
          | None \<Rightarrow>
              let s = newMemorySeries m
              in Ret (fp, s, st1\<lparr>fpToSeries := AList.update fp s (fpToSeries st1), us_index := index_add ord m fp (us_index st1)\<rparr>))"

definition put_series :: "fingerprint \<Rightarrow> 'c memorySeries \<Rightarrow> 'c userState \<Rightarrow> 'c userState" where
  "put_series fp s st = st\<lparr>fpToSeries := AList.update fp s (fpToSeries st)\<rparr>"

definition drop_empty :: "metric \<Rightarrow> metric" where
  "drop_empty m = filter (\<lambda>(ln, lv). length lv \<noteq> 0) m"

definition append_series :: "'c chunk_impl \<Rightarrow> Sample \<Rightarrow> 'c memorySeries \<Rightarrow> (err option \<times> 'c memorySeries) go" where
  "append_series I sample s =
     (if s_Timestamp sample = ms_lastTime s then
        (if lastSampleValueSet s \<and> value_Equal (s_Value sample) (lastSampleValue s) then Ret (None, s)
         else Ret (Some ErrDuplicateSampleForTimestamp, s))
      else if s_Timestamp sample < ms_lastTime s then Ret (Some ErrOutOfOrderSample, s)
      else series_add I \<lparr>sp_Timestamp = s_Timestamp sample, sp_Value = s_Value sample\<rparr> s)"

definition ingester_append :: "'c chunk_impl \<Rightarrow> schedule \<Rightarrow> Context \<Rightarrow> Sample \<Rightarrow> 'c Ingester \<Rightarrow> (err option \<times> 'c Ingester) go" where
  "ingester_append I ord ctx sample i =
     (if ing_stopped i then Ret (Some (Err ''ingester stopping''), i)
      else
        (case getStateFor ctx i of
           Inl e \<Rightarrow> Ret (Some e, i)
         | Inr (userID, st, i1) \<Rightarrow>
             bind_go (getOrCreateSeries ord (drop_empty (s_Metric sample)) st) (\<lambda>(fp, s, st1).
             bind_go (append_series I sample s) (\<lambda>(e, s').
               Ret (e, put_user userID (put_series fp s' st1) i1)))))"

fun Ingester_Append :: "'c chunk_impl \<Rightarrow> schedule \<Rightarrow> Context \<Rightarrow> Sample list \<Rightarrow> 'c Ingester \<Rightarrow> (err option \<times> 'c Ingester) go" where
  "Ingester_Append I ord ctx [] i = Ret (None, i)"
| "Ingester_Append I ord ctx (sample # samples) i =
     bind_go (ingester_append I ord ctx sample i) (\<lambda>(e, i').
       case e of Some err \<Rightarrow> Ret (Some err, i') | None \<Rightarrow> Ingester_Append I ord ctx samples i')"

section \<open>Querying\<close>

fun query_fps :: "'c chunk_impl \<Rightarrow> 'c userState \<Rightarrow> Time \<Rightarrow> Time \<Rightarrow> fingerprint list \<Rightarrow> Matrix \<Rightarrow> (err + Matrix) go" where
  "query_fps I st from through [] result = Ret (Inr result)"
| "query_fps I st from through (fp # fps) result =
     (case map_of (fpToSeries st) fp of
        None \<Rightarrow> query_fps I st from through fps result
      | Some s \<Rightarrow> bind_err (samplesForRange I s from through) (\<lambda>vs.
          query_fps I st from through fps (result @ [\<lparr>ss_Metric = ms_metric s, ss_Values = vs\<rparr>])))"

definition Ingester_Query ::
  "'c chunk_impl \<Rightarrow> schedule \<Rightarrow> Context \<Rightarrow> Time \<Rightarrow> Time \<Rightarrow> LabelMatcher list \<Rightarrow> 'c Ingester \<Rightarrow> (err + Matrix \<times> 'c Ingester) go" where
  "Ingester_Query I ord ctx from through matchers i =
     (case getStateFor ctx i of
        Inl e \<Rightarrow> Ret (Inl e)
      | Inr (userID, st, i1) \<Rightarrow>
          bind_err (query_fps I st from through (index_lookup ord (us_index st) matchers) []) (\<lambda>M. Ret (Inr (M, i1))))"

definition Ingester_LabelValues :: "schedule \<Rightarrow> Context \<Rightarrow> LabelName \<Rightarrow> 'c Ingester \<Rightarrow> (err + LabelValue list \<times> 'c Ingester) go" where
  "Ingester_LabelValues ord ctx name i =
     (case getStateFor ctx i of
        Inl e \<Rightarrow> Ret (Inl e)
      | Inr (userID, st, i1) \<Rightarrow> Ret (Inr (lookupLabelValues ord (us_index st) name, i1)))"

section \<open>The invariant\<close>

definition user_ok :: "'c chunk_impl \<Rightarrow> 'c userState \<Rightarrow> bool" where
  "user_ok I st \<longleftrightarrow> distinct (map fst (fpToSeries st)) \<and> (\<forall>fp. pred_option (wf_series I) (map_of (fpToSeries st) fp)) \<and>
     index_of (us_index st) (series_metrics st) \<and> mapper_inv (us_mapper st) (series_metrics st)"

definition ingester_ok :: "'c chunk_impl \<Rightarrow> 'c Ingester \<Rightarrow> bool" where
  "ingester_ok I i \<longleftrightarrow> distinct (map fst (ing_users i)) \<and> (\<forall>u. pred_option (user_ok I) (map_of (ing_users i) u))"

text \<open>The samples of a metric.\<close>

definition user_samples :: "'c chunk_impl \<Rightarrow> 'c userState \<Rightarrow> metric \<Rightarrow> SamplePair list" where
  "user_samples I st m = concat (map (\<lambda>(fp, s). if ms_metric s = m then memory_samples I s else []) (fpToSeries st))"

definition ing_samples :: "'c chunk_impl \<Rightarrow> 'c Ingester \<Rightarrow> string \<Rightarrow> metric \<Rightarrow> SamplePair list" where
  "ing_samples I i u m = (case map_of (ing_users i) u of None \<Rightarrow> [] | Some st \<Rightarrow> user_samples I st m)"

text \<open>How many fingerprints the mapper of a user can still map.\<close>

definition headroom :: "'c Ingester \<Rightarrow> string \<Rightarrow> nat" where
  "headroom i u = (case map_of (ing_users i) u of None \<Rightarrow> 1048576 | Some st \<Rightarrow> 1048576 - unat (highestMappedFP (us_mapper st)))"

lemma user_ok_new: "user_ok I (new_userState u)"
  by (simp add: user_ok_def new_userState_def series_metrics_def [abs_def] index_of_empty mapper_inv_new)

lemma user_okD:
  assumes "user_ok I st" "map_of (fpToSeries st) fp = Some s"
  shows "wf_series I s" "good_metric (ms_metric s)" "fp = canonical_fp (us_mapper st) (ms_metric s)"
proof -
  have "pred_option (wf_series I) (map_of (fpToSeries st) fp)" using assms(1) by (simp add: user_ok_def)
  then show "wf_series I s" using assms(2) by simp
  have "series_metrics st fp = Some (ms_metric s)" using assms(2) by (simp add: series_metrics_def)
  then show "good_metric (ms_metric s)" "fp = canonical_fp (us_mapper st) (ms_metric s)"
    using assms(1) mapper_invD(1,2) by (auto simp: user_ok_def)
qed

lemma concat_one:
  assumes "distinct (map fst l)" "map_of l k = Some v" "\<And>k' v'. map_of l k' = Some v' \<Longrightarrow> P v' \<Longrightarrow> k' = k" "P v"
  shows "concat (map (\<lambda>(k, v). if P v then f v else []) l) = f v"
  using assms(1-3)
proof (induction l)
  case (Cons x l)
  obtain k1 v1 where x: "x = (k1, v1)" by (cases x)
  show ?case
  proof (cases "k1 = k")
    case True
    then have v: "v1 = v" using Cons.prems(2) x by simp
    have "\<not> P v'" if "(k', v') \<in> set l" for k' v'
    proof
      assume "P v'"
      have "map_of (x # l) k' = Some v'" using that Cons.prems(1) x by (intro map_of_is_SomeI) auto
      then have "k' = k" using Cons.prems(3) \<open>P v'\<close> by blast
      then show False using that Cons.prems(1) x True by force
    qed
    then have "concat (map (\<lambda>(k, v). if P v then f v else []) l) = []" by auto
    then show ?thesis using x v assms(4) by simp
  next
    case False
    then have "\<not> P v1" using Cons.prems(3) [of k1 v1] x by auto
    moreover have "map_of l k' = Some v' \<Longrightarrow> P v' \<Longrightarrow> k' = k" for k' v'
      using Cons.prems(1) Cons.prems(3) [of k' v'] x by (cases "k' = k1") (auto simp: image_iff dest: map_of_SomeD)
    ultimately show ?thesis using Cons.IH Cons.prems(1,2) x False by simp
  qed
qed simp

lemma user_samples_at:
  assumes "user_ok I st" "map_of (fpToSeries st) fp = Some s"
  shows "user_samples I st (ms_metric s) = memory_samples I s"
  unfolding user_samples_def
proof (rule concat_one [of "fpToSeries st" fp s "\<lambda>x. ms_metric x = ms_metric s" "memory_samples I"])
  show "distinct (map fst (fpToSeries st))" using assms(1) by (simp add: user_ok_def)
  show "k' = fp" if "map_of (fpToSeries st) k' = Some v'" "ms_metric v' = ms_metric s" for k' v'
    using user_okD(3) [OF assms(1) that(1)] user_okD(3) [OF assms] that(2) by simp
qed (use assms(2) in simp_all)

lemma user_samples_none:
  assumes "user_ok I st" "\<And>fp s. map_of (fpToSeries st) fp = Some s \<Longrightarrow> ms_metric s \<noteq> m"
  shows "user_samples I st m = []"
  using assms by (fastforce simp: user_samples_def user_ok_def)

lemma memory_nonempty: "wf_series I s \<Longrightarrow> memory_samples I s \<noteq> []"
  by (cases "chunkDescs s") (auto simp: memory_samples_def wf_series_chunk(3), simp add: wf_series_def)

section \<open>Appending adds the sample\<close>

definition exhausted :: string where
  "exhausted = ''more than 1048576 fingerprints mapped in collision detection''"

lemma good_drop_empty: "good_metric m \<Longrightarrow> good_metric (drop_empty m)"
  by (auto simp: good_metric_def drop_empty_def wf_metric_def sorted_wrt_filter sorted_wrt_map)

lemma mapFP_panic: "mapFP series fp m mp = Panic e \<Longrightarrow> e = exhausted"
  by (auto simp: mapFP_def maybeAddMapping_def nextMappedFP_def exhausted_def Let_def go_simps bind_go_def
      split: if_splits option.splits go.splits)

lemma good_distinct: "good_metric m \<Longrightarrow> distinct (map fst m)"
  by (simp add: good_metric_def wf_metric_distinct)

lemma getOrCreateSeries_ok:
  assumes ok: "user_ok I st" and m: "good_metric m" and ord: "fair ord"
  shows "getOrCreateSeries ord m st = Panic exhausted \<and> highestMappedFP (us_mapper st) = maxMappedFP \<or>
    (\<exists>fp s st1. getOrCreateSeries ord m st = Ret (fp, s, st1) \<and> unat (highestMappedFP (us_mapper st1)) \<le> unat (highestMappedFP (us_mapper st)) + 1 \<and> map_of (fpToSeries st1) fp = Some s \<and> ms_metric s = m \<and>
       (wf_series I s \<or> s = newMemorySeries m) \<and> memory_samples I s = user_samples I st m \<and>
       (\<forall>fp'. fp' \<noteq> fp \<longrightarrow> map_of (fpToSeries st1) fp' = map_of (fpToSeries st) fp') \<and>
       distinct (map fst (fpToSeries st1)) \<and> index_of (us_index st1) (series_metrics st1) \<and>
       mapper_inv (us_mapper st1) (series_metrics st1))"
proof -
  let ?S = "series_metrics st" and ?raw = "labelSetToFastFingerprint m"
  have inv: "mapper_inv (us_mapper st) ?S" "index_of (us_index st) ?S" "distinct (map fst (fpToSeries st))"
    using ok by (simp_all add: user_ok_def)
  consider (panic) "mapFP ?S ?raw m (us_mapper st) = Panic exhausted" "highestMappedFP (us_mapper st) = maxMappedFP"
    | (fp) fp mp where "mapFP ?S ?raw m (us_mapper st) = Ret (fp, mp)" "fp_for ?S m (us_mapper st) fp mp"
    using mapFP_unique [OF inv(1) m] mapFP_panic by blast
  then show ?thesis
  proof cases
    case panic
    then show ?thesis by (simp add: getOrCreateSeries_def)
  next
    case fp
    have high: "unat (highestMappedFP mp) \<le> unat (highestMappedFP (us_mapper st)) + 1" by (rule mapFP_highest [OF fp(1)])
    have mp: "mapper_inv mp (?S(fp \<mapsto> m))" "?S fp = None \<or> ?S fp = Some m" "\<And>fp'. ?S fp' = Some m \<Longrightarrow> fp' = fp"
      using fp(2) by (auto simp: fp_for_def)
    show ?thesis
    proof (cases "map_of (fpToSeries st) fp")
      case None
      let ?st1 = "st\<lparr>us_mapper := mp, fpToSeries := AList.update fp (newMemorySeries m) (fpToSeries st), us_index := index_add ord m fp (us_index st)\<rparr>"
      have S: "series_metrics ?st1 = ?S(fp \<mapsto> m)" by (auto simp: series_metrics_def update_conv' newMemorySeries_def)
      have no: "?S fp = None" using None by (simp add: series_metrics_def)
      have "ms_metric s \<noteq> m" if "map_of (fpToSeries st) fp' = Some s" for fp' s
        using mp(3) [of fp'] that None by (auto simp: series_metrics_def)
      then have "user_samples I st m = []" by (rule user_samples_none [OF ok])
      moreover have "index_of (index_add ord m fp (us_index st)) (?S(fp \<mapsto> m))"
        by (rule fpindex.reps_add [OF ord inv(2) good_distinct [OF m] no])
      moreover have "getOrCreateSeries ord m st = Ret (fp, newMemorySeries m, ?st1)"
        using fp(1) None by (simp add: getOrCreateSeries_def Let_def)
      ultimately show ?thesis using mp(1) inv(3) S high
        by (intro disjI2 exI [of _ fp] exI [of _ "newMemorySeries m"] exI [of _ ?st1])
          (simp add: update_conv' distinct_update, simp add: newMemorySeries_def memory_samples_def)
    next
      case (Some s)
      let ?st1 = "st\<lparr>us_mapper := mp\<rparr>"
      have s: "ms_metric s = m" using mp(2) Some by (auto simp: series_metrics_def)
      then have same: "?S(fp \<mapsto> m) = ?S" using Some by (auto simp: series_metrics_def)
      have S: "series_metrics ?st1 = ?S" by (simp add: series_metrics_def fun_eq_iff)
      have "getOrCreateSeries ord m st = Ret (fp, s, ?st1)" using fp(1) Some by (simp add: getOrCreateSeries_def)
      then show ?thesis using Some s same S mp(1) inv(2,3) high user_okD(1) [OF ok Some] user_samples_at [OF ok Some]
        by (intro disjI2 exI [of _ fp] exI [of _ s] exI [of _ ?st1]) simp
    qed
  qed
qed

text \<open>The specification: samples per user and metric, in the order of time.\<close>

type_synonym abs_store = "string \<Rightarrow> metric \<Rightarrow> SamplePair list"

definition abs_add :: "Sample \<Rightarrow> SamplePair list \<Rightarrow> err option \<times> SamplePair list" where
  "abs_add sample vs =
     (let v = \<lparr>sp_Timestamp = s_Timestamp sample, sp_Value = s_Value sample\<rparr>
      in if vs = [] \<or> sp_Timestamp (last vs) < s_Timestamp sample then (None, vs @ [v])
         else if s_Timestamp sample < sp_Timestamp (last vs) then (Some ErrOutOfOrderSample, vs)
         else if value_Equal (s_Value sample) (sp_Value (last vs)) then (None, vs)
         else (Some ErrDuplicateSampleForTimestamp, vs))"

definition abs_append :: "string \<Rightarrow> Sample \<Rightarrow> abs_store \<Rightarrow> err option \<times> abs_store" where
  "abs_append u sample A =
     (let m = drop_empty (s_Metric sample); (e, vs) = abs_add sample (A u m) in (e, A(u := (A u)(m := vs))))"

definition valid_sample :: "Sample \<Rightarrow> bool" where
  "valid_sample sample \<longleftrightarrow> good_metric (s_Metric sample) \<and> Earliest < s_Timestamp sample"

lemma append_series_ok:
  assumes "chunk_laws I" "wf_series I s \<or> s = newMemorySeries m" "Earliest < s_Timestamp sample"
  shows "\<exists>s'. append_series I sample s = Ret (fst (abs_add sample (memory_samples I s)), s') \<and> wf_series I s' \<and> ms_metric s' = ms_metric s \<and>
    memory_samples I s' = snd (abs_add sample (memory_samples I s))"
proof -
  let ?v = "\<lparr>sp_Timestamp = s_Timestamp sample, sp_Value = s_Value sample\<rparr>"
  have ok: "series_ok I s" using assms(2) by (auto simp: series_ok_def newMemorySeries_def)
  consider (new) "memory_samples I s = []" "ms_lastTime s = Earliest"
    | (wf) "wf_series I s" "memory_samples I s \<noteq> []" "ms_lastTime s = sp_Timestamp (last (memory_samples I s))"
      "lastSampleValue s = sp_Value (last (memory_samples I s))" "lastSampleValueSet s"
    using assms(2) memory_nonempty by (auto simp: newMemorySeries_def memory_samples_def wf_series_def)
  then show ?thesis
  proof cases
    case new
    then show ?thesis using series_add_ok [OF assms(1) ok, of ?v] assms(3) by (auto simp: append_series_def abs_add_def Let_def)
  next
    case wf
    consider "ms_lastTime s < s_Timestamp sample" | "s_Timestamp sample < ms_lastTime s" | "s_Timestamp sample = ms_lastTime s" by linarith
    then show ?thesis
    proof cases
      case 1
      then show ?thesis using series_add_ok [OF assms(1) ok, of ?v] wf by (auto simp: append_series_def abs_add_def Let_def)
    next
      case 2
      then show ?thesis using wf by (simp add: append_series_def abs_add_def Let_def)
    next
      case 3
      then show ?thesis using wf by (simp add: append_series_def abs_add_def Let_def)
    qed
  qed
qed

lemma getStateFor_ok:
  assumes "ingester_ok I i"
  shows "\<exists>st i1. getStateFor (WithID ctx u) i = Inr (u, st, i1) \<and> user_ok I st \<and> ingester_ok I i1 \<and> ing_samples I i1 = ing_samples I i \<and>
    user_samples I st = ing_samples I i u \<and> ing_stopped i1 = ing_stopped i \<and> headroom i1 = headroom i \<and>
    headroom i u = 1048576 - unat (highestMappedFP (us_mapper st)) \<and> (\<forall>u'. u' \<noteq> u \<longrightarrow> map_of (ing_users i1) u' = map_of (ing_users i) u')"
proof (cases "map_of (ing_users i) u")
  case None
  let ?st = "new_userState u :: 'a userState"
  have "ingester_ok I (put_user u ?st i)"
    using assms user_ok_new by (simp add: ingester_ok_def put_user_def update_conv' distinct_update)
  moreover have "user_samples I ?st = (\<lambda>m. [])" by (simp add: user_samples_def new_userState_def fun_eq_iff)
  moreover have "ing_samples I (put_user u ?st i) = ing_samples I i"
    using None by (simp add: ing_samples_def fun_eq_iff put_user_def update_conv' user_samples_def new_userState_def split: option.split)
  ultimately show ?thesis using None user_ok_new
    by (intro exI [of _ ?st] exI [of _ "put_user u ?st i"]) (simp add: getStateFor_def ing_samples_def put_user_def fun_eq_iff headroom_def update_conv' new_userState_def newFPMapper_def)
next
  case (Some st)
  then have "user_ok I st" using assms by (metis ingester_ok_def option.pred_inject(2))
  then show ?thesis using Some assms by (intro exI [of _ st] exI [of _ i]) (simp add: getStateFor_def ing_samples_def fun_eq_iff headroom_def)
qed

lemma ingester_append_ok:
  assumes laws: "chunk_laws I" and ord: "fair ord" and ok: "ingester_ok I i" and running: "\<not> ing_stopped i" and v: "valid_sample sample"
  shows "ingester_append I ord (WithID ctx u) sample i = Panic exhausted \<and> headroom i u = 0 \<or>
    (\<exists>i'. ingester_append I ord (WithID ctx u) sample i = Ret (fst (abs_append u sample (ing_samples I i)), i') \<and> ingester_ok I i' \<and>
       \<not> ing_stopped i' \<and> ing_samples I i' = snd (abs_append u sample (ing_samples I i)) \<and> (\<forall>u'. headroom i u' \<le> headroom i' u' + 1))"
proof -
  let ?m = "drop_empty (s_Metric sample)"
  obtain st i1 where st: "getStateFor (WithID ctx u) i = Inr (u, st, i1)" "user_ok I st" "ingester_ok I i1" "ing_samples I i1 = ing_samples I i"
    "user_samples I st = ing_samples I i u" "ing_stopped i1 = ing_stopped i" "headroom i1 = headroom i"
    "headroom i u = 1048576 - unat (highestMappedFP (us_mapper st))" "\<forall>u'. u' \<noteq> u \<longrightarrow> map_of (ing_users i1) u' = map_of (ing_users i) u'"
    using getStateFor_ok [OF ok, of ctx u] by blast
  have m: "good_metric ?m" using v by (simp add: valid_sample_def good_drop_empty)
  consider (panic) "getOrCreateSeries ord ?m st = Panic exhausted" "highestMappedFP (us_mapper st) = maxMappedFP"
    | (ret) fp s st1 where "getOrCreateSeries ord ?m st = Ret (fp, s, st1)" "map_of (fpToSeries st1) fp = Some s" "ms_metric s = ?m"
      "wf_series I s \<or> s = newMemorySeries ?m" "memory_samples I s = user_samples I st ?m"
      "\<And>fp'. fp' \<noteq> fp \<Longrightarrow> map_of (fpToSeries st1) fp' = map_of (fpToSeries st) fp'" "distinct (map fst (fpToSeries st1))"
      "index_of (us_index st1) (series_metrics st1)" "mapper_inv (us_mapper st1) (series_metrics st1)"
      "unat (highestMappedFP (us_mapper st1)) \<le> unat (highestMappedFP (us_mapper st)) + 1"
    using getOrCreateSeries_ok [OF st(2) m ord] by blast
  then show ?thesis
  proof cases
    case panic
    then show ?thesis using st(1,8) running by (simp add: ingester_append_def maxMappedFP_def push_bit_eq_mult)
  next
    case ret
    define e vs where "e = fst (abs_add sample (ing_samples I i u ?m))" and "vs = snd (abs_add sample (ing_samples I i u ?m))"
    obtain s' where s': "append_series I sample s = Ret (e, s')" "wf_series I s'" "ms_metric s' = ?m" "memory_samples I s' = vs"
      using append_series_ok [OF laws ret(4)] v ret(3,5) st(5) by (auto simp: valid_sample_def e_def vs_def)
    define st2 where "st2 = put_series fp s' st1"
    define i' where "i' = put_user u st2 i1"
    have S: "series_metrics st2 = series_metrics st1"
      using ret(2,3) s'(3) by (auto simp: series_metrics_def st2_def put_series_def update_conv')
    have all: "pred_option (wf_series I) (map_of (fpToSeries st2) fp')" for fp'
      using s'(2) ret(6) [of fp'] st(2) by (simp add: st2_def put_series_def update_conv' user_ok_def)
    have ok2: "user_ok I st2"
      unfolding user_ok_def S using all ret(7,8,9) by (simp add: st2_def put_series_def distinct_update)
    have at: "map_of (fpToSeries st2) fp = Some s'" by (simp add: st2_def put_series_def update_conv')
    have rest: "fp' \<noteq> fp \<Longrightarrow> map_of (fpToSeries st2) fp' = map_of (fpToSeries st) fp'" for fp'
      using ret(6) by (simp add: st2_def put_series_def update_conv')
    have "user_samples I st2 x = (if x = ?m then vs else user_samples I st x)" for x
    proof (cases "x = ?m")
      case True
      then show ?thesis using user_samples_at [OF ok2 at] s'(3,4) by simp
    next
      case False
      show ?thesis
      proof (cases "\<exists>fp' s0. map_of (fpToSeries st2) fp' = Some s0 \<and> ms_metric s0 = x")
        case True
        then obtain fp' s0 where s0: "map_of (fpToSeries st2) fp' = Some s0" "ms_metric s0 = x" by blast
        then have "fp' \<noteq> fp" using False at s'(3) by auto
        then show ?thesis using user_samples_at [OF ok2 s0(1)] user_samples_at [OF st(2), of fp' s0] s0 rest False by simp
      next
        case none: False
        have "ms_metric s0 \<noteq> x" if "map_of (fpToSeries st) fp' = Some s0" for fp' s0
        proof (cases "fp' = fp")
          case True
          then have "s0 = s \<or> map_of (fpToSeries st) fp = None" using that ret(1,2) by (auto simp: getOrCreateSeries_def Let_def go_simps split: option.splits)
          then show ?thesis using that True ret(3) False by auto
        next
          case False
          then show ?thesis using none rest that by metis
        qed
        then show ?thesis using False user_samples_none [OF ok2] user_samples_none [OF st(2)] none by metis
      qed
    qed
    then have "ing_samples I i' = snd (abs_append u sample (ing_samples I i))"
      using st(4,5) by (auto simp: i'_def put_user_def ing_samples_def update_conv' fun_eq_iff abs_append_def Let_def vs_def split: prod.splits)
    moreover have "ingester_append I ord (WithID ctx u) sample i = Ret (fst (abs_append u sample (ing_samples I i)), i')"
      using st(1) running ret(1) s'(1) by (simp add: ingester_append_def abs_append_def Let_def e_def i'_def st2_def split: prod.splits)
    moreover have "ingester_ok I i'"
      using st(3) ok2 by (simp add: i'_def put_user_def ingester_ok_def update_conv' distinct_update)
    moreover have "\<not> ing_stopped i'" using st(6) running by (simp add: i'_def put_user_def)
    moreover have "headroom i u' \<le> headroom i' u' + 1" for u'
    proof (cases "u' = u")
      case True
      have "headroom i' u = 1048576 - unat (highestMappedFP (us_mapper st1))"
        by (simp add: headroom_def i'_def put_user_def update_conv' st2_def put_series_def)
      then show ?thesis using True st(8) ret(10) by simp
    next
      case False
      then have "map_of (ing_users i') u' = map_of (ing_users i) u'" using st(9) by (simp add: i'_def put_user_def update_conv')
      then show ?thesis by (simp add: headroom_def)
    qed
    ultimately show ?thesis by blast
  qed
qed

section \<open>Queries return what is stored\<close>

lemma has_series:
  assumes "user_ok I st"
  shows "user_samples I st m \<noteq> [] \<longleftrightarrow> (\<exists>fp s. map_of (fpToSeries st) fp = Some s \<and> ms_metric s = m)"
  using user_samples_at [OF assms] user_samples_none [OF assms, of m] user_okD(1) [OF assms] memory_nonempty by metis

lemma query_fps_ok:
  assumes "user_ok I st" "\<forall>fp\<in>set fps. map_of (fpToSeries st) fp \<noteq> None"
  shows "query_fps I st a b fps acc = Ret (Inr (acc @ map (\<lambda>fp. let s = the (map_of (fpToSeries st) fp)
    in \<lparr>ss_Metric = ms_metric s, ss_Values = in_range a b (memory_samples I s)\<rparr>) fps))"
  using assms(2)
proof (induction fps arbitrary: acc)
  case (Cons fp fps)
  then obtain s where "map_of (fpToSeries st) fp = Some s" by auto
  then show ?case using Cons user_okD(1) [OF assms(1)] by (simp add: samplesForRange_exact)
qed simp

definition answer :: "abs_store \<Rightarrow> string \<Rightarrow> Time \<Rightarrow> Time \<Rightarrow> LabelMatcher list \<Rightarrow> Matrix \<Rightarrow> bool" where
  "answer A u a b ms M \<longleftrightarrow> distinct (map ss_Metric M) \<and>
     set M = {\<lparr>ss_Metric = m, ss_Values = in_range a b (A u m)\<rparr> | m. ms \<noteq> [] \<and> A u m \<noteq> [] \<and> all_match ms m}"

lemma Ingester_Query_ok:
  assumes ord: "fair ord" and ok: "ingester_ok I i"
  shows "\<exists>M i'. Ingester_Query I ord (WithID ctx u) a b ms i = Ret (Inr (M, i')) \<and> ingester_ok I i' \<and> ing_samples I i' = ing_samples I i \<and>
    ing_stopped i' = ing_stopped i \<and> headroom i' = headroom i \<and> answer (ing_samples I i) u a b ms M"
proof -
  obtain st i1 where st: "getStateFor (WithID ctx u) i = Inr (u, st, i1)" "user_ok I st" "ingester_ok I i1" "ing_samples I i1 = ing_samples I i"
    "user_samples I st = ing_samples I i u" "ing_stopped i1 = ing_stopped i" "headroom i1 = headroom i"
    "headroom i u = 1048576 - unat (highestMappedFP (us_mapper st))" "\<forall>u'. u' \<noteq> u \<longrightarrow> map_of (ing_users i1) u' = map_of (ing_users i) u'"
    using getStateFor_ok [OF ok, of ctx u] by blast
  let ?fps = "index_lookup ord (us_index st) ms"
  let ?row = "\<lambda>fp. let s = the (map_of (fpToSeries st) fp) in \<lparr>ss_Metric = ms_metric s, ss_Values = in_range a b (memory_samples I s)\<rparr>"
  have idx: "index_of (us_index st) (series_metrics st)" using st(2) by (simp add: user_ok_def)
  have fps: "distinct ?fps \<and> set ?fps = {fp. \<exists>s. ms \<noteq> [] \<and> map_of (fpToSeries st) fp = Some s \<and> all_match ms (ms_metric s)}"
  proof (cases "ms = []")
    case False
    then show ?thesis using fpindex.lookup_set [OF ord idx False] by (auto simp: series_metrics_def strict_sorted_iff)
  qed (simp add: fpindex.lookup_none)
  then have found: "\<forall>fp\<in>set ?fps. map_of (fpToSeries st) fp \<noteq> None" by auto
  have "inj_on (ss_Metric \<circ> ?row) (set ?fps)"
  proof (rule inj_onI)
    fix f g assume "f \<in> set ?fps" "g \<in> set ?fps" and eq: "(ss_Metric \<circ> ?row) f = (ss_Metric \<circ> ?row) g"
    then obtain s t where f: "map_of (fpToSeries st) f = Some s" and g: "map_of (fpToSeries st) g = Some t" using fps by auto
    have "ms_metric s = ms_metric t" using eq f g by (simp add: Let_def)
    then show "f = g" by (metis user_okD(3) [OF st(2) f] user_okD(3) [OF st(2) g])
  qed
  then have "distinct (map ss_Metric (map ?row ?fps))" using fps by (simp add: distinct_map)
  moreover have "set (map ?row ?fps) = {\<lparr>ss_Metric = m, ss_Values = in_range a b (ing_samples I i u m)\<rparr> | m. ms \<noteq> [] \<and> ing_samples I i u m \<noteq> [] \<and> all_match ms m}"
  proof -
    have row: "?row fp = \<lparr>ss_Metric = ms_metric s, ss_Values = in_range a b (ing_samples I i u (ms_metric s))\<rparr>"
      if "map_of (fpToSeries st) fp = Some s" for fp s using user_samples_at [OF st(2) that] that st(5) by (simp add: Let_def)
    have has: "ing_samples I i u m \<noteq> [] \<longleftrightarrow> (\<exists>fp s. map_of (fpToSeries st) fp = Some s \<and> ms_metric s = m)" for m
      using has_series [OF st(2), of m] st(5) by simp
    show ?thesis
    proof (intro set_eqI iffI)
      fix r assume "r \<in> set (map ?row ?fps)"
      then obtain fp where fp: "fp \<in> set ?fps" "r = ?row fp" by auto
      then obtain s where s: "map_of (fpToSeries st) fp = Some s" "ms \<noteq> []" "all_match ms (ms_metric s)" using fps by auto
      show "r \<in> {\<lparr>ss_Metric = m, ss_Values = in_range a b (ing_samples I i u m)\<rparr> | m. ms \<noteq> [] \<and> ing_samples I i u m \<noteq> [] \<and> all_match ms m}"
        using fp(2) row [OF s(1)] s has by blast
    next
      fix r assume "r \<in> {\<lparr>ss_Metric = m, ss_Values = in_range a b (ing_samples I i u m)\<rparr> | m. ms \<noteq> [] \<and> ing_samples I i u m \<noteq> [] \<and> all_match ms m}"
      then obtain m where m: "r = \<lparr>ss_Metric = m, ss_Values = in_range a b (ing_samples I i u m)\<rparr>" "ms \<noteq> []" "ing_samples I i u m \<noteq> []" "all_match ms m"
        by blast
      then obtain fp s where s: "map_of (fpToSeries st) fp = Some s" "ms_metric s = m" using has by blast
      then have "fp \<in> set ?fps" using fps m by blast
      moreover have "r = ?row fp" using row [OF s(1)] s(2) m(1) by simp
      ultimately show "r \<in> set (map ?row ?fps)" by simp
    qed
  qed
  ultimately have "answer (ing_samples I i) u a b ms (map ?row ?fps)" by (simp add: answer_def)
  moreover have "Ingester_Query I ord (WithID ctx u) a b ms i = Ret (Inr (map ?row ?fps, i1))"
    using st(1) query_fps_ok [OF st(2) found, of a b "[]"] by (simp add: Ingester_Query_def)
  ultimately show ?thesis using st(3,4,6,7) by blast
qed

definition values_of :: "abs_store \<Rightarrow> string \<Rightarrow> LabelName \<Rightarrow> LabelValue list \<Rightarrow> bool" where
  "values_of A u name vs \<longleftrightarrow> distinct vs \<and> set vs = {v. \<exists>m. A u m \<noteq> [] \<and> map_of m name = Some v}"

lemma Ingester_LabelValues_ok:
  assumes ord: "fair ord" and ok: "ingester_ok I i"
  shows "\<exists>vs i'. Ingester_LabelValues ord (WithID ctx u) name i = Ret (Inr (vs, i')) \<and> ingester_ok I i' \<and> ing_samples I i' = ing_samples I i \<and>
    ing_stopped i' = ing_stopped i \<and> headroom i' = headroom i \<and> values_of (ing_samples I i) u name vs"
proof -
  obtain st i1 where st: "getStateFor (WithID ctx u) i = Inr (u, st, i1)" "user_ok I st" "ingester_ok I i1" "ing_samples I i1 = ing_samples I i"
    "user_samples I st = ing_samples I i u" "ing_stopped i1 = ing_stopped i" "headroom i1 = headroom i"
    "headroom i u = 1048576 - unat (highestMappedFP (us_mapper st))" "\<forall>u'. u' \<noteq> u \<longrightarrow> map_of (ing_users i1) u' = map_of (ing_users i) u'"
    using getStateFor_ok [OF ok, of ctx u] by blast
  have idx: "index_of (us_index st) (series_metrics st)" using st(2) by (simp add: user_ok_def)
  have "(\<exists>fp. series_metrics st fp = Some m) \<longleftrightarrow> ing_samples I i u m \<noteq> []" for m
    using has_series [OF st(2), of m] unfolding st(5) by (auto simp: series_metrics_def)
  then have "values_of (ing_samples I i) u name (lookupLabelValues ord (us_index st) name)"
    using fpindex.label_vals_set [OF ord idx, of name] unfolding values_of_def by blast
  then show ?thesis using st by (auto simp: Ingester_LabelValues_def)
qed

section \<open>Histories of calls\<close>

datatype call = Push string "Sample list" | Ask string Time Time "LabelMatcher list" | Values string LabelName
datatype result = Pushed "err option" | Answer Matrix | ValueList "LabelValue list" | Failed err

definition run_call :: "'c chunk_impl \<Rightarrow> schedule \<Rightarrow> call \<Rightarrow> 'c Ingester \<Rightarrow> (result \<times> 'c Ingester) go" where
  "run_call I ord c i =
     (case c of
        Push u samples \<Rightarrow> bind_go (Ingester_Append I ord (WithID Background u) samples i) (\<lambda>(e, i'). Ret (Pushed e, i'))
      | Ask u a b ms \<Rightarrow> bind_go (Ingester_Query I ord (WithID Background u) a b ms i)
          (\<lambda>r. case r of Inl e \<Rightarrow> Ret (Failed e, i) | Inr (M, i') \<Rightarrow> Ret (Answer M, i'))
      | Values u name \<Rightarrow> bind_go (Ingester_LabelValues ord (WithID Background u) name i)
          (\<lambda>r. case r of Inl e \<Rightarrow> Ret (Failed e, i) | Inr (vs, i') \<Rightarrow> Ret (ValueList vs, i')))"

fun run_calls :: "'c chunk_impl \<Rightarrow> schedule \<Rightarrow> call list \<Rightarrow> 'c Ingester \<Rightarrow> (result list \<times> 'c Ingester) go" where
  "run_calls I ord [] i = Ret ([], i)"
| "run_calls I ord (c # cs) i =
     bind_go (run_call I ord c i) (\<lambda>(r, i'). bind_go (run_calls I ord cs i') (\<lambda>(rs, i''). Ret (r # rs, i'')))"

fun abs_append_all :: "string \<Rightarrow> Sample list \<Rightarrow> abs_store \<Rightarrow> err option \<times> abs_store" where
  "abs_append_all u [] A = (None, A)"
| "abs_append_all u (s # ss) A =
     (case abs_append u s A of (Some e, A') \<Rightarrow> (Some e, A') | (None, A') \<Rightarrow> abs_append_all u ss A')"

text \<open>What the results of a history have to be.\<close>

fun abs_results :: "abs_store \<Rightarrow> call list \<Rightarrow> result list \<Rightarrow> bool" where
  "abs_results A [] [] \<longleftrightarrow> True"
| "abs_results A (Push u ss # cs) (Pushed e # rs) \<longleftrightarrow> e = fst (abs_append_all u ss A) \<and> abs_results (snd (abs_append_all u ss A)) cs rs"
| "abs_results A (Ask u a b ms # cs) (Answer M # rs) \<longleftrightarrow> answer A u a b ms M \<and> abs_results A cs rs"
| "abs_results A (Values u name # cs) (ValueList vs # rs) \<longleftrightarrow> values_of A u name vs \<and> abs_results A cs rs"
| "abs_results A cs rs \<longleftrightarrow> False"

fun valid_call :: "call \<Rightarrow> bool" where
  "valid_call (Push u ss) \<longleftrightarrow> (\<forall>s\<in>set ss. valid_sample s)"
| "valid_call c \<longleftrightarrow> True"

lemma Ingester_Append_ok:
  assumes "chunk_laws I" "fair ord" "ingester_ok I i" "\<not> ing_stopped i" "\<forall>s\<in>set ss. valid_sample s"
  shows "Ingester_Append I ord (WithID ctx u) ss i = Panic exhausted \<and> headroom i u < length ss \<or>
    (\<exists>i'. Ingester_Append I ord (WithID ctx u) ss i = Ret (fst (abs_append_all u ss (ing_samples I i)), i') \<and> ingester_ok I i' \<and>
       \<not> ing_stopped i' \<and> ing_samples I i' = snd (abs_append_all u ss (ing_samples I i)) \<and> (\<forall>u'. headroom i u' \<le> headroom i' u' + length ss))"
  using assms(3-5)
proof (induction ss arbitrary: i)
  case (Cons s ss)
  consider (panic) "ingester_append I ord (WithID ctx u) s i = Panic exhausted" "headroom i u = 0"
    | (ret) e i' A where "ingester_append I ord (WithID ctx u) s i = Ret (e, i')" "abs_append u s (ing_samples I i) = (e, A)" "ingester_ok I i'"
      "\<not> ing_stopped i'" "ing_samples I i' = A" "\<forall>u'. headroom i u' \<le> headroom i' u' + 1"
    using ingester_append_ok [OF assms(1,2) Cons.prems(1,2), of s] Cons.prems(3) by (metis list.set_intros(1) prod.collapse)
  then show ?case
  proof cases
    case panic
    then show ?thesis by simp
  next
    case ret
    show ?thesis
    proof (cases e)
      case None
      have eq: "Ingester_Append I ord (WithID ctx u) (s # ss) i = Ingester_Append I ord (WithID ctx u) ss i'"
        "abs_append_all u (s # ss) (ing_samples I i) = abs_append_all u ss (ing_samples I i')"
        using None ret(1,2,5) by simp_all
      have "\<forall>s\<in>set ss. valid_sample s" using Cons.prems(3) by simp
      from Cons.IH [OF ret(3,4) this] show ?thesis
      proof (elim disjE exE conjE)
        assume "headroom i' u < length ss" "Ingester_Append I ord (WithID ctx u) ss i' = Panic exhausted"
        then show ?thesis using eq(1) ret(6) [rule_format, of u] by simp
      next
        fix j assume j: "Ingester_Append I ord (WithID ctx u) ss i' = Ret (fst (abs_append_all u ss (ing_samples I i')), j)" "ingester_ok I j"
          "\<not> ing_stopped j" "ing_samples I j = snd (abs_append_all u ss (ing_samples I i'))" "\<forall>u'. headroom i' u' \<le> headroom j u' + length ss"
        have "headroom i u' \<le> headroom j u' + length (s # ss)" for u' using ret(6) [rule_format, of u'] j(5) [rule_format, of u'] by simp
        then show ?thesis unfolding eq using j by blast
      qed
    next
      case (Some x)
      have "headroom i u' \<le> headroom i' u' + length (s # ss)" for u' using ret(6) [rule_format, of u'] by simp
      then show ?thesis using Some ret by simp
    qed
  qed
qed simp

text \<open>The number of samples that a history pushes.\<close>

definition pushed :: "call list \<Rightarrow> nat" where
  "pushed cs = sum_list (map (\<lambda>c. case c of Push u ss \<Rightarrow> length ss | _ \<Rightarrow> 0) cs)"

lemma run_calls_ok:
  assumes "chunk_laws I" "fair ord" "ingester_ok I i" "\<not> ing_stopped i" "\<forall>c\<in>set cs. valid_call c"
  shows "run_calls I ord cs i = Panic exhausted \<and> (\<exists>u. headroom i u < pushed cs) \<or> (\<exists>rs i'. run_calls I ord cs i = Ret (rs, i') \<and> abs_results (ing_samples I i) cs rs)"
  using assms(3-5)
proof (induction cs arbitrary: i)
  case (Cons c cs)
  let ?n = "case c of Push u ss \<Rightarrow> length ss | _ \<Rightarrow> 0"
  have n: "pushed (c # cs) = ?n + pushed cs" by (simp add: pushed_def)
  consider (panic) u where "run_call I ord c i = Panic exhausted" "headroom i u < ?n"
    | (ret) r i' where "run_call I ord c i = Ret (r, i')" "ingester_ok I i'" "\<not> ing_stopped i'" "\<forall>u'. headroom i u' \<le> headroom i' u' + ?n"
      "\<And>rs. abs_results (ing_samples I i) (c # cs) (r # rs) \<longleftrightarrow> abs_results (ing_samples I i') cs rs"
  proof (cases c)
    case (Push u ss)
    then have "\<forall>s\<in>set ss. valid_sample s" using Cons.prems(3) by simp
    from Ingester_Append_ok [OF assms(1,2) Cons.prems(1,2) this, of Background u] show ?thesis
      using panic ret Push by (auto simp: run_call_def)
  next
    case (Ask u a b ms)
    from Ingester_Query_ok [OF assms(2) Cons.prems(1), of Background u a b ms] show ?thesis
      using ret Ask Cons.prems(2) by (auto simp: run_call_def)
  next
    case (Values u name)
    from Ingester_LabelValues_ok [OF assms(2) Cons.prems(1), of Background u name] show ?thesis
      using ret Values Cons.prems(2) by (auto simp: run_call_def)
  qed
  then show ?case
  proof cases
    case panic
    then have "headroom i u < pushed (c # cs)" using n by simp
    then show ?thesis using panic(1) by auto
  next
    case ret
    have "\<forall>c\<in>set cs. valid_call c" using Cons.prems(3) by simp
    from Cons.IH [OF ret(2,3) this] show ?thesis
    proof (elim disjE exE conjE)
      fix u assume "run_calls I ord cs i' = Panic exhausted" "headroom i' u < pushed cs"
      moreover have "headroom i u < pushed (c # cs)" using calculation(2) n ret(4) [rule_format, of u] by simp
      ultimately show ?thesis using ret(1) by auto
    next
      fix rs j assume "run_calls I ord cs i' = Ret (rs, j)" "abs_results (ing_samples I i') cs rs"
      then show ?thesis using ret(1,5) by auto
    qed
  qed
qed simp

section \<open>The ingester answers like its specification\<close>

lemma ingester_ok_new: "ingester_ok I (NewIngester cfg)" "ing_samples I (NewIngester cfg) = (\<lambda>u m. [])" "\<not> ing_stopped (NewIngester cfg)"
    "headroom (NewIngester cfg) u = 1048576"
  by (simp_all add: NewIngester_def ingester_ok_def ing_samples_def fun_eq_iff headroom_def)

text \<open>An encoding that keeps two samples in a chunk, and writes them as text.\<close>

definition sample_text :: "SamplePair \<Rightarrow> string" where
  "sample_text v = (if sp_Timestamp v < 0 then CHR ''-'' else CHR ''+'') # show_nat (nat \<bar>sp_Timestamp v\<bar>) @ CHR '':'' # show_nat (unat (sp_Value v))"

definition read_sample :: "string \<Rightarrow> SamplePair" where
  "read_sample s =
     (let parts = split_on CHR '':'' (tl s); t = int (digits_val (parts ! 0))
      in \<lparr>sp_Timestamp = (if hd s = CHR ''-'' then - t else t), sp_Value = of_nat (digits_val (parts ! 1))\<rparr>)"

definition pair_decode :: "bytes \<Rightarrow> SamplePair list" where
  "pair_decode b = (if b = [] then [] else map read_sample (split_on CHR '';'' b))"

definition pair_chunk :: "SamplePair list chunk_impl" where
  "pair_chunk = \<lparr>newChunk = [], ch_add = (\<lambda>v c. Inr (if length c < 2 then [c @ [v]] else [c, [v]])),
     ch_firstTime = (\<lambda>c. sp_Timestamp (hd c)), ch_samples = (\<lambda>c. c), ch_err = (\<lambda>c. None),
     ch_marshal = (\<lambda>c. Inr (strings_Join '';'' (map sample_text c)))\<rparr>"

lemma show_nat_no_separator: "CHR '':'' \<notin> set (show_nat n)" "CHR '';'' \<notin> set (show_nat n)"
  using show_nat_digits [of "CHR '':''" n] show_nat_digits [of "CHR '';''" n] by auto

lemma read_sample_text: "read_sample (sample_text v) = v"
proof -
  have "split_on CHR '':'' (tl (sample_text v)) = [show_nat (nat \<bar>sp_Timestamp v\<bar>), show_nat (unat (sp_Value v))]"
    using show_nat_no_separator(1) by (simp add: sample_text_def split_on_prefix split_on_none)
  then show ?thesis by (simp add: read_sample_def sample_text_def show_nat_reads Let_def)
qed

lemma pair_decode_text: "pair_decode (strings_Join '';'' (map sample_text vs)) = vs"
proof (cases "vs = []")
  case False
  have "CHR '';'' \<notin> set (sample_text v)" for v using show_nat_no_separator(2) by (auto simp: sample_text_def)
  then have "split_on CHR '';'' (strings_Join '';'' (map sample_text vs)) = map sample_text vs"
    using False by (intro split_on_Join) auto
  moreover have "strings_Join '';'' (map sample_text vs) \<noteq> []" using False calculation by (cases vs) (auto simp: sample_text_def)
  ultimately show ?thesis by (simp add: pair_decode_def read_sample_text comp_def)
qed (simp add: pair_decode_def)

lemma pair_chunk_laws: "chunk_laws pair_chunk"
  by (auto simp: chunk_laws_def pair_chunk_def sound_chunk_def)


text \<open>Two users, an out of order sample, and a query.\<close>

definition sample_calls :: "call list" where
  "sample_calls =
     [Push ''u'' [\<lparr>s_Metric = [(''a'', ''x'')], s_Value = 1, s_Timestamp = 5\<rparr>, \<lparr>s_Metric = [(''a'', ''x'')], s_Value = 2, s_Timestamp = 3\<rparr>],
      Push ''v'' [\<lparr>s_Metric = [(''a'', ''x'')], s_Value = 3, s_Timestamp = 7\<rparr>],
      Ask ''u'' 0 10 [\<lparr>m_Type = Equal, m_Name = ''a'', m_Value = ''x'', m_re = (\<lambda>v. True)\<rparr>], Values ''v'' ''a'']"


lemma samplesForRange_empty: "chunkDescs s = [] \<Longrightarrow> samplesForRange I s a b = Panic ''index out of range''"
  using gosearch.search_le [of 0 "\<lambda>i. After (chunkFirstTime (chunkDescs s ! i)) a"] by (simp add: samplesForRange_def Let_def)

lemma newMemorySeries_chunks: "chunkDescs (newMemorySeries m) = []"
  by (simp add: newMemorySeries_def)

lemma new_user_series:
  assumes m: "good_metric m" and ord: "fair ord"
  shows "\<exists>fp st. getOrCreateSeries ord m (new_userState u) = Ret (fp, newMemorySeries m, st) \<and>
    map_of (fpToSeries st) fp = Some (newMemorySeries m) \<and> (\<forall>fp'. fp' \<noteq> fp \<longrightarrow> map_of (fpToSeries st) fp' = None) \<and>
    index_of (us_index st) (series_metrics st)"
proof -
  let ?st = "new_userState u :: 'a userState"
  have M: "us_mapper ?st = newFPMapper" "fpToSeries ?st = []" "series_metrics ?st = Map.empty"
    by (simp_all add: new_userState_def series_metrics_def fun_eq_iff)
  have "highestMappedFP newFPMapper \<noteq> maxMappedFP" by (simp add: newFPMapper_def maxMappedFP_def push_bit_eq_mult)
  then have "getOrCreateSeries ord m ?st \<noteq> Panic exhausted"
    using mapFP_unique [OF mapper_inv_new m] M by (auto simp: getOrCreateSeries_def Let_def)
  then obtain fp s st where st: "getOrCreateSeries ord m ?st = Ret (fp, s, st)" "map_of (fpToSeries st) fp = Some s"
    "wf_series undefined s \<or> s = newMemorySeries m" "memory_samples undefined s = user_samples undefined ?st m"
    "\<forall>fp'. fp' \<noteq> fp \<longrightarrow> map_of (fpToSeries st) fp' = None" "index_of (us_index st) (series_metrics st)"
    using getOrCreateSeries_ok [OF user_ok_new m ord, of u undefined] M(2) by auto
  have "user_samples undefined ?st m = []" using M(2) by (simp add: user_samples_def)
  then have "s = newMemorySeries m" using st(3,4) memory_nonempty by metis
  with st show ?thesis by blast
qed

text \<open>
  A sample with the earliest time is never stored, and it breaks the ingester. A push of it to
  a new series is refused as a duplicate, but the series stays, without any chunk; a later query
  that all_match it panics in \<open>samplesForRange\<close>, which reads the last chunk descriptor.
\<close>

lemma earliest_sample_panics:
  assumes "good_metric m" "drop_empty m = m" "ms \<noteq> []" "all_match ms m" "fair ord"
  shows "run_calls I ord [Push u [\<lparr>s_Metric = m, s_Value = v, s_Timestamp = Earliest\<rparr>], Ask u a b ms] (NewIngester cfg) =
    Panic ''index out of range''"
proof -
  let ?st = "new_userState u :: 'a userState" and ?sample = "\<lparr>s_Metric = m, s_Value = v, s_Timestamp = Earliest\<rparr>"
  let ?i = "NewIngester cfg :: 'a Ingester" and ?s = "newMemorySeries m :: 'a memorySeries"
  obtain fp st where st: "getOrCreateSeries ord m ?st = Ret (fp, ?s, st)" "map_of (fpToSeries st) fp = Some ?s"
    "\<forall>fp'. fp' \<noteq> fp \<longrightarrow> map_of (fpToSeries st) fp' = None" "index_of (us_index st) (series_metrics st)"
    using new_user_series [OF assms(1,5)] by blast
  define i where "i = put_user u (put_series fp ?s st) (put_user u ?st ?i)"
  have i: "map_of (ing_users i) u = Some (put_series fp ?s st)" by (simp add: i_def put_user_def update_conv')
  have push: "Ingester_Append I ord (WithID Background u) [?sample] ?i = Ret (Some ErrDuplicateSampleForTimestamp, i)"
    using st(1) assms(2) by (simp add: ingester_append_def getStateFor_def NewIngester_def append_series_def newMemorySeries_def i_def)
  have S: "series_metrics st = [fp \<mapsto> m]" using st(2,3) by (auto simp: series_metrics_def newMemorySeries_def)
  have "sorted_wrt (<) (index_lookup ord (us_index st) ms) \<and> set (index_lookup ord (us_index st) ms) = {fp}"
    using fpindex.lookup_set [OF assms(5) st(4) assms(3)] assms(4) unfolding S by auto
  then have "index_lookup ord (us_index st) ms = [fp]" by (intro strict_sorted_equal) auto
  then have "Ingester_Query I ord (WithID Background u) a b ms i = Panic ''index out of range''"
    using i by (simp add: Ingester_Query_def getStateFor_def put_series_def update_conv' samplesForRange_empty [OF newMemorySeries_chunks])
  then show ?thesis using push by (simp add: run_call_def)
qed

end
