(* ===== verification/Ingester_Flush.thy ===== *)
theory Ingester_Flush
  imports Ingester_Storage Chunk_Sets
begin

text \<open>
  Flushing of the ingester (\<open>storage/local/frankenstein.go\<close>): \<open>flushSeries\<close> chooses the chunks of a
  series under its lock, writes them to the chunk store without the lock, and removes them under
  the lock again. The chunk store is an argument, the interface \<open>frank.Store\<close> of the source. Flushes
  of one series, appends in between included, are a step relation. \<open>Ingester_Shutdown\<close> has the loops over
  series and users.
\<close>

section \<open>Flushing a series\<close>

text \<open>\<open>time.Now().Sub(t.Time())\<close> in nanoseconds; \<open>Sub\<close> saturates.\<close>

definition age :: "int \<Rightarrow> Time \<Rightarrow> int" where
  "age now t = max (- 9223372036854775808) (min 9223372036854775807 (now - t * 1000000))"

definition close_head :: "'c chunk_impl \<Rightarrow> 'c memorySeries \<Rightarrow> 'c memorySeries go" where
  "close_head I s =
     (if chunkDescs s = [] then Panic ''index out of range''
      else Ret (s\<lparr>headChunkClosed := True, chunkDescs := butlast (chunkDescs s) @ [maybePopulateLastTime I (last (chunkDescs s))]\<rparr>))"

definition flush_choose :: "'c chunk_impl \<Rightarrow> IngesterConfig \<Rightarrow> int \<Rightarrow> bool \<Rightarrow> 'c memorySeries \<Rightarrow> ('c chunkDesc list \<times> 'c memorySeries) go" where
  "flush_choose I cfg now immediate s =
     bind_go (if immediate \<or> age now (ms_firstTime s) > MaxChunkAge cfg then close_head I s else Ret s) (\<lambda>s1.
       if headChunkClosed s1 then Ret (chunkDescs s1, s1)
       else if chunkDescs s1 = [] then Panic ''slice bounds out of range''
       else Ret (butlast (chunkDescs s1), s1))"

definition wire_chunk :: "fingerprint \<Rightarrow> metric \<Rightarrow> 'c chunkDesc \<Rightarrow> bytes \<Rightarrow> Chunk" where
  "wire_chunk fp m cd buf =
     \<lparr>ID = show_int (uint fp) @ '':'' @ show_int (chunkFirstTime cd) @ '':'' @ show_int (chunkLastTime cd),
      From = chunkFirstTime cd, Through = chunkLastTime cd, Metric = m, Data = buf\<rparr>"

fun wire_chunks :: "'c chunk_impl \<Rightarrow> fingerprint \<Rightarrow> metric \<Rightarrow> 'c chunkDesc list \<Rightarrow> err + Chunk list" where
  "wire_chunks I fp m [] = Inr []"
| "wire_chunks I fp m (cd # cds) =
     (case ch_marshal I (cd_c cd) of
        Inl e \<Rightarrow> Inl e
      | Inr buf \<Rightarrow> (case wire_chunks I fp m cds of Inl e \<Rightarrow> Inl e | Inr ws \<Rightarrow> Inr (wire_chunk fp m cd buf # ws)))"

type_synonym 's putter = "Context \<Rightarrow> Chunk list \<Rightarrow> 's \<Rightarrow> (err option \<times> 's) go"

definition flushChunks :: "'c chunk_impl \<Rightarrow> 's putter \<Rightarrow> Context \<Rightarrow> fingerprint \<Rightarrow> metric \<Rightarrow> 'c chunkDesc list \<Rightarrow> 's \<Rightarrow> (err option \<times> 's) go" where
  "flushChunks I put ctx fp m chunks w =
     (case wire_chunks I fp m chunks of Inl e \<Rightarrow> Ret (Some e, w) | Inr wireChunks \<Rightarrow> put ctx wireChunks w)"

text \<open>\<open>n\<close> chunks have been written, \<open>n - 1\<close> are removed.\<close>

definition flush_remove :: "nat \<Rightarrow> 'c memorySeries \<Rightarrow> 'c memorySeries go" where
  "flush_remove n s =
     (if n - 1 \<le> length (chunkDescs s) then Ret (s\<lparr>chunkDescs := drop (n - 1) (chunkDescs s)\<rparr>)
      else Panic ''slice bounds out of range'')"

section \<open>Flushes of a series among appends\<close>

text \<open>
  One series object: whether it is in the map of series, the state of the store, and what the
  goroutines that flush it have done. \<open>fl_accepted\<close> is what clients have been told is stored.
\<close>

datatype 'c flush_task = Chosen "'c chunkDesc list" | Written nat | Flushed

record ('c, 's) flushing =
  fl_series :: "'c memorySeries"
  fl_live :: bool
  fl_store :: 's
  fl_tasks :: "'c flush_task list"
  fl_accepted :: "SamplePair list"

definition fl_init :: "metric \<Rightarrow> 's \<Rightarrow> ('c, 's) flushing" where
  "fl_init m w = \<lparr>fl_series = newMemorySeries m, fl_live = True, fl_store = w, fl_tasks = [], fl_accepted = []\<rparr>"

definition fl_appended :: "Sample \<Rightarrow> err option \<Rightarrow> 'c memorySeries \<Rightarrow> ('c, 's) flushing \<Rightarrow> ('c, 's) flushing" where
  "fl_appended sample e s x =
     x\<lparr>fl_series := s, fl_accepted := (if e = None then snd (abs_add sample (fl_accepted x)) else fl_accepted x)\<rparr>"

definition fl_chosen :: "'c chunkDesc list \<Rightarrow> 'c memorySeries \<Rightarrow> ('c, 's) flushing \<Rightarrow> ('c, 's) flushing" where
  "fl_chosen chunks s x = x\<lparr>fl_series := s, fl_tasks := fl_tasks x @ [if chunks = [] then Flushed else Chosen chunks]\<rparr>"

definition fl_written :: "nat \<Rightarrow> 'c chunkDesc list \<Rightarrow> err option \<Rightarrow> 's \<Rightarrow> ('c, 's) flushing \<Rightarrow> ('c, 's) flushing" where
  "fl_written k chunks e w x = x\<lparr>fl_store := w, fl_tasks := (fl_tasks x)[k := if e = None then Written (length chunks) else Flushed]\<rparr>"

definition fl_removed :: "nat \<Rightarrow> 'c memorySeries \<Rightarrow> ('c, 's) flushing \<Rightarrow> ('c, 's) flushing" where
  "fl_removed k s x = x\<lparr>fl_series := s, fl_live := (fl_live x \<and> chunkDescs s \<noteq> []), fl_tasks := (fl_tasks x)[k := Flushed]\<rparr>"

inductive fl_step :: "bool \<Rightarrow> 'c chunk_impl \<Rightarrow> 's putter \<Rightarrow> IngesterConfig \<Rightarrow> string \<Rightarrow> fingerprint \<Rightarrow> ('c, 's) flushing \<Rightarrow> ('c, 's) flushing \<Rightarrow> bool"
  for overlap I put cfg u fp where
  fl_append: "fl_live x \<Longrightarrow> append_series I sample (fl_series x) = Ret (e, s) \<Longrightarrow>
    fl_step overlap I put cfg u fp x (fl_appended sample e s x)"
| fl_choose: "overlap \<or> (\<forall>t\<in>set (fl_tasks x). t = Flushed) \<Longrightarrow> flush_choose I cfg now immediate (fl_series x) = Ret (chunks, s) \<Longrightarrow>
    fl_step overlap I put cfg u fp x (fl_chosen chunks s x)"
| fl_write: "k < length (fl_tasks x) \<Longrightarrow> fl_tasks x ! k = Chosen chunks \<Longrightarrow>
    flushChunks I put (WithID Background u) fp (ms_metric (fl_series x)) chunks (fl_store x) = Ret (e, w) \<Longrightarrow>
    fl_step overlap I put cfg u fp x (fl_written k chunks e w x)"
| fl_remove: "k < length (fl_tasks x) \<Longrightarrow> fl_tasks x ! k = Written n \<Longrightarrow> flush_remove n (fl_series x) = Ret s \<Longrightarrow>
    fl_step overlap I put cfg u fp x (fl_removed k s x)"

definition fl_reach :: "bool \<Rightarrow> 'c chunk_impl \<Rightarrow> 's putter \<Rightarrow> IngesterConfig \<Rightarrow> string \<Rightarrow> fingerprint \<Rightarrow> ('c, 's) flushing \<Rightarrow> ('c, 's) flushing \<Rightarrow> bool" where
  "fl_reach overlap I put cfg u fp = (fl_step overlap I put cfg u fp)\<^sup>*\<^sup>*"

text \<open>What is relied on of the chunk store: it keeps what it has, and a put without error is kept.\<close>

definition store_keeps :: "(string \<Rightarrow> 's \<Rightarrow> Chunk set) \<Rightarrow> 's putter \<Rightarrow> bool" where
  "store_keeps kept put \<longleftrightarrow> (\<forall>u cs w e w'. put (WithID Background u) cs w = Ret (e, w') \<longrightarrow>
     (\<forall>u'. kept u' w \<subseteq> kept u' w') \<and> (e = None \<longrightarrow> set cs \<subseteq> kept u w'))"

text \<open>
  A sample of a metric is in the store if a chunk of the metric there decodes to a list with it.
  Decoding, which the querier does, gives the samples of a chunk back.
\<close>

definition in_chunks :: "(bytes \<Rightarrow> SamplePair list) \<Rightarrow> metric \<Rightarrow> Chunk set \<Rightarrow> SamplePair \<Rightarrow> bool" where
  "in_chunks dec m C v \<longleftrightarrow> (\<exists>c\<in>C. Metric c = m \<and> v \<in> set (dec (Data c)))"

definition decodes :: "'c chunk_impl \<Rightarrow> (bytes \<Rightarrow> SamplePair list) \<Rightarrow> bool" where
  "decodes I dec \<longleftrightarrow> (\<forall>c b. ch_marshal I c = Inr b \<longrightarrow> dec b = ch_samples I c)"

lemma in_chunks_mono: "in_chunks dec m C v \<Longrightarrow> C \<subseteq> D \<Longrightarrow> in_chunks dec m D v"
  by (auto simp: in_chunks_def)

lemma wire_chunks_mem:
  assumes "wire_chunks I fp m cds = Inr ws" "cd \<in> set cds"
  shows "\<exists>buf. ch_marshal I (cd_c cd) = Inr buf \<and> wire_chunk fp m cd buf \<in> set ws"
  using assms by (induction cds arbitrary: ws) (auto split: sum.splits)

lemma wire_chunks_only:
  assumes "wire_chunks I fp m cds = Inr ws" "c \<in> set ws"
  shows "\<exists>cd buf. cd \<in> set cds \<and> c = wire_chunk fp m cd buf"
  using assms
proof (induction cds arbitrary: ws)
  case (Cons x cds)
  then obtain buf ws' where "wire_chunks I fp m cds = Inr ws'" "ws = wire_chunk fp m x buf # ws'" by (auto split: sum.splits)
  then show ?case using Cons.IH [of ws'] Cons.prems(2) by auto
qed simp

lemma flushChunks_kept:
  assumes "store_keeps kept put" "flushChunks I put (WithID Background u) fp m cds w = Ret (e, w')" "decodes I dec"
  shows "kept u' w \<subseteq> kept u' w'"
    and "e = None \<Longrightarrow> cd \<in> set cds \<Longrightarrow> v \<in> set (cd_samples I cd) \<Longrightarrow> in_chunks dec m (kept u w') v"
proof -
  show "kept u' w \<subseteq> kept u' w'"
  proof (cases "wire_chunks I fp m cds")
    case (Inr ws)
    then have "put (WithID Background u) ws w = Ret (e, w')" using assms(2) by (simp add: flushChunks_def)
    then show ?thesis using assms(1) unfolding store_keeps_def by blast
  qed (use assms(2) in \<open>simp add: flushChunks_def\<close>)
  assume e: "e = None" "cd \<in> set cds" and v: "v \<in> set (cd_samples I cd)"
  obtain ws where ws: "wire_chunks I fp m cds = Inr ws" "put (WithID Background u) ws w = Ret (e, w')"
    using assms(2) e(1) by (cases "wire_chunks I fp m cds") (simp_all add: flushChunks_def)
  then have "set ws \<subseteq> kept u w'" using assms(1) e(1) unfolding store_keeps_def by blast
  moreover obtain buf where "ch_marshal I (cd_c cd) = Inr buf" "wire_chunk fp m cd buf \<in> set ws"
    using wire_chunks_mem [OF ws(1) e(2)] by blast
  moreover have "v \<in> set (dec buf)" using calculation(2) assms(3) v by (simp add: decodes_def cd_samples_def)
  ultimately show "in_chunks dec m (kept u w') v"
    unfolding in_chunks_def by (intro bexI [of _ "wire_chunk fp m cd buf"]) (auto simp: wire_chunk_def)
qed

section \<open>The invariant\<close>

lemma close_head_ok:
  assumes "wf_series I s"
  shows "\<exists>s'. close_head I s = Ret s' \<and> wf_series I s' \<and> headChunkClosed s' \<and> memory_samples I s' = memory_samples I s \<and>
    ms_metric s' = ms_metric s \<and> length (chunkDescs s') = length (chunkDescs s)"
proof -
  obtain cds h where cds: "chunkDescs s = cds @ [h]" using assms by (cases "chunkDescs s" rule: rev_cases) (simp_all add: wf_series_def)
  let ?s = "s\<lparr>headChunkClosed := True, chunkDescs := cds @ [maybePopulateLastTime I h]\<rparr>"
  have h: "wf_desc_chunk I (headChunkClosed s) h" "h \<in> set (chunkDescs s)" using assms cds by (simp_all add: wf_series_def)
  have same: "cd_c (maybePopulateLastTime I h) = cd_c h" by (simp add: maybePopulateLastTime_def split: sum.split)
  have "wf_desc_chunk I True (maybePopulateLastTime I h)"
  proof (cases "headChunkClosed s")
    case True
    have "last (cd_samples I h) \<in> set (memory_samples I s)"
      using last_in_set [OF wf_series_chunk(3) [OF assms h(2)]] h(2) by (auto simp: memory_samples_def)
    then have "chunkLastTime h \<noteq> Earliest" using assms h(1) True by (auto simp: wf_series_def wf_desc_chunk_def)
    then show ?thesis using h(1) True by (simp add: maybePopulateLastTime_def)
  next
    case False
    then show ?thesis using h(1) by (intro populated(1)) (simp_all add: wf_desc_chunk_def)
  qed
  moreover have mem: "memory_samples I ?s = memory_samples I s" using same by (simp add: memory_samples_def cd_samples_def cds)
  ultimately have "wf_series I ?s" using assms unfolding wf_series_def mem by (simp add: cds)
  then show ?thesis using mem cds by (intro exI [of _ ?s]) (simp add: close_head_def)
qed

text \<open>The first \<open>n\<close> chunks are not changed any more.\<close>

definition closed_prefix :: "nat \<Rightarrow> 'c memorySeries \<Rightarrow> bool" where
  "closed_prefix n s \<longleftrightarrow> n \<le> length (chunkDescs s) \<and> (n = length (chunkDescs s) \<longrightarrow> headChunkClosed s)"

lemma flush_choose_ok:
  assumes "wf_series I s"
  shows "\<exists>chunks s'. flush_choose I cfg now immediate s = Ret (chunks, s') \<and> wf_series I s' \<and> memory_samples I s' = memory_samples I s \<and>
    ms_metric s' = ms_metric s \<and> closed_prefix (length chunks) s' \<and> chunks = take (length chunks) (chunkDescs s') \<and>
    (immediate \<longrightarrow> chunks = chunkDescs s')"
proof -
  have step: "\<exists>chunks s'. bind_go (Ret s1) (\<lambda>s1. if headChunkClosed s1 then Ret (chunkDescs s1, s1)
       else if chunkDescs s1 = [] then Panic ''slice bounds out of range'' else Ret (butlast (chunkDescs s1), s1)) = Ret (chunks, s') \<and>
     s' = s1 \<and> closed_prefix (length chunks) s' \<and> chunks = take (length chunks) (chunkDescs s') \<and> (headChunkClosed s1 \<longrightarrow> chunks = chunkDescs s')"
    if wf: "wf_series I s1" for s1
  proof (cases "headChunkClosed s1")
    case False
    obtain cds h where "chunkDescs s1 = cds @ [h]" using wf by (cases "chunkDescs s1" rule: rev_cases) (simp_all add: wf_series_def)
    then show ?thesis using False by (simp add: closed_prefix_def)
  qed (simp add: closed_prefix_def)
  obtain s1 where s1: "close_head I s = Ret s1" "wf_series I s1" "headChunkClosed s1" "memory_samples I s1 = memory_samples I s" "ms_metric s1 = ms_metric s"
    using close_head_ok [OF assms] by blast
  show ?thesis
  proof (cases "immediate \<or> age now (ms_firstTime s) > MaxChunkAge cfg")
    case True
    then show ?thesis using step [OF s1(2)] s1 unfolding flush_choose_def by (simp only: if_True) metis
  next
    case False
    then show ?thesis using step [OF assms] assms unfolding flush_choose_def by (simp only: if_False) metis
  qed
qed

lemma flush_choose_new: "flush_choose I cfg now immediate (newMemorySeries m) = Ret r \<Longrightarrow> False"
  by (auto simp: flush_choose_def close_head_def newMemorySeries_def split: if_splits)

lemma wf_series_drop:
  assumes "wf_series I s" "k < length (chunkDescs s)"
  shows "wf_series I (s\<lparr>chunkDescs := drop k (chunkDescs s)\<rparr>)"
    and "memory_samples I s = concat (map (cd_samples I) (take k (chunkDescs s))) @ memory_samples I (s\<lparr>chunkDescs := drop k (chunkDescs s)\<rparr>)"
proof -
  let ?s = "s\<lparr>chunkDescs := drop k (chunkDescs s)\<rparr>"
  show mem: "memory_samples I s = concat (map (cd_samples I) (take k (chunkDescs s))) @ memory_samples I ?s"
    unfolding memory_samples_def by simp (metis append_take_drop_id concat_append map_append)
  have ne: "drop k (chunkDescs s) \<noteq> []" using assms(2) by simp
  then have "hd (drop k (chunkDescs s)) \<in> set (chunkDescs s)" by (meson in_set_dropD hd_in_set)
  then have "cd_samples I (hd (drop k (chunkDescs s))) \<noteq> []" by (rule wf_series_chunk(3) [OF assms(1)])
  then have "memory_samples I ?s \<noteq> []" using ne by (cases "drop k (chunkDescs s)") (simp_all add: memory_samples_def)
  then have l: "last (memory_samples I s) = last (memory_samples I ?s)" unfolding mem by simp
  have "cd \<in> set (butlast (chunkDescs s))" if "cd \<in> set (butlast (drop k (chunkDescs s)))" for cd
    using that by (metis butlast_drop in_set_dropD)
  moreover have "in_time_order (memory_samples I ?s)" "\<forall>v\<in>set (memory_samples I ?s). Earliest < sp_Timestamp v"
    using assms(1) unfolding wf_series_def mem by (auto simp: in_time_order_def sorted_wrt_append)
  moreover have "last (drop k (chunkDescs s)) = last (chunkDescs s)" using assms(2) by simp
  ultimately show "wf_series I ?s" using assms(1) ne unfolding wf_series_def l by simp
qed

lemma series_add_prefix:
  assumes "series_add I v s = Ret (e, s')" "closed_prefix n s"
  shows "n \<le> length (chunkDescs s') \<and> take n (chunkDescs s') = take n (chunkDescs s) \<and> (e = None \<longrightarrow> closed_prefix n s')"
proof -
  define s1 where "s1 = new_head I (sp_Timestamp v) s"
  have s1: "n < length (chunkDescs s1)" "take n (chunkDescs s1) = take n (chunkDescs s)"
    using assms(2) by (auto simp: s1_def new_head_def closed_prefix_def)
  show ?thesis
  proof (cases "ch_add I v (cd_c (last (chunkDescs s1)))")
    case (Inl x)
    then show ?thesis using assms(1) s1 by (auto simp: series_add_def s1_def [symmetric] Let_def)
  next
    case (Inr chunks)
    then have ne: "chunks \<noteq> []" using assms(1) by (auto simp: series_add_def s1_def [symmetric] Let_def)
    let ?new = "(last (chunkDescs s1))\<lparr>cd_c := hd chunks\<rparr> # map (\<lambda>c. newChunkDesc c (ch_firstTime I c)) (tl chunks)"
    have "chunkDescs s' = populate_closed I (length chunks) (butlast (chunkDescs s1) @ ?new)"
      using assms(1) Inr ne by (auto simp: series_add_def s1_def [symmetric] Let_def)
    moreover have "length ?new = length chunks" using ne by (cases chunks) simp_all
    ultimately have cds: "chunkDescs s' = butlast (chunkDescs s1) @ map (maybePopulateLastTime I) (butlast ?new) @ [last ?new]"
      using ne by (simp add: populate_closed_def)
    then have "take n (chunkDescs s') = take n (chunkDescs s1)" "n < length (chunkDescs s')" using s1(1) by (simp_all add: take_butlast)
    then show ?thesis using s1(2) by (simp add: closed_prefix_def)
  qed
qed

lemma series_ok_chunks: "series_ok I s \<Longrightarrow> chunkDescs s \<noteq> [] \<Longrightarrow> wf_series I s"
  by (metis newMemorySeries_chunks series_ok_def)

lemma append_series_keeps:
  assumes laws: "chunk_laws I" and ok: "series_ok I s" and ret: "append_series I sample s = Ret (e, s')"
  shows "series_ok I s' \<and> (wf_series I s \<longrightarrow> wf_series I s') \<and> ms_metric s' = ms_metric s \<and> (closed_prefix n s \<longrightarrow> closed_prefix n s' \<and> take n (chunkDescs s') = take n (chunkDescs s)) \<and>
    (if e = None then memory_samples I s' = snd (abs_add sample (memory_samples I s)) else s' = s)"
proof -
  let ?v = "\<lparr>sp_Timestamp = s_Timestamp sample, sp_Value = s_Value sample\<rparr>"
  consider (add) "ms_lastTime s < s_Timestamp sample" "series_add I ?v s = Ret (e, s')" | (same) "s' = s" "s_Timestamp sample \<le> ms_lastTime s"
    using ret by (auto simp: append_series_def split: if_splits)
  then show ?thesis
  proof cases
    case add
    then have "e = None \<and> wf_series I s' \<and> ms_metric s' = ms_metric s \<and> memory_samples I s' = memory_samples I s @ [?v]"
      using series_add_ok [OF laws ok, of ?v] by auto
    moreover have "memory_samples I s = [] \<or> sp_Timestamp (last (memory_samples I s)) < s_Timestamp sample"
      using ok add(1) by (auto simp: series_ok_def wf_series_def) (metis newMemorySeries_chunks memory_samples_def concat.simps(1) list.map(1))
    ultimately show ?thesis using series_add_prefix [OF add(2)] by (auto simp: series_ok_def abs_add_def Let_def)
  next
    case same
    show ?thesis
    proof (cases e)
      case None
      then have eq: "s_Timestamp sample = ms_lastTime s" "lastSampleValueSet s" "value_Equal (s_Value sample) (lastSampleValue s)"
        using ret same(2) by (auto simp: append_series_def split: if_splits)
      then have "wf_series I s" using ok by (auto simp: series_ok_def) (metis memorySeries.select_convs(6) newMemorySeries_def)
      then have "snd (abs_add sample (memory_samples I s)) = memory_samples I s"
        using eq memory_nonempty by (auto simp: abs_add_def wf_series_def Let_def)
      then show ?thesis using same(1) ok by simp
    qed (use same(1) ok in simp)
  qed
qed

text \<open>
  With one flush at a time: what has been accepted is in memory, or it comes before what is in
  memory and is in the store; and the chunks that a flush is writing, or has written, are the first
  ones of the series.
\<close>

definition task_ok :: "'c chunk_impl \<Rightarrow> (bytes \<Rightarrow> SamplePair list) \<Rightarrow> Chunk set \<Rightarrow> 'c memorySeries \<Rightarrow> 'c flush_task \<Rightarrow> bool" where
  "task_ok I dec C s t =
     (case t of
        Chosen chunks \<Rightarrow> chunks \<noteq> [] \<and> wf_series I s \<and> closed_prefix (length chunks) s \<and> chunks = take (length chunks) (chunkDescs s)
      | Written n \<Rightarrow> 0 < n \<and> wf_series I s \<and> closed_prefix n s \<and>
          (\<forall>cd\<in>set (take n (chunkDescs s)). \<forall>v\<in>set (cd_samples I cd). in_chunks dec (ms_metric s) C v)
      | Flushed \<Rightarrow> True)"

definition fl_inv :: "'c chunk_impl \<Rightarrow> (bytes \<Rightarrow> SamplePair list) \<Rightarrow> (string \<Rightarrow> 's \<Rightarrow> Chunk set) \<Rightarrow> string \<Rightarrow> metric \<Rightarrow> ('c, 's) flushing \<Rightarrow> bool" where
  "fl_inv I dec kept u m x \<longleftrightarrow> series_ok I (fl_series x) \<and> ms_metric (fl_series x) = m \<and> fl_live x \<and>
     (\<exists>pre. fl_accepted x = pre @ memory_samples I (fl_series x) \<and> (\<forall>v\<in>set pre. in_chunks dec m (kept u (fl_store x)) v) \<and>
        (wf_series I (fl_series x) \<or> pre = [])) \<and>
     (\<exists>ts t. fl_tasks x = ts @ [t] \<and> (\<forall>t'\<in>set ts. t' = Flushed) \<and> task_ok I dec (kept u (fl_store x)) (fl_series x) t \<or> fl_tasks x = [])"

lemma task_ok_append:
  assumes "chunk_laws I" "series_ok I s" "append_series I sample s = Ret (e, s')" "task_ok I dec C s t"
  shows "task_ok I dec C s' t"
proof -
  note keep = append_series_keeps [OF assms(1-3)]
  have "wf_series I s'" if "wf_series I s" "closed_prefix n s" "0 < n" for n
    using keep [of n] that by (intro series_ok_chunks) (auto simp: closed_prefix_def)
  then show ?thesis using assms(4) keep by (cases t) (auto simp: task_ok_def)
qed

lemma abs_add_append: "vs \<noteq> [] \<Longrightarrow> snd (abs_add sample (pre @ vs)) = pre @ snd (abs_add sample vs)"
  by (simp add: abs_add_def Let_def)

lemma only_task:
  assumes "fl_tasks x = ts @ [t]" "\<forall>t'\<in>set ts. t' = Flushed" "k < length (fl_tasks x)" "fl_tasks x ! k \<noteq> Flushed"
  shows "k = length ts" "fl_tasks x ! k = t" "(fl_tasks x)[k := t''] = ts @ [t'']"
proof -
  show k: "k = length ts" using assms by (metis length_append_singleton less_antisym nth_append nth_mem)
  then show "fl_tasks x ! k = t" "(fl_tasks x)[k := t''] = ts @ [t'']" using assms(1) by simp_all
qed

lemma fl_inv_init: "fl_inv I dec kept u m (fl_init m w)"
  by (simp add: fl_inv_def fl_init_def series_ok_def newMemorySeries_def memory_samples_def)

lemma fl_inv_append:
  assumes "chunk_laws I" "fl_inv I dec kept u m x" "append_series I sample (fl_series x) = Ret (e, s)"
  shows "fl_inv I dec kept u m (fl_appended sample e s x)"
proof -
  have ok: "series_ok I (fl_series x)" using assms(2) by (simp add: fl_inv_def)
  note keep = append_series_keeps [OF assms(1) ok assms(3)]
  obtain pre where pre: "fl_accepted x = pre @ memory_samples I (fl_series x)" "\<forall>v\<in>set pre. in_chunks dec m (kept u (fl_store x)) v"
    "wf_series I (fl_series x) \<or> pre = []" using assms(2) by (auto simp: fl_inv_def)
  have "(if e = None then snd (abs_add sample (fl_accepted x)) else fl_accepted x) = pre @ memory_samples I s"
    using keep pre(1,3) abs_add_append [of "memory_samples I (fl_series x)" sample pre] memory_nonempty by auto
  moreover have "wf_series I s \<or> pre = []"
    using keep [of 0] pre(3) by blast
  ultimately show ?thesis using assms(2) keep pre(2) task_ok_append [OF assms(1) ok assms(3)] unfolding fl_appended_def fl_inv_def by auto
qed

lemma fl_inv_choose:
  assumes "fl_inv I dec kept u m x" "\<forall>t\<in>set (fl_tasks x). t = Flushed" "flush_choose I cfg now immediate (fl_series x) = Ret (chunks, s)"
  shows "fl_inv I dec kept u m (fl_chosen chunks s x)"
proof -
  have "series_ok I (fl_series x)" using assms(1) by (simp add: fl_inv_def)
  then have wf: "wf_series I (fl_series x)" using assms(3) flush_choose_new by (metis series_ok_def)
  have s: "wf_series I s" "memory_samples I s = memory_samples I (fl_series x)" "ms_metric s = ms_metric (fl_series x)"
    "closed_prefix (length chunks) s" "chunks = take (length chunks) (chunkDescs s)"
    using flush_choose_ok [OF wf, of cfg now immediate] assms(3) by auto
  then have "task_ok I dec (kept u (fl_store x)) s (if chunks = [] then Flushed else Chosen chunks)"
    by (simp add: task_ok_def)
  then show ?thesis using assms(1,2) s unfolding fl_chosen_def fl_inv_def by (auto simp: series_ok_def)
qed

lemma fl_inv_write:
  assumes "store_keeps kept put" "decodes I dec" "fl_inv I dec kept u m x" "k < length (fl_tasks x)" "fl_tasks x ! k = Chosen chunks"
    "flushChunks I put (WithID Background u) fp (ms_metric (fl_series x)) chunks (fl_store x) = Ret (e, w)"
  shows "fl_inv I dec kept u m (fl_written k chunks e w x)"
proof -
  obtain ts t where ts: "fl_tasks x = ts @ [t]" "\<forall>t'\<in>set ts. t' = Flushed" "task_ok I dec (kept u (fl_store x)) (fl_series x) t"
    using assms(3,4) by (auto simp: fl_inv_def)
  have t: "t = Chosen chunks" "\<And>t''. (fl_tasks x)[k := t''] = ts @ [t'']" using only_task [OF ts(1,2) assms(4)] assms(5) by auto
  have m: "ms_metric (fl_series x) = m" using assms(3) by (simp add: fl_inv_def)
  have grow: "kept u (fl_store x) \<subseteq> kept u w" by (rule flushChunks_kept(1) [OF assms(1,6,2)])
  have "task_ok I dec (kept u w) (fl_series x) (if e = None then Written (length chunks) else Flushed)"
    using ts(3) t(1) flushChunks_kept(2) [OF assms(1,6,2)] by (auto simp: task_ok_def)
  moreover have "in_chunks dec m (kept u (fl_store x)) v \<Longrightarrow> in_chunks dec m (kept u w) v" for v
    using in_chunks_mono grow by blast
  ultimately show ?thesis using assms(3) ts(2) unfolding fl_written_def fl_inv_def t(2) by auto
qed

lemma fl_inv_remove:
  assumes "fl_inv I dec kept u m x" "k < length (fl_tasks x)" "fl_tasks x ! k = Written n" "flush_remove n (fl_series x) = Ret s"
  shows "fl_inv I dec kept u m (fl_removed k s x)"
proof -
  obtain ts t where ts: "fl_tasks x = ts @ [t]" "\<forall>t'\<in>set ts. t' = Flushed" "task_ok I dec (kept u (fl_store x)) (fl_series x) t"
    using assms(1,2) by (auto simp: fl_inv_def)
  have t: "t = Written n" "\<And>t''. (fl_tasks x)[k := t''] = ts @ [t'']" using only_task [OF ts(1,2) assms(2)] assms(3) by auto
  let ?cds = "chunkDescs (fl_series x)"
  have task: "0 < n" "wf_series I (fl_series x)" "n \<le> length ?cds"
    "\<forall>cd\<in>set (take n ?cds). \<forall>v\<in>set (cd_samples I cd). in_chunks dec (ms_metric (fl_series x)) (kept u (fl_store x)) v"
    using ts(3) t(1) by (simp_all add: task_ok_def closed_prefix_def)
  have m: "ms_metric (fl_series x) = m" using assms(1) by (simp add: fl_inv_def)
  have s: "s = (fl_series x)\<lparr>chunkDescs := drop (n - 1) ?cds\<rparr>" using assms(4) by (simp add: flush_remove_def split: if_splits)
  have k: "n - 1 < length ?cds" using task(1,3) by simp
  note drop = wf_series_drop [OF task(2) k, folded s]
  obtain pre where pre: "fl_accepted x = pre @ memory_samples I (fl_series x)" "\<forall>v\<in>set pre. in_chunks dec m (kept u (fl_store x)) v"
    using assms(1) by (auto simp: fl_inv_def)
  have "set (take (n - 1) ?cds) \<subseteq> set (take n ?cds)" by (simp add: set_take_subset_set_take)
  then have "\<forall>v\<in>set (pre @ concat (map (cd_samples I) (take (n - 1) ?cds))). in_chunks dec m (kept u (fl_store x)) v"
    using pre(2) task(4) m by auto
  moreover have "fl_accepted x = (pre @ concat (map (cd_samples I) (take (n - 1) ?cds))) @ memory_samples I s"
    using pre(1) drop(2) by simp
  moreover have "chunkDescs s \<noteq> []" "ms_metric s = m" using s k m by simp_all
  ultimately show ?thesis using assms(1) drop(1) ts(2) unfolding fl_removed_def fl_inv_def t(2)
    by (simp add: series_ok_def task_ok_def)
qed

lemma fl_reach_inv:
  assumes "chunk_laws I" "store_keeps kept put" "decodes I dec" "fl_reach False I put cfg u fp (fl_init m w) x"
  shows "fl_inv I dec kept u m x"
  using assms(4) unfolding fl_reach_def
proof (induction rule: rtranclp_induct)
  case base
  show ?case by (rule fl_inv_init)
next
  case (step y z)
  from step.hyps(2) step.IH show ?case
    by cases (auto intro: fl_inv_append [OF assms(1)] fl_inv_choose fl_inv_write [OF assms(2,3)] fl_inv_remove)
qed

text \<open>Runs of the relation, and a store that is a list.\<close>

datatype event = Append_ev Sample | is_Choose: Choose_ev int bool | Write_ev nat | Remove_ev nat

definition fl_event :: "'c chunk_impl \<Rightarrow> 's putter \<Rightarrow> IngesterConfig \<Rightarrow> string \<Rightarrow> fingerprint \<Rightarrow> ('c, 's) flushing \<Rightarrow> event \<Rightarrow> ('c, 's) flushing option" where
  "fl_event I put cfg u fp x ev =
     (case ev of
        Append_ev sample \<Rightarrow>
          (case append_series I sample (fl_series x) of
             Ret (e, s) \<Rightarrow> if fl_live x
               then Some (fl_appended sample e s x) else None
           | _ \<Rightarrow> None)
      | Choose_ev now immediate \<Rightarrow>
          (case flush_choose I cfg now immediate (fl_series x) of
             Ret (chunks, s) \<Rightarrow> Some (fl_chosen chunks s x)
           | _ \<Rightarrow> None)
      | Write_ev k \<Rightarrow>
          if k < length (fl_tasks x) then
            (case fl_tasks x ! k of
               Chosen chunks \<Rightarrow>
                 (case flushChunks I put (WithID Background u) fp (ms_metric (fl_series x)) chunks (fl_store x) of
                    Ret (e, w) \<Rightarrow> Some (fl_written k chunks e w x)
                  | _ \<Rightarrow> None)
             | _ \<Rightarrow> None)
          else None
      | Remove_ev k \<Rightarrow>
          if k < length (fl_tasks x) then
            (case fl_tasks x ! k of
               Written n \<Rightarrow>
                 (case flush_remove n (fl_series x) of
                    Ret s \<Rightarrow> Some (fl_removed k s x)
                  | _ \<Rightarrow> None)
             | _ \<Rightarrow> None)
          else None)"

fun fl_run :: "bool \<Rightarrow> 'c chunk_impl \<Rightarrow> 's putter \<Rightarrow> IngesterConfig \<Rightarrow> string \<Rightarrow> fingerprint \<Rightarrow> event list \<Rightarrow> ('c, 's) flushing \<Rightarrow> ('c, 's) flushing option" where
  "fl_run overlap I put cfg u fp [] x = Some x"
| "fl_run overlap I put cfg u fp (ev # evs) x =
     (if overlap \<or> (\<forall>t\<in>set (fl_tasks x). t = Flushed) \<or> \<not> is_Choose ev
      then (case fl_event I put cfg u fp x ev of None \<Rightarrow> None | Some y \<Rightarrow> fl_run overlap I put cfg u fp evs y) else None)"

lemma fl_event_step:
  assumes "fl_event I put cfg u fp x ev = Some y" "overlap \<or> (\<forall>t\<in>set (fl_tasks x). t = Flushed) \<or> \<not> is_Choose ev"
  shows "fl_step overlap I put cfg u fp x y"
  using assms by (cases ev) (auto simp: fl_event_def split: go.splits if_splits flush_task.splits intro: fl_step.intros)

lemma fl_run_reach: "fl_run overlap I put cfg u fp evs x = Some y \<Longrightarrow> fl_reach overlap I put cfg u fp x y"
proof (induction evs arbitrary: x)
  case (Cons ev evs)
  then obtain z where z: "fl_event I put cfg u fp x ev = Some z" "fl_run overlap I put cfg u fp evs z = Some y"
    "overlap \<or> (\<forall>t\<in>set (fl_tasks x). t = Flushed) \<or> \<not> is_Choose ev"
    by (auto split: if_splits option.splits)
  show ?case using fl_event_step [OF z(1,3)] Cons.IH [OF z(2)] unfolding fl_reach_def by (rule converse_rtranclp_into_rtranclp)
qed (simp add: fl_reach_def)

definition list_put :: "(string \<times> Chunk) list putter" where
  "list_put ctx cs w = (case GetID ctx of Inl e \<Rightarrow> Ret (Some e, w) | Inr u \<Rightarrow> Ret (None, w @ map (Pair u) cs))"

definition list_kept :: "string \<Rightarrow> (string \<times> Chunk) list \<Rightarrow> Chunk set" where
  "list_kept u w = {c. (u, c) \<in> set w}"

lemma list_put_keeps: "store_keeps list_kept list_put"
  by (auto simp: store_keeps_def list_kept_def list_put_def)


lemma pair_decodes: "decodes pair_chunk pair_decode"
  by (auto simp: decodes_def pair_chunk_def pair_decode_text)

lemma Earliest_literal [code]: "Earliest = - 9223372036854775808"
  by (simp add: Earliest_def)

definition demo_sample :: "Time \<Rightarrow> Sample" where
  "demo_sample t = \<lparr>s_Metric = [(''a'', ''x'')], s_Value = 1, s_Timestamp = t\<rparr>"

definition demo_cfg :: IngesterConfig where
  "demo_cfg = \<lparr>FlushCheckPeriod = 1, MaxChunkAge = 1\<rparr>"

type_synonym demo_state = "(SamplePair list, (string \<times> Chunk) list) flushing"

definition demo_run :: "bool \<Rightarrow> event list \<Rightarrow> demo_state option" where
  "demo_run overlap evs = fl_run overlap pair_chunk list_put demo_cfg ''u'' 7 evs (fl_init [(''a'', ''x'')] [])"

text \<open>The times that are accepted, in memory, and in the store.\<close>

definition demo_times :: "demo_state \<Rightarrow> Time list \<times> Time list \<times> Time list" where
  "demo_times x = (map sp_Timestamp (fl_accepted x), map sp_Timestamp (memory_samples pair_chunk (fl_series x)),
     concat (map (\<lambda>(u, c). map sp_Timestamp (pair_decode (Data c))) (fl_store x)))"

text \<open>Three samples, a flush with appends before and after the write, and the removal.\<close>

definition demo_events :: "event list" where
  "demo_events = map (\<lambda>t. Append_ev (demo_sample t)) [1, 2, 3] @
     [Choose_ev 0 True, Append_ev (demo_sample 4), Write_ev 0, Append_ev (demo_sample 5), Remove_ev 0]"



section \<open>The last chunk is never removed\<close>

lemma flush_choose_closed:
  assumes "wf_series I s" "headChunkClosed s"
  shows "flush_choose I cfg now immediate s = Ret (chunkDescs s, s)"
proof -
  obtain cds h where cds: "chunkDescs s = cds @ [h]" using assms(1) by (cases "chunkDescs s" rule: rev_cases) (simp_all add: wf_series_def)
  have h: "wf_desc_chunk I True h" "h \<in> set (chunkDescs s)" using assms cds by (simp_all add: wf_series_def)
  have "last (cd_samples I h) \<in> set (memory_samples I s)"
    using last_in_set [OF wf_series_chunk(3) [OF assms(1) h(2)]] h(2) by (auto simp: memory_samples_def)
  then have "chunkLastTime h \<noteq> Earliest" using assms(1) h(1) by (auto simp: wf_series_def wf_desc_chunk_def)
  then have "close_head I s = Ret s" using cds assms(2) by (simp add: close_head_def maybePopulateLastTime_def)
  then show ?thesis using assms(2) by (simp add: flush_choose_def)
qed

text \<open>
  A flush that closes the head and writes all chunks keeps the last of them in memory, because one
  chunk less than written is removed. Every later flush, whatever the time, chooses and writes that
  chunk again, and the series never leaves the memory.
\<close>

lemma flushed_chunk_stays:
  assumes "wf_series I s" "flush_choose I cfg now True s = Ret (chunks, s1)" "flush_remove (length chunks) s1 = Ret s2"
  shows "chunkDescs s2 = [last chunks]"
    and "flush_choose I cfg now' immediate s2 = Ret ([last chunks], s2)"
    and "flush_remove (length [last chunks]) s2 = Ret s2"
proof -
  have s1: "wf_series I s1" "headChunkClosed s1" "chunks = chunkDescs s1"
    using flush_choose_ok [OF assms(1), of cfg now True] close_head_ok [OF assms(1)] assms(2) by (auto simp: flush_choose_def)
  obtain cds h where cds: "chunkDescs s1 = cds @ [h]" using s1(1) by (cases "chunkDescs s1" rule: rev_cases) (simp_all add: wf_series_def)
  have s2: "s2 = s1\<lparr>chunkDescs := drop (length cds) (chunkDescs s1)\<rparr>" using assms(3) s1(3) cds by (simp add: flush_remove_def)
  show one: "chunkDescs s2 = [last chunks]" using s2 cds s1(3) by simp
  have "wf_series I s2" "headChunkClosed s2" using wf_series_drop(1) [OF s1(1), of "length cds"] s1(2) cds by (simp_all add: s2)
  then show "flush_choose I cfg now' immediate s2 = Ret ([last chunks], s2)" by (simp add: flush_choose_closed one)
  show "flush_remove (length [last chunks]) s2 = Ret s2" using one by (simp add: flush_remove_def)
qed

end
