(* ===== verification/Ingester_Shutdown.thy ===== *)
theory Ingester_Shutdown
  imports Ingester_Flush
begin

text \<open>
  Flushing all series of all users (\<open>flushSeries\<close>, \<open>flushAllSeries\<close>, \<open>flushUser\<close>, \<open>flushAllUsers\<close> and \<open>Stop\<close>
  of \<open>storage/local/frankenstein.go\<close>). The goroutines of a loop run one after the other, in any
  order; at most 100 run at a time (\<open>flushSeriesLimiter\<close>), which this order satisfies.
\<close>

section \<open>Flushing users\<close>

text \<open>
  What a flush of all users is run with: the store, the order in which maps are visited, the order
  in which goroutines run, the clock that they read, and the element that a goroutine sees. The
  goroutines of a loop share its variable, so that the goroutine started in iteration \<open>k\<close> may see
  the element of a later iteration.
\<close>

record ('c, 's) flush_env =
  fe_chunks :: "'c chunk_impl"
  fe_put :: "'s putter"
  fe_map_ord :: "string \<Rightarrow> schedule"
  fe_run_ord :: "string \<Rightarrow> schedule"
  fe_clock :: "string \<Rightarrow> nat \<Rightarrow> int"
  fe_sees :: "string \<Rightarrow> nat \<Rightarrow> nat"
  fe_users_ord :: schedule
  fe_users_run :: schedule
  fe_sees_user :: "nat \<Rightarrow> nat"

definition may_see :: "(nat \<Rightarrow> nat) \<Rightarrow> nat \<Rightarrow> bool" where
  "may_see sees n \<longleftrightarrow> (\<forall>k<n. k \<le> sees k \<and> sees k < n)"

text \<open>
  \<open>flushSeries\<close> without other goroutines in between; its context carries the user ID. A series that another flush has removed from
  the map has no chunk left.
\<close>

definition flushSeries ::
  "('c, 's) flush_env \<Rightarrow> IngesterConfig \<Rightarrow> int \<Rightarrow> bool \<Rightarrow> string \<Rightarrow> fingerprint \<Rightarrow> 'c userState \<times> 's \<Rightarrow> (err option \<times> 'c userState \<times> 's) go" where
  "flushSeries E cfg now immediate userID fp = (\<lambda>(st, w).
     case map_of (fpToSeries st) fp of
       None \<Rightarrow> bind_go (flush_choose (fe_chunks E) cfg now immediate ((newMemorySeries [])\<lparr>headChunkClosed := True\<rparr>))
                 (\<lambda>(chunks, s). Ret (None, st, w))
     | Some s0 \<Rightarrow>
         bind_go (flush_choose (fe_chunks E) cfg now immediate s0) (\<lambda>(chunks, s1).
           let st1 = put_series fp s1 st
           in if length chunks = 0 then Ret (None, st1, w)
              else
                bind_go (flushChunks (fe_chunks E) (fe_put E) (WithID Background userID) fp (ms_metric s1) chunks w) (\<lambda>(e, w').
                  case e of
                    Some err \<Rightarrow> Ret (Some err, st1, w')
                  | None \<Rightarrow>
                      bind_go (flush_remove (length chunks) s1) (\<lambda>s2.
                        if length (chunkDescs s2) = 0 then
                          bind_go (index_delete (fe_map_ord E userID) (ms_metric s2) fp (us_index st1)) (\<lambda>idx.
                            Ret (None, st1\<lparr>fpToSeries := AList.delete fp (fpToSeries st1), us_index := idx\<rparr>, w'))
                        else Ret (None, put_series fp s2 st1, w')))))"

text \<open>The error of a flush is only logged.\<close>

fun flush_goroutines ::
  "('c, 's) flush_env \<Rightarrow> IngesterConfig \<Rightarrow> bool \<Rightarrow> string \<Rightarrow> fingerprint list \<Rightarrow> nat list \<Rightarrow> 'c userState \<times> 's \<Rightarrow> ('c userState \<times> 's) go" where
  "flush_goroutines E cfg immediate userID fps [] x = Ret x"
| "flush_goroutines E cfg immediate userID fps (k # ks) x =
     bind_go (flushSeries E cfg (fe_clock E userID k) immediate userID (fps ! fe_sees E userID k) x) (\<lambda>(e, x').
       flush_goroutines E cfg immediate userID fps ks x')"

definition flushAllSeries ::
  "('c, 's) flush_env \<Rightarrow> IngesterConfig \<Rightarrow> bool \<Rightarrow> string \<Rightarrow> 'c userState \<times> 's \<Rightarrow> ('c userState \<times> 's) go" where
  "flushAllSeries E cfg immediate userID = (\<lambda>(st, w).
     let fps = map fst (permute (fe_map_ord E userID) (fpToSeries st))
     in flush_goroutines E cfg immediate userID fps (fe_run_ord E userID (length fps)) (st, w))"

definition flushUser ::
  "('c, 's) flush_env \<Rightarrow> bool \<Rightarrow> string \<Rightarrow> 'c Ingester \<times> 's \<Rightarrow> ('c Ingester \<times> 's) go" where
  "flushUser E immediate userID = (\<lambda>(i, w).
     case map_of (ing_users i) userID of
       None \<Rightarrow> Ret (i, w)
     | Some st \<Rightarrow>
         bind_go (flushAllSeries E (ing_cfg i) immediate userID (st, w)) (\<lambda>(st', w').
           Ret (if length (fpToSeries st') = 0 then i\<lparr>ing_users := AList.delete userID (ing_users i)\<rparr> else put_user userID st' i, w')))"

fun flush_users :: "('c, 's) flush_env \<Rightarrow> bool \<Rightarrow> string list \<Rightarrow> nat list \<Rightarrow> 'c Ingester \<times> 's \<Rightarrow> ('c Ingester \<times> 's) go" where
  "flush_users E immediate userIDs [] x = Ret x"
| "flush_users E immediate userIDs (k # ks) x =
     bind_go (flushUser E immediate (userIDs ! fe_sees_user E k) x) (flush_users E immediate userIDs ks)"

definition flushAllUsers :: "('c, 's) flush_env option \<Rightarrow> bool \<Rightarrow> 'c Ingester \<times> 's \<Rightarrow> ('c Ingester \<times> 's) go" where
  "flushAllUsers chunkStore immediate = (\<lambda>(i, w).
     case chunkStore of
       None \<Rightarrow> Ret (i, w)
     | Some E \<Rightarrow>
         let userIDs = map fst (permute (fe_users_ord E) (ing_users i))
         in flush_users E immediate userIDs (fe_users_run E (length userIDs)) (i, w))"

text \<open>\<open>Stop\<close> with the end of \<open>loop\<close>; before it, \<open>loop\<close> flushes at every tick.\<close>

definition Ingester_Stop :: "('c, 's) flush_env option \<Rightarrow> 'c Ingester \<times> 's \<Rightarrow> ('c Ingester \<times> 's) go" where
  "Ingester_Stop chunkStore = (\<lambda>(i, w). flushAllUsers chunkStore True (i\<lparr>ing_stopped := True\<rparr>, w))"

fun loop_ticks :: "('c, 's) flush_env option list \<Rightarrow> 'c Ingester \<times> 's \<Rightarrow> ('c Ingester \<times> 's) go" where
  "loop_ticks [] x = Ret x"
| "loop_ticks (E # Es) x = bind_go (flushAllUsers E False x) (loop_ticks Es)"

section \<open>What a flush at shutdown stores\<close>

text \<open>A chunk store that accepts everything, and an encoding that can write every chunk.\<close>

definition put_succeeds :: "'s putter \<Rightarrow> bool" where
  "put_succeeds put \<longleftrightarrow> (\<forall>u cs w. \<exists>w'. put (WithID Background u) cs w = Ret (None, w'))"

definition marshals :: "'c chunk_impl \<Rightarrow> bool" where
  "marshals I \<longleftrightarrow> (\<forall>c. sound_chunk I c \<longrightarrow> (\<exists>b. ch_marshal I c = Inr b))"

definition shutdown_env :: "('c, 's) flush_env \<Rightarrow> (bytes \<Rightarrow> SamplePair list) \<Rightarrow> (string \<Rightarrow> 's \<Rightarrow> Chunk set) \<Rightarrow> bool" where
  "shutdown_env E dec kept \<longleftrightarrow> store_keeps kept (fe_put E) \<and> put_succeeds (fe_put E) \<and> marshals (fe_chunks E) \<and> decodes (fe_chunks E) dec \<and>
     (\<forall>u. fair (fe_map_ord E u) \<and> fair (fe_run_ord E u)) \<and> fair (fe_users_ord E) \<and> fair (fe_users_run E)"

lemma wire_chunks_total:
  assumes "marshals I" "\<forall>cd\<in>set cds. sound_chunk I (cd_c cd)"
  shows "\<exists>ws. wire_chunks I fp m cds = Inr ws"
  using assms(2)
proof (induction cds)
  case (Cons cd cds)
  then show ?case using assms(1) by (auto simp: marshals_def)
qed simp

lemma flush_choose_immediate:
  assumes "wf_series I s"
  shows "\<exists>s1. flush_choose I cfg now True s = Ret (chunkDescs s1, s1) \<and> wf_series I s1 \<and> memory_samples I s1 = memory_samples I s \<and>
    ms_metric s1 = ms_metric s"
  using flush_choose_ok [OF assms, of cfg now True] by fastforce

text \<open>The result of a flush of a series at shutdown: all its samples are in the store.\<close>

definition flushed_at :: "('c, 's) flush_env \<Rightarrow> (bytes \<Rightarrow> SamplePair list) \<Rightarrow> (string \<Rightarrow> 's \<Rightarrow> Chunk set) \<Rightarrow> string \<Rightarrow> fingerprint \<Rightarrow> 'c memorySeries \<Rightarrow>
    'c userState \<Rightarrow> 's \<Rightarrow> 'c userState \<Rightarrow> 's \<Rightarrow> bool" where
  "flushed_at E dec kept u fp s st w st' w' \<longleftrightarrow>
     (\<exists>s'. map_of (fpToSeries st') = (map_of (fpToSeries st))(fp \<mapsto> s') \<and> wf_series (fe_chunks E) s' \<and> ms_metric s' = ms_metric s) \<and>
     (\<forall>u'. kept u' w \<subseteq> kept u' w') \<and> (\<forall>v\<in>set (memory_samples (fe_chunks E) s). in_chunks dec (ms_metric s) (kept u w') v) \<and>
     (\<exists>ws. fe_put E (WithID Background u) ws w = Ret (None, w') \<and> (\<forall>c\<in>set ws. Metric c = ms_metric s))"

lemma flushSeries_shutdown:
  assumes env: "shutdown_env E dec kept" and s: "map_of (fpToSeries st) fp = Some s" "wf_series (fe_chunks E) s"
  shows "\<exists>st' w'. flushSeries E cfg now True u fp (st, w) = Ret (None, st', w') \<and> flushed_at E dec kept u fp s st w st' w'"
proof -
  let ?I = "fe_chunks E"
  obtain s1 where s1: "flush_choose ?I cfg now True s = Ret (chunkDescs s1, s1)" "wf_series ?I s1"
    "memory_samples ?I s1 = memory_samples ?I s" "ms_metric s1 = ms_metric s"
    using flush_choose_immediate [OF s(2)] by blast
  have ne: "chunkDescs s1 \<noteq> []" using s1(2) by (simp add: wf_series_def)
  obtain ws where ws: "wire_chunks ?I fp (ms_metric s) (chunkDescs s1) = Inr ws"
    using wire_chunks_total [of ?I "chunkDescs s1" fp "ms_metric s"] env wf_series_chunk(1) [OF s1(2)] by (auto simp: shutdown_env_def)
  obtain w' where w': "fe_put E (WithID Background u) ws w = Ret (None, w')"
    using env unfolding shutdown_env_def put_succeeds_def by blast
  have fl: "flushChunks ?I (fe_put E) (WithID Background u) fp (ms_metric s) (chunkDescs s1) w = Ret (None, w')"
    using ws w' by (simp add: flushChunks_def)
  define k where "k = length (chunkDescs s1) - 1"
  define s2 where "s2 = s1\<lparr>chunkDescs := drop k (chunkDescs s1)\<rparr>"
  have k: "k < length (chunkDescs s1)" using ne by (simp add: k_def)
  have s2: "wf_series ?I s2" "ms_metric s2 = ms_metric s" "chunkDescs s2 \<noteq> []"
    using wf_series_drop(1) [OF s1(2) k] s1(4) k by (simp_all add: s2_def)
  have "flush_remove (length (chunkDescs s1)) s1 = Ret s2" using k by (simp add: flush_remove_def s2_def k_def)
  then have ret: "flushSeries E cfg now True u fp (st, w) = Ret (None, put_series fp s2 (put_series fp s1 st), w')"
    using s(1) s1(1,4) fl ne s2(3) by (simp add: flushSeries_def Let_def)
  have keep: "store_keeps kept (fe_put E)" "decodes ?I dec" using env by (simp_all add: shutdown_env_def)
  have "in_chunks dec (ms_metric s) (kept u w') v" if v: "v \<in> set (memory_samples ?I s)" for v
  proof -
    have "v \<in> set (memory_samples ?I s1)" using v s1(3) by simp
    then obtain cd where "cd \<in> set (chunkDescs s1)" "v \<in> set (cd_samples ?I cd)" by (auto simp: memory_samples_def)
    then show ?thesis using flushChunks_kept(2) [OF keep(1) fl keep(2)] by blast
  qed
  moreover have "kept u' w \<subseteq> kept u' w'" for u' by (rule flushChunks_kept(1) [OF keep(1) fl keep(2)])
  moreover have "map_of (fpToSeries (put_series fp s2 (put_series fp s1 st))) = (map_of (fpToSeries st))(fp \<mapsto> s2)"
    by (simp add: put_series_def update_conv')
  moreover have "\<forall>c\<in>set ws. Metric c = ms_metric s" using wire_chunks_only [OF ws] by (fastforce simp: wire_chunk_def)
  ultimately have "flushed_at E dec kept u fp s st w (put_series fp s2 (put_series fp s1 st)) w'"
    unfolding flushed_at_def using s2(1,2) w' by blast
  with ret show ?thesis by blast
qed

text \<open>
  While the series of a user are flushed: every series is still there, and what it held at the
  start is in memory or in the store.
\<close>

definition covered :: "('c, 's) flush_env \<Rightarrow> (bytes \<Rightarrow> SamplePair list) \<Rightarrow> Chunk set \<Rightarrow> 'c memorySeries \<Rightarrow> 'c memorySeries option \<Rightarrow> bool" where
  "covered E dec C s0 r \<longleftrightarrow> (\<exists>s. r = Some s \<and> wf_series (fe_chunks E) s \<and> ms_metric s = ms_metric s0 \<and>
     (\<forall>v\<in>set (memory_samples (fe_chunks E) s0). v \<in> set (memory_samples (fe_chunks E) s) \<or> in_chunks dec (ms_metric s0) C v))"

definition all_covered :: "('c, 's) flush_env \<Rightarrow> (bytes \<Rightarrow> SamplePair list) \<Rightarrow> Chunk set \<Rightarrow> 'c userState \<Rightarrow> 'c userState \<Rightarrow> bool" where
  "all_covered E dec C st0 st \<longleftrightarrow> (\<forall>fp. pred_option (\<lambda>s0. covered E dec C s0 (map_of (fpToSeries st) fp)) (map_of (fpToSeries st0) fp))"

definition saved :: "('c, 's) flush_env \<Rightarrow> (bytes \<Rightarrow> SamplePair list) \<Rightarrow> Chunk set \<Rightarrow> 'c memorySeries \<Rightarrow> bool" where
  "saved E dec C s \<longleftrightarrow> (\<forall>v\<in>set (memory_samples (fe_chunks E) s). in_chunks dec (ms_metric s) C v)"

text \<open>A store that gets nothing but what is put.\<close>

definition store_exact :: "(string \<Rightarrow> 's \<Rightarrow> Chunk set) \<Rightarrow> 's putter \<Rightarrow> bool" where
  "store_exact kept put \<longleftrightarrow> (\<forall>u cs w e w'. put (WithID Background u) cs w = Ret (e, w') \<longrightarrow> kept u w' \<subseteq> kept u w \<union> set cs)"

lemma saved_mono: "saved E dec C s \<Longrightarrow> C \<subseteq> D \<Longrightarrow> saved E dec D s"
  using in_chunks_mono by (fastforce simp: saved_def)

lemma covered_mono: "covered E dec C s0 r \<Longrightarrow> C \<subseteq> D \<Longrightarrow> covered E dec D s0 r"
  unfolding covered_def using in_chunks_mono by blast

lemma covered_flush:
  assumes env: "shutdown_env E dec kept" and cov: "all_covered E dec (kept u w) st0 st" and fp: "map_of (fpToSeries st0) fp = Some s0"
  shows "\<exists>st' w'. flushSeries E cfg now True u fp (st, w) = Ret (None, st', w') \<and> all_covered E dec (kept u w') st0 st' \<and>
    (\<forall>u'. kept u' w \<subseteq> kept u' w') \<and> saved E dec (kept u w') s0 \<and>
    (store_exact kept (fe_put E) \<longrightarrow> (\<forall>c\<in>kept u w' - kept u w. Metric c = ms_metric s0))"
proof -
  have at: "covered E dec (kept u w) s (map_of (fpToSeries st) f)" if "map_of (fpToSeries st0) f = Some s" for f s
    using cov that unfolding all_covered_def by (metis option.pred_inject(2))
  obtain s where s: "map_of (fpToSeries st) fp = Some s" "wf_series (fe_chunks E) s" "ms_metric s = ms_metric s0"
    "\<forall>v\<in>set (memory_samples (fe_chunks E) s0). v \<in> set (memory_samples (fe_chunks E) s) \<or> in_chunks dec (ms_metric s0) (kept u w) v"
    using at [OF fp] by (auto simp: covered_def)
  obtain st' w' where ret: "flushSeries E cfg now True u fp (st, w) = Ret (None, st', w')" and fl: "flushed_at E dec kept u fp s st w st' w'"
    using flushSeries_shutdown [OF env s(1,2)] by blast
  obtain s' where s': "map_of (fpToSeries st') = (map_of (fpToSeries st))(fp \<mapsto> s')" "wf_series (fe_chunks E) s'" "ms_metric s' = ms_metric s"
    using fl by (auto simp: flushed_at_def)
  have grow: "kept u' w \<subseteq> kept u' w'" for u' using fl by (simp add: flushed_at_def)
  have "in_chunks dec (ms_metric s0) (kept u w') v" if "v \<in> set (memory_samples (fe_chunks E) s0)" for v
    using s(3,4) that fl in_chunks_mono [OF _ grow] by (auto simp: flushed_at_def)
  then have saved: "saved E dec (kept u w') s0" by (simp add: saved_def)
  have "covered E dec (kept u w') x (map_of (fpToSeries st') f)" if "map_of (fpToSeries st0) f = Some x" for f x
  proof (cases "f = fp")
    case True
    then have "x = s0" using that fp by simp
    then show ?thesis using True s' s(3) saved by (simp add: covered_def saved_def)
  next
    case False
    then show ?thesis using covered_mono [OF at [OF that] grow] s'(1) by simp
  qed
  then have "all_covered E dec (kept u w') st0 st'"
    unfolding all_covered_def by (metis not_None_eq option.pred_inject)
  moreover have "\<forall>c\<in>kept u w' - kept u w. Metric c = ms_metric s0" if "store_exact kept (fe_put E)"
  proof -
    obtain ws where ws: "fe_put E (WithID Background u) ws w = Ret (None, w')" "\<forall>c\<in>set ws. Metric c = ms_metric s"
      using fl by (auto simp: flushed_at_def)
    then have "kept u w' \<subseteq> kept u w \<union> set ws" using that unfolding store_exact_def by blast
    then show ?thesis using ws(2) s(3) by auto
  qed
  ultimately show ?thesis using ret saved grow by blast
qed

lemma flush_goroutines_shutdown:
  assumes env: "shutdown_env E dec kept"
    and cov: "all_covered E dec (kept u w) st0 st" and ks: "\<forall>k\<in>set ks. map_of (fpToSeries st0) (fps ! fe_sees E u k) \<noteq> None"
  shows "\<exists>st' w'. flush_goroutines E cfg True u fps ks (st, w) = Ret (st', w') \<and> all_covered E dec (kept u w') st0 st' \<and>
    (\<forall>u'. kept u' w \<subseteq> kept u' w') \<and>
    (\<forall>k\<in>set ks. saved E dec (kept u w') (the (map_of (fpToSeries st0) (fps ! fe_sees E u k)))) \<and>
    (store_exact kept (fe_put E) \<longrightarrow>
       (\<forall>c\<in>kept u w' - kept u w. \<exists>k\<in>set ks. Metric c = ms_metric (the (map_of (fpToSeries st0) (fps ! fe_sees E u k)))))"
  using cov ks
proof (induction ks arbitrary: st w)
  case (Cons k ks)
  then obtain s0 where s0: "map_of (fpToSeries st0) (fps ! fe_sees E u k) = Some s0" by auto
  obtain st1 w1 where one: "flushSeries E cfg (fe_clock E u k) True u (fps ! fe_sees E u k) (st, w) = Ret (None, st1, w1)"
    "all_covered E dec (kept u w1) st0 st1" "\<forall>u'. kept u' w \<subseteq> kept u' w1" "saved E dec (kept u w1) s0"
    "store_exact kept (fe_put E) \<longrightarrow> (\<forall>c\<in>kept u w1 - kept u w. Metric c = ms_metric s0)"
    using covered_flush [OF env Cons.prems(1) s0] by blast
  obtain st' w' where two: "flush_goroutines E cfg True u fps ks (st1, w1) = Ret (st', w')" "all_covered E dec (kept u w') st0 st'"
    "\<forall>u'. kept u' w1 \<subseteq> kept u' w'" "\<forall>k\<in>set ks. saved E dec (kept u w') (the (map_of (fpToSeries st0) (fps ! fe_sees E u k)))"
    "store_exact kept (fe_put E) \<longrightarrow>
       (\<forall>c\<in>kept u w' - kept u w1. \<exists>k\<in>set ks. Metric c = ms_metric (the (map_of (fpToSeries st0) (fps ! fe_sees E u k))))"
    using Cons.IH [OF one(2)] Cons.prems(2) by auto
  have "saved E dec (kept u w') s0" using saved_mono one(4) two(3) by blast
  moreover have "flush_goroutines E cfg True u fps (k # ks) (st, w) = Ret (st', w')" using one(1) two(1) by simp
  moreover have "\<forall>u'. kept u' w \<subseteq> kept u' w'" using one(3) two(3) by blast
  ultimately show ?case using one(5) two(2,4,5) s0 by (intro exI [of _ st'] exI [of _ w']) auto
qed auto

lemma all_covered_refl: "user_ok (fe_chunks E) st \<Longrightarrow> all_covered E dec C st st"
  unfolding all_covered_def using user_okD(1) by (auto simp: covered_def pred_option_def)

lemma fair_set: "fair s \<Longrightarrow> set (s n) = {0..<n}"
  unfolding fair_def by (metis mset_eq_setD set_upt)

lemma flushAllSeries_shutdown:
  assumes env: "shutdown_env E dec kept" and ok: "user_ok (fe_chunks E) st" and sees: "may_see (fe_sees E u) (length (fpToSeries st))"
  shows "\<exists>st' w' fps. fps = map fst (permute (fe_map_ord E u) (fpToSeries st)) \<and> flushAllSeries E cfg True u (st, w) = Ret (st', w') \<and>
    (\<forall>u'. kept u' w \<subseteq> kept u' w') \<and>
    (\<forall>k\<in>{0..<length fps}. saved E dec (kept u w') (the (map_of (fpToSeries st) (fps ! fe_sees E u k)))) \<and>
    (store_exact kept (fe_put E) \<longrightarrow>
       (\<forall>c\<in>kept u w' - kept u w. \<exists>k\<in>{0..<length fps}. Metric c = ms_metric (the (map_of (fpToSeries st) (fps ! fe_sees E u k)))))"
proof -
  define fps where "fps = map fst (permute (fe_map_ord E u) (fpToSeries st))"
  have fair: "fair (fe_map_ord E u)" "fair (fe_run_ord E u)" using env by (simp_all add: shutdown_env_def)
  have fps: "length fps = length (fpToSeries st)" "set fps = fst ` set (fpToSeries st)"
    using fair(1) by (simp_all add: fps_def length_permute set_permute)
  have ks: "set (fe_run_ord E u (length fps)) = {0..<length fps}" by (rule fair_set [OF fair(2)])
  have "\<forall>k\<in>set (fe_run_ord E u (length fps)). map_of (fpToSeries st) (fps ! fe_sees E u k) \<noteq> None"
    unfolding ks using sees fps by (auto simp: may_see_def map_of_eq_None_iff)
  from flush_goroutines_shutdown [OF env all_covered_refl [OF ok, of dec "kept u w"] this, of cfg] show ?thesis
    unfolding ks by (simp add: flushAllSeries_def Let_def fps_def) blast
qed

lemma flushUser_shutdown:
  assumes env: "shutdown_env E dec kept" and ok: "pred_option (user_ok (fe_chunks E)) (map_of (ing_users i) u)" and sees: "\<forall>k. fe_sees E u k = k"
  shows "\<exists>i' w'. flushUser E True u (i, w) = Ret (i', w') \<and> (\<forall>u'. kept u' w \<subseteq> kept u' w') \<and> ing_stopped i' = ing_stopped i \<and>
    (\<forall>m. \<forall>v\<in>set (ing_samples (fe_chunks E) i u m). in_chunks dec m (kept u w') v) \<and>
    (\<forall>u'. u' \<noteq> u \<longrightarrow> map_of (ing_users i') u' = map_of (ing_users i) u')"
proof (cases "map_of (ing_users i) u")
  case None
  then show ?thesis by (simp add: flushUser_def ing_samples_def)
next
  case (Some st)
  have "user_ok (fe_chunks E) st" using ok Some by simp
  then have st: "user_ok (fe_chunks E) st" "distinct (map fst (fpToSeries st))" by (simp_all add: user_ok_def)
  have "may_see (fe_sees E u) (length (fpToSeries st))" using sees by (simp add: may_see_def)
  from flushAllSeries_shutdown [OF env st(1) this, of "ing_cfg i" w] obtain st' w' fps where
    fl: "fps = map fst (permute (fe_map_ord E u) (fpToSeries st))" "flushAllSeries E (ing_cfg i) True u (st, w) = Ret (st', w')"
      "\<forall>u'. kept u' w \<subseteq> kept u' w'" "\<forall>k<length fps. saved E dec (kept u w') (the (map_of (fpToSeries st) (fps ! k)))"
    using sees by auto
  have "in_chunks dec m (kept u w') v" if v: "v \<in> set (ing_samples (fe_chunks E) i u m)" for m v
  proof -
    obtain fp s where s: "(fp, s) \<in> set (fpToSeries st)" "ms_metric s = m" "v \<in> set (memory_samples (fe_chunks E) s)"
      using v Some by (auto simp: ing_samples_def user_samples_def split: if_splits)
    have "fp \<in> set fps" using s(1) env unfolding fl(1) by (force simp: shutdown_env_def set_permute)
    then obtain k where "k < length fps" "fps ! k = fp" by (auto simp: in_set_conv_nth)
    then have "saved E dec (kept u w') s" using fl(4) s(1) st(2) by (metis map_of_is_SomeI option.sel)
    then show ?thesis using s(2,3) by (auto simp: saved_def)
  qed
  then show ?thesis using Some fl(2,3)
    by (simp add: flushUser_def put_user_def update_conv' delete_conv')
qed

lemma flush_users_shutdown:
  assumes env: "shutdown_env E dec kept" and ok: "ingester_ok (fe_chunks E) i0" and sees: "\<forall>u k. fe_sees E u k = k" "\<forall>k. fe_sees_user E k = k"
    and ks: "distinct ks" "\<forall>k\<in>set ks. k < length uids" "distinct uids"
    and same: "\<forall>k\<in>set ks. map_of (ing_users i) (uids ! k) = map_of (ing_users i0) (uids ! k)"
  shows "\<exists>i' w'. flush_users E True uids ks (i, w) = Ret (i', w') \<and> (\<forall>u'. kept u' w \<subseteq> kept u' w') \<and> ing_stopped i' = ing_stopped i \<and>
    (\<forall>k\<in>set ks. \<forall>m. \<forall>v\<in>set (ing_samples (fe_chunks E) i0 (uids ! k) m). in_chunks dec m (kept (uids ! k) w') v)"
  using ks(1,2) same
proof (induction ks arbitrary: i w)
  case (Cons k ks)
  let ?u = "uids ! k"
  obtain i1 w1 where one: "flushUser E True ?u (i, w) = Ret (i1, w1)" "\<forall>u'. kept u' w \<subseteq> kept u' w1" "ing_stopped i1 = ing_stopped i"
    "\<forall>m. \<forall>v\<in>set (ing_samples (fe_chunks E) i ?u m). in_chunks dec m (kept ?u w1) v"
    "\<forall>u'. u' \<noteq> ?u \<longrightarrow> map_of (ing_users i1) u' = map_of (ing_users i) u'"
    using flushUser_shutdown [OF env, of i ?u w] ok Cons.prems(3) sees(1) unfolding ingester_ok_def by auto
  have "map_of (ing_users i1) (uids ! j) = map_of (ing_users i0) (uids ! j)" if "j \<in> set ks" for j
    using one(5) Cons.prems(1,2,3) ks(3) that by (metis distinct.simps(2) list.set_intros nth_eq_iff_index_eq)
  then obtain i' w' where two: "flush_users E True uids ks (i1, w1) = Ret (i', w')" "\<forall>u'. kept u' w1 \<subseteq> kept u' w'" "ing_stopped i' = ing_stopped i1"
    "\<forall>k\<in>set ks. \<forall>m. \<forall>v\<in>set (ing_samples (fe_chunks E) i0 (uids ! k) m). in_chunks dec m (kept (uids ! k) w') v"
    using Cons.IH [of i1 w1] Cons.prems(1,2) by auto
  have "ing_samples (fe_chunks E) i ?u = ing_samples (fe_chunks E) i0 ?u" using Cons.prems(3) by (simp add: ing_samples_def fun_eq_iff)
  then have "\<forall>m. \<forall>v\<in>set (ing_samples (fe_chunks E) i0 ?u m). in_chunks dec m (kept ?u w') v"
    using one(4) two(2) in_chunks_mono by metis
  moreover have "\<forall>u'. kept u' w \<subseteq> kept u' w'" using one(2) two(2) by blast
  ultimately show ?case using one(1,3) two(1,3,4) sees(2) by (intro exI [of _ i'] exI [of _ w']) simp
qed simp

text \<open>Two series of a user, and a flush to a list.\<close>

definition two_samples :: "Sample list" where
  "two_samples = [\<lparr>s_Metric = [(''a'', ''x'')], s_Value = 1, s_Timestamp = 5\<rparr>, \<lparr>s_Metric = [(''b'', ''y'')], s_Value = 2, s_Timestamp = 6\<rparr>]"

definition two_pushed :: "(err option \<times> SamplePair list Ingester) go" where
  "two_pushed = Ingester_Append pair_chunk in_order (WithID Background ''u'') two_samples (NewIngester demo_cfg)"

text \<open>The users and how many series they have.\<close>

definition pushed_shape :: "(err option \<times> 'c Ingester) go \<Rightarrow> (string \<times> nat) list option" where
  "pushed_shape r = (case r of Ret (e, i) \<Rightarrow> Some (map (\<lambda>(u, st). (u, length (fpToSeries st))) (ing_users i)) | _ \<Rightarrow> None)"

definition list_env :: "(string \<Rightarrow> nat \<Rightarrow> nat) \<Rightarrow> (SamplePair list, (string \<times> Chunk) list) flush_env" where
  "list_env sees = \<lparr>fe_chunks = pair_chunk, fe_put = list_put, fe_map_ord = (\<lambda>u. in_order), fe_run_ord = (\<lambda>u. in_reverse), fe_clock = (\<lambda>u k. 0),
     fe_sees = sees, fe_users_ord = in_order, fe_users_run = in_order, fe_sees_user = (\<lambda>k. k)\<rparr>"

lemma list_env_ok: "shutdown_env (list_env sees) pair_decode list_kept" "store_exact list_kept (fe_put (list_env sees))"
  using list_put_keeps pair_decodes
  by (auto simp: shutdown_env_def list_env_def put_succeeds_def list_put_def marshals_def pair_chunk_def store_exact_def list_kept_def)

lemma two_pushed_shape: "pushed_shape two_pushed = Some [(''u'', 2)]"
  by code_simp

lemma pushed_shapeD:
  "pushed_shape r = Some l \<Longrightarrow> \<exists>e i. r = Ret (e, i) \<and> l = map (\<lambda>(u, st). (u, length (fpToSeries st))) (ing_users i)"
  by (cases r) (auto simp: pushed_shape_def split: prod.splits)

lemma two_pushed_state:
  "\<exists>i. two_pushed = Ret (None, i) \<and> ingester_ok pair_chunk i \<and> ing_samples pair_chunk i ''u'' [(''a'', ''x'')] = [\<lparr>sp_Timestamp = 5, sp_Value = 1\<rparr>] \<and>
     ing_samples pair_chunk i ''u'' [(''b'', ''y'')] = [\<lparr>sp_Timestamp = 6, sp_Value = 2\<rparr>]"
proof -
  have "\<forall>s\<in>set two_samples. valid_sample s"
    by (simp add: two_samples_def valid_sample_def good_metric_def wf_metric_def Earliest_def SeparatorByte_def char_of_def)
  moreover have "two_pushed \<noteq> Panic exhausted" using pushed_shapeD [OF two_pushed_shape] by (metis go.distinct(1))
  moreover have "abs_append_all ''u'' two_samples (\<lambda>u m. []) =
    (None, (\<lambda>u m. [])(''u'' := (\<lambda>m. [])([(''a'', ''x'')] := [\<lparr>sp_Timestamp = 5, sp_Value = 1\<rparr>], [(''b'', ''y'')] := [\<lparr>sp_Timestamp = 6, sp_Value = 2\<rparr>])))"
    by (simp add: two_samples_def abs_append_def abs_add_def drop_empty_def Let_def)
  ultimately show ?thesis
    using Ingester_Append_ok [OF pair_chunk_laws fair_in_order ingester_ok_new(1) [of pair_chunk demo_cfg] ingester_ok_new(3) [of demo_cfg],
        of two_samples Background "''u''"]
    by (auto simp: two_pushed_def ingester_ok_new(2))
qed

text \<open>
  C6: \<open>Stop\<close> stores everything, if every goroutine of the flush sees the loop variable of its own
  iteration, the chunk store accepts all writes and chunks can be encoded: when \<open>Stop\<close> returns, every
  sample that the ingester held in memory, for every user and metric, is in a chunk of that user
  and metric in the store, and the ingester takes no more samples.
\<close>

theorem stop_stores_everything:
  assumes "ingester_ok (fe_chunks E) i" "shutdown_env E dec kept" "\<forall>u k. fe_sees E u k = k" "\<forall>k. fe_sees_user E k = k"
  shows "\<exists>i' w'. Ingester_Stop (Some E) (i, w) = Ret (i', w') \<and> ing_stopped i' \<and>
    (\<forall>u m. \<forall>v\<in>set (ing_samples (fe_chunks E) i u m). in_chunks dec m (kept u w') v)"
proof -
  let ?i = "i\<lparr>ing_stopped := True\<rparr>"
  define uids where "uids = map fst (permute (fe_users_ord E) (ing_users i))"
  have fair: "fair (fe_users_ord E)" "fair (fe_users_run E)" using assms(2) by (simp_all add: shutdown_env_def)
  have ok: "ingester_ok (fe_chunks E) ?i" "distinct (map fst (ing_users i))" using assms(1) by (simp_all add: ingester_ok_def)
  have uids: "distinct uids" "set uids = fst ` set (ing_users i)"
    using ok(2) fair(1) mset_permute [OF fair(1), of "ing_users i"]
    by (simp_all add: uids_def set_permute) (metis mset_map mset_eq_imp_distinct_iff)
  let ?ks = "fe_users_run E (length uids)"
  have "mset ?ks = mset [0..<length uids]" using fair(2) by (simp add: fair_def)
  then have ks: "distinct ?ks" "set ?ks = {0..<length uids}"
    by (metis distinct_upt mset_eq_imp_distinct_iff, simp add: fair_set [OF fair(2)])
  obtain i' w' where st: "flush_users E True uids ?ks (?i, w) = Ret (i', w')" "ing_stopped i' = ing_stopped ?i"
    "\<forall>k\<in>{0..<length uids}. \<forall>m. \<forall>v\<in>set (ing_samples (fe_chunks E) ?i (uids ! k) m). in_chunks dec m (kept (uids ! k) w') v"
    using flush_users_shutdown [OF assms(2) ok(1) assms(3,4) ks(1) _ uids(1), of ?i w] unfolding ks(2) by auto
  have "in_chunks dec m (kept u w') v" if v: "v \<in> set (ing_samples (fe_chunks E) i u m)" for u m v
  proof -
    have "u \<in> set uids" using v unfolding uids(2)
      by (cases "map_of (ing_users i) u") (auto simp: ing_samples_def dest: map_of_SomeD intro: rev_image_eqI)
    then obtain k where "k \<in> {0..<length uids}" "uids ! k = u" by (auto simp: in_set_conv_nth)
    moreover have "ing_samples (fe_chunks E) ?i = ing_samples (fe_chunks E) i" by (simp add: ing_samples_def fun_eq_iff)
    ultimately show ?thesis using st(3) v by metis
  qed
  then show ?thesis using st(1,2) by (simp add: Ingester_Stop_def flushAllUsers_def Let_def uids_def)
qed

theorem stop_stores_everything_witness:
  "\<exists>i i' w. two_pushed = Ret (None, i) \<and> Ingester_Stop (Some (list_env (\<lambda>u k. k))) (i, []) = Ret (i', w) \<and> ing_stopped i' \<and>
     in_chunks pair_decode [(''a'', ''x'')] (list_kept ''u'' w) \<lparr>sp_Timestamp = 5, sp_Value = 1\<rparr> \<and>
     in_chunks pair_decode [(''b'', ''y'')] (list_kept ''u'' w) \<lparr>sp_Timestamp = 6, sp_Value = 2\<rparr>"
proof -
  obtain i where i: "two_pushed = Ret (None, i)" "ingester_ok pair_chunk i" "ing_samples pair_chunk i ''u'' [(''a'', ''x'')] = [\<lparr>sp_Timestamp = 5, sp_Value = 1\<rparr>]"
    "ing_samples pair_chunk i ''u'' [(''b'', ''y'')] = [\<lparr>sp_Timestamp = 6, sp_Value = 2\<rparr>]"
    using two_pushed_state by blast
  have E: "fe_chunks (list_env (\<lambda>u k. k)) = pair_chunk" "\<forall>u k. fe_sees (list_env (\<lambda>u k. k)) u k = k" "\<forall>k. fe_sees_user (list_env (\<lambda>u k. k)) k = k"
    by (simp_all add: list_env_def)
  have ok: "ingester_ok (fe_chunks (list_env (\<lambda>u k. k))) i" using i(2) E(1) by simp
  from stop_stores_everything [OF ok list_env_ok(1) E(2,3), of "[]"] obtain i' w where
    "Ingester_Stop (Some (list_env (\<lambda>u k. k))) (i, []) = Ret (i', w)" "ing_stopped i'"
    "\<forall>u m. \<forall>v\<in>set (ing_samples pair_chunk i u m). in_chunks pair_decode m (list_kept u w) v"
    unfolding E(1) by blast
  with i show ?thesis by (intro exI [of _ i] exI [of _ i'] exI [of _ w]) simp
qed

lemma fair_single:
  assumes "fair s"
  shows "s 1 = [0]" "permute s [x] = [x]"
  using assms mset_permute [OF assms, of "[x]"] unfolding fair_def by (auto dest: spec [of _ 1])

text \<open>
  C37: \<open>Stop\<close> can leave out series. The goroutines that \<open>flushAllSeries\<close> starts share the loop variable;
  if they run only after the loop, all of them see the last series. Then \<open>Stop\<close> returns without
  error, and there is a metric of the user that had samples in memory of which nothing has been
  written.
\<close>

theorem shutdown_skips_series:
  assumes "ingester_ok (fe_chunks E) i" "shutdown_env E dec kept" "store_exact kept (fe_put E)" "\<forall>k. fe_sees_user E k = k"
    "ing_users i = [(u, st)]" "2 \<le> length (fpToSeries st)" "\<forall>k. fe_sees E u k = length (fpToSeries st) - 1"
  shows "may_see (fe_sees E u) (length (fpToSeries st)) \<and>
    (\<exists>i' w' m. Ingester_Stop (Some E) (i, w) = Ret (i', w') \<and> ing_samples (fe_chunks E) i u m \<noteq> [] \<and>
       (\<forall>v. \<not> in_chunks dec m (kept u w' - kept u w) v))"
proof -
  let ?n = "length (fpToSeries st)"
  have sees: "may_see (fe_sees E u) ?n" using assms(6,7) by (auto simp: may_see_def)
  have "map_of (ing_users i) u = Some st" using assms(5) by simp
  then have st: "user_ok (fe_chunks E) st" using assms(1) unfolding ingester_ok_def by (metis option.pred_inject(2))
  then have dist: "distinct (map fst (fpToSeries st))" by (simp add: user_ok_def)
  from flushAllSeries_shutdown [OF assms(2) st sees, of "ing_cfg i" w] assms(3) obtain st' w' fps where
    fl: "fps = map fst (permute (fe_map_ord E u) (fpToSeries st))" "flushAllSeries E (ing_cfg i) True u (st, w) = Ret (st', w')"
      "\<forall>c\<in>kept u w' - kept u w. \<exists>k\<in>{0..<length fps}. Metric c = ms_metric (the (map_of (fpToSeries st) (fps ! fe_sees E u k)))"
    by blast
  have "fair (fe_map_ord E u)" using assms(2) by (simp add: shutdown_env_def)
  then have fps: "length fps = ?n" "set fps = fst ` set (fpToSeries st)" "distinct fps"
    using dist mset_permute [of "fe_map_ord E u" "fpToSeries st"]
    by (simp_all add: fl(1) length_permute set_permute) (metis mset_map mset_eq_imp_distinct_iff)
  have ne: "fps ! 0 \<noteq> fps ! (?n - 1)" using fps(1,3) assms(6) nth_eq_iff_index_eq [of fps 0 "?n - 1"] by linarith
  have some: "map_of (fpToSeries st) (fps ! k) \<noteq> None" if "k < ?n" for k
    using fps(1,2) nth_mem [of k fps] that by (auto simp: map_of_eq_None_iff)
  then obtain s t where s: "map_of (fpToSeries st) (fps ! 0) = Some s" and t: "map_of (fpToSeries st) (fps ! (?n - 1)) = Some t"
    using some [of 0] some [of "?n - 1"] assms(6) by fastforce
  have "ms_metric s \<noteq> ms_metric t" using ne by (metis user_okD(3) [OF st s] user_okD(3) [OF st t])
  then have "\<not> in_chunks dec (ms_metric s) (kept u w' - kept u w) v" for v
    using fl(3) assms(7) t by (auto simp: in_chunks_def)
  moreover have "ing_samples (fe_chunks E) i u (ms_metric s) \<noteq> []"
    using user_samples_at [OF st s] memory_nonempty [OF user_okD(1) [OF st s]] assms(5) by (simp add: ing_samples_def)
  moreover have "fe_users_run E 1 = [0]" "permute (fe_users_ord E) [(u, st)] = [(u, st)]"
    using assms(2) fair_single by (auto simp: shutdown_env_def)
  then have "\<exists>i'. Ingester_Stop (Some E) (i, w) = Ret (i', w')"
    using fl(2) assms(4,5) by (simp add: Ingester_Stop_def flushAllUsers_def flushUser_def Let_def)
  ultimately show ?thesis using sees by blast
qed

theorem shutdown_skips_series_witness:
  "\<exists>i i' w m. two_pushed = Ret (None, i) \<and> Ingester_Stop (Some (list_env (\<lambda>u k. 1))) (i, []) = Ret (i', w) \<and>
     ing_samples pair_chunk i ''u'' m \<noteq> [] \<and> (\<forall>v. \<not> in_chunks pair_decode m (list_kept ''u'' w) v)"
proof -
  obtain i where i: "two_pushed = Ret (None, i)" "ingester_ok pair_chunk i" using two_pushed_state by blast
  then have "map (\<lambda>(u, st). (u, length (fpToSeries st))) (ing_users i) = [(''u'', 2)]"
    using pushed_shapeD [OF two_pushed_shape] by (metis go.inject(1) prod.inject)
  then obtain st where st: "ing_users i = [(''u'', st)]" "length (fpToSeries st) = 2" by (auto simp: map_eq_Cons_conv)
  have E: "fe_chunks (list_env (\<lambda>u k. 1)) = pair_chunk" "\<forall>k. fe_sees_user (list_env (\<lambda>u k. 1)) k = k"
    "\<forall>k. fe_sees (list_env (\<lambda>u k. 1)) ''u'' k = length (fpToSeries st) - 1" using st(2) by (simp_all add: list_env_def)
  have ok: "ingester_ok (fe_chunks (list_env (\<lambda>u k. 1))) i" using i(2) E(1) by simp
  have "2 \<le> length (fpToSeries st)" using st(2) by simp
  from shutdown_skips_series [OF ok list_env_ok E(2) st(1) this E(3), of "[]"] show ?thesis
    using i(1) unfolding E(1) by (auto simp: list_kept_def)
qed

end
