(* ===== verification/Cluster.thy ===== *)
theory Cluster
  imports Ingester_Storage Main_Program "HOL-Library.Countable"
begin

text \<open>
  The parts put together: a distributor (\<open>setupDistributor\<close> of \<open>cmd/frankenstein/main.go\<close>) that
  routes over a ring which does not change, HTTP clients (\<open>NewIngesterClient\<close> of
  \<open>ingester_client.go\<close>), and an ingester process at every host (\<open>setupIngester\<close>). The theory
  shows that the cluster as a whole behaves as one store of samples per user and metric.
\<close>

section \<open>The cluster\<close>

text \<open>The ingester of every host.\<close>

type_synonym 'c cluster = "string \<Rightarrow> 'c Ingester"

definition host_append :: "'c chunk_impl \<Rightarrow> schedule \<Rightarrow> string \<Rightarrow> 'c cluster appender" where
  "host_append I ord h ctx ss W = bind_go (Ingester_Append I ord ctx ss (W h)) (\<lambda>(e, i). Ret (e, W(h := i)))"

definition host_query :: "'c chunk_impl \<Rightarrow> schedule \<Rightarrow> string \<Rightarrow> 'c cluster query" where
  "host_query I ord h ctx from to ms W =
     bind_err (Ingester_Query I ord ctx from to ms (W h)) (\<lambda>(M, i). Ret (Inr (M, W(h := i))))"

definition host_label_values ::
  "schedule \<Rightarrow> string \<Rightarrow> Context \<Rightarrow> LabelName \<Rightarrow> 'c cluster \<Rightarrow> (err + LabelValue list \<times> 'c cluster) go" where
  "host_label_values ord h ctx name W =
     bind_err (Ingester_LabelValues ord ctx name (W h)) (\<lambda>(vs, i). Ret (Inr (vs, W(h := i))))"

text \<open>
  The handlers of an ingester process at \<open>h\<close>. Codecs, snappy, the compiler of regular expressions
  and the order of maps are those of \<open>H\<close>.
\<close>

definition setupIngester :: "'c chunk_impl \<Rightarrow> 'c cluster ingester_http \<Rightarrow> string \<Rightarrow> 'c cluster ingester_http" where
  "setupIngester I H h =
     H\<lparr>ih_Append := host_append I (ih_ord H) h, ih_Query := host_query I (ih_ord H) h,
       ih_LabelValues := host_label_values (ih_ord H) h\<rparr>"

text \<open>
  A client of an ingester. A handler that panics closes the connection, which the client reports
  as an error; the state of that ingester is not followed further, it stays as it was.
\<close>

definition NewIngesterClient :: "'w ingester_http \<Rightarrow> 'w transport \<Rightarrow> string \<Rightarrow> err + 'w IngesterClient" where
  "NewIngesterClient H transport address =
     Inr \<lparr>c_Append = (\<lambda>ctx ss w.
            case Client_Append (ih_WriteRequest H) (ih_WriteResponse H) (ih_snappy H) (ih_ord H) transport address ctx ss w of
              Ret (e, w') \<Rightarrow> (e, w') | _ \<Rightarrow> (Some (Err ''error sending request: EOF''), w)),
          c_Query = (\<lambda>ctx from to ms w.
            bind_go (Client_Query (ih_ReadRequest H) (ih_ReadResponse H) (ih_snappy H) transport address ctx from to ms w)
              (\<lambda>(r, w'). Ret (case r of Inl e \<Rightarrow> Inl e | Inr M \<Rightarrow> Inr (M, w')))),
          c_LabelValues = (\<lambda>ctx name w.
            bind_go (Client_LabelValues (ih_LabelValuesRequest H) (ih_LabelValuesResponse H) (ih_snappy H) transport address ctx name w)
              (\<lambda>(r, w'). Ret (case r of Inl e \<Rightarrow> Inl e | Inr vs \<Rightarrow> Inr (vs, w'))))\<rparr>"

definition setupDistributor :: "'w ingester_http \<Rightarrow> 'w transport \<Rightarrow> 'r \<Rightarrow> ('r, 'w) Distributor" where
  "setupDistributor H transport r = NewDistributor r (NewIngesterClient H transport)"

text \<open>Codecs that read back what they wrote.\<close>

definition codecs_ok :: "'w ingester_http \<Rightarrow> bool" where
  "codecs_ok H \<longleftrightarrow> fair (ih_ord H) \<and> snappy_ok (ih_snappy H) \<and> (\<forall>x. reads_back (ih_WriteRequest H) x) \<and>
     (\<forall>x. reads_back (ih_WriteResponse H) x) \<and> (\<forall>x. reads_back (ih_ReadRequest H) x) \<and> (\<forall>x. reads_back (ih_ReadResponse H) x) \<and>
     (\<forall>x. reads_back (ih_LabelValuesRequest H) x) \<and> (\<forall>x. reads_back (ih_LabelValuesResponse H) x)"

text \<open>A network in which every address reaches its ingester process.\<close>

definition connected :: "'c chunk_impl \<Rightarrow> 'c cluster ingester_http \<Rightarrow> 'c cluster transport \<Rightarrow> bool" where
  "connected I H transport \<longleftrightarrow> (\<forall>h. reaches transport h ingester_mux (setupIngester I H h))"

section \<open>Histories\<close>

type_synonym 'c system = "(Ring, 'c cluster) Distributor \<times> 'c cluster"

text \<open>\<open>sched\<close> orders the goroutines of an append, \<open>roster\<close> are the ingesters in the order of \<open>GetAll\<close>.\<close>

definition cluster_call :: "schedule \<Rightarrow> string list \<Rightarrow> call \<Rightarrow> 'c system \<Rightarrow> (result \<times> 'c system) go" where
  "cluster_call sched roster c dw =
     (case c of
        Push u samples \<Rightarrow> (case Append ring_Get sched (WithID Background u) samples dw of (e, dw') \<Rightarrow> Ret (Pushed e, dw'))
      | Ask u a b ms \<Rightarrow> bind_go (Distributor_Query ring_Get (WithID Background u) a b ms dw)
          (\<lambda>r. case r of Inl e \<Rightarrow> Ret (Failed e, dw) | Inr (M, dw') \<Rightarrow> Ret (Answer M, dw'))
      | Values u name \<Rightarrow> bind_go (Distributor_LabelValues (ring_GetAll roster) sched (WithID Background u) name dw)
          (\<lambda>r. case r of Inl e \<Rightarrow> Ret (Failed e, dw) | Inr (vs, dw') \<Rightarrow> Ret (ValueList vs, dw')))"

fun cluster_calls :: "schedule \<Rightarrow> string list \<Rightarrow> call list \<Rightarrow> 'c system \<Rightarrow> (result list \<times> 'c system) go" where
  "cluster_calls sched roster [] dw = Ret ([], dw)"
| "cluster_calls sched roster (c # cs) dw =
     bind_go (cluster_call sched roster c dw) (\<lambda>(r, dw').
       bind_go (cluster_calls sched roster cs dw') (\<lambda>(rs, dw''). Ret (r # rs, dw'')))"

section \<open>The specification\<close>

text \<open>The samples of one metric, one after the other, until one is refused.\<close>

fun feed :: "Sample list \<Rightarrow> SamplePair list \<Rightarrow> err option \<times> SamplePair list" where
  "feed [] vs = (None, vs)"
| "feed (s # ss) vs = (case abs_add s vs of (Some e, vs') \<Rightarrow> (Some e, vs') | (None, vs') \<Rightarrow> feed ss vs')"

definition of_metric :: "metric \<Rightarrow> Sample list \<Rightarrow> Sample list" where
  "of_metric m ss = filter (\<lambda>s. drop_empty (s_Metric s) = m) ss"

text \<open>
  A push is accepted if every metric accepts its samples. Then all are stored; after a refused
  push every metric has some of its samples, up to one of them.
\<close>

definition accepted :: "string \<Rightarrow> Sample list \<Rightarrow> abs_store \<Rightarrow> bool" where
  "accepted u ss A \<longleftrightarrow> (\<forall>m. fst (feed (of_metric m ss) (A u m)) = None)"

definition push_spec :: "string \<Rightarrow> Sample list \<Rightarrow> abs_store \<Rightarrow> abs_store \<Rightarrow> bool" where
  "push_spec u ss A A' \<longleftrightarrow> (\<forall>u'. u' \<noteq> u \<longrightarrow> A' u' = A u') \<and>
     (\<forall>m. \<exists>n. A' u m = snd (feed (take n (of_metric m ss)) (A u m))) \<and>
     (accepted u ss A \<longrightarrow> (\<forall>m. A' u m = snd (feed (of_metric m ss) (A u m))))"

fun cluster_results :: "abs_store \<Rightarrow> call list \<Rightarrow> result list \<Rightarrow> bool" where
  "cluster_results A [] [] \<longleftrightarrow> True"
| "cluster_results A (Push u ss # cs) (Pushed e # rs) \<longleftrightarrow>
     (e = None \<longleftrightarrow> accepted u ss A) \<and> (\<exists>A'. push_spec u ss A A' \<and> cluster_results A' cs rs)"
| "cluster_results A (Ask u a b ms # cs) (Answer M # rs) \<longleftrightarrow>
     (\<exists>n. metricNameFromLabelMatchers ms = Inr n) \<and> answer A u a b ms M \<and> cluster_results A cs rs"
| "cluster_results A (Ask u a b ms # cs) (Failed e # rs) \<longleftrightarrow> metricNameFromLabelMatchers ms = Inl e \<and> cluster_results A cs rs"
| "cluster_results A (Values u name # cs) (ValueList vs # rs) \<longleftrightarrow> values_of A u name vs \<and> cluster_results A cs rs"
| "cluster_results A cs rs \<longleftrightarrow> False"

fun cluster_valid :: "(string \<Rightarrow> err + (string \<Rightarrow> bool)) \<Rightarrow> call \<Rightarrow> bool" where
  "cluster_valid compile (Push u ss) \<longleftrightarrow> u \<noteq> [] \<and> (\<forall>s\<in>set ss. valid_sample s)"
| "cluster_valid compile (Ask u a b ms) \<longleftrightarrow> u \<noteq> [] \<and> (\<forall>m\<in>set ms. built compile m)"
| "cluster_valid compile (Values u name) \<longleftrightarrow> u \<noteq> []"

section \<open>Pushes, metric by metric\<close>

lemma feed_append: "feed (ss @ ts) vs = (case feed ss vs of (Some e, vs') \<Rightarrow> (Some e, vs') | (None, vs') \<Rightarrow> feed ts vs')"
  by (induction ss arbitrary: vs) (auto split: prod.split option.split)

lemma abs_append_all_others: "u' \<noteq> u \<Longrightarrow> snd (abs_append_all u ss A) u' = A u'"
  by (induction ss arbitrary: A) (auto simp: abs_append_def Let_def split: prod.split option.split)

lemma abs_append_all_feed:
  "(fst (abs_append_all u ss A) = None \<longleftrightarrow> accepted u ss A) \<and> push_spec u ss A (snd (abs_append_all u ss A))"
proof (induction ss arbitrary: A)
  case Nil
  then show ?case by (simp add: accepted_def push_spec_def of_metric_def)
next
  case (Cons s ss)
  let ?m = "drop_empty (s_Metric s)"
  obtain e vs where a: "abs_add s (A u ?m) = (e, vs)" by (cases "abs_add s (A u ?m)")
  define A1 where "A1 = A(u := (A u)(?m := vs))"
  have ap: "abs_append u s A = (e, A1)" by (simp add: abs_append_def Let_def a A1_def)
  have mine: "of_metric ?m (s # ss) = s # of_metric ?m ss" by (simp add: of_metric_def)
  have other: "of_metric m (s # ss) = of_metric m ss" "A1 u m = A u m" if "m \<noteq> ?m" for m
    using that by (simp_all add: of_metric_def A1_def)
  show ?case
  proof (cases e)
    case None
    have f: "feed (of_metric m (s # ss)) (A u m) = feed (of_metric m ss) (A1 u m)" for m
      by (cases "m = ?m") (simp_all add: mine other a None, simp add: A1_def)
    have "\<exists>n. A' u m = snd (feed (take n (of_metric m (s # ss))) (A u m))"
      if "\<exists>n. A' u m = snd (feed (take n (of_metric m ss)) (A1 u m))" for A' :: abs_store and m
    proof (cases "m = ?m")
      case True
      from that obtain n where "A' u m = snd (feed (take n (of_metric m ss)) (A1 u m))" by blast
      then have "A' u m = snd (feed (take (Suc n) (of_metric m (s # ss))) (A u m))"
        using True by (simp add: mine a None, simp add: A1_def)
      then show ?thesis by blast
    qed (use that other in simp)
    moreover have "A1 u' = A u'" if "u' \<noteq> u" for u' using that by (simp add: A1_def)
    ultimately show ?thesis using Cons.IH [of A1] None ap f by (simp add: accepted_def push_spec_def)
  next
    case (Some x)
    have no: "\<not> accepted u (s # ss) A"
      unfolding accepted_def by (auto intro!: exI [of _ ?m] simp: mine a Some)
    have "\<exists>n. A1 u m = snd (feed (take n (of_metric m (s # ss))) (A u m))" for m
    proof (cases "m = ?m")
      case True
      then show ?thesis by (intro exI [of _ 1]) (simp add: mine a Some A1_def)
    next
      case False
      then show ?thesis by (intro exI [of _ 0]) (simp add: other)
    qed
    then show ?thesis using no Some ap by (simp add: push_spec_def, simp add: A1_def)
  qed
qed

section \<open>The invariant of the cluster\<close>

text \<open>The host that the ring gives for a metric of a user, and the samples that it has.\<close>

definition home :: "Ring \<Rightarrow> string \<Rightarrow> metric \<Rightarrow> string" where
  "home r u m = (case ring_Get r (tokenForMetric u m) of Inl e \<Rightarrow> [] | Inr x \<Rightarrow> Hostname x)"

definition cluster_samples :: "'c chunk_impl \<Rightarrow> Ring \<Rightarrow> 'c cluster \<Rightarrow> abs_store" where
  "cluster_samples I r W u m = ing_samples I (W (home r u m)) u m"

text \<open>
  Every ingester is in order, has room for \<open>n\<close> more metrics of each user, and holds only samples
  that belong to it.
\<close>

definition node_ok :: "'c chunk_impl \<Rightarrow> Ring \<Rightarrow> nat \<Rightarrow> string \<Rightarrow> 'c Ingester \<Rightarrow> bool" where
  "node_ok I r n h i \<longleftrightarrow> ingester_ok I i \<and> \<not> ing_stopped i \<and> (\<forall>u. n \<le> headroom i u) \<and>
     (\<forall>u m. ing_samples I i u m \<noteq> [] \<longrightarrow> home r u m = h)"

definition cluster_inv :: "'c chunk_impl \<Rightarrow> 'c cluster ingester_http \<Rightarrow> 'c cluster transport \<Rightarrow> Ring \<Rightarrow> nat \<Rightarrow> 'c system \<Rightarrow> bool" where
  "cluster_inv I H transport r n dw \<longleftrightarrow> clients_ok (fst dw) \<and> d_ring (fst dw) = r \<and>
     clientFactory (fst dw) = NewIngesterClient H transport \<and> (\<forall>h. node_ok I r n h (snd dw h))"

lemma setupIngester_simps [simp]:
  "ih_compile (setupIngester I H h) = ih_compile H" "ih_ord (setupIngester I H h) = ih_ord H"
  "ih_snappy (setupIngester I H h) = ih_snappy H" "ih_WriteRequest (setupIngester I H h) = ih_WriteRequest H"
  "ih_WriteResponse (setupIngester I H h) = ih_WriteResponse H" "ih_ReadRequest (setupIngester I H h) = ih_ReadRequest H"
  "ih_ReadResponse (setupIngester I H h) = ih_ReadResponse H"
  "ih_LabelValuesRequest (setupIngester I H h) = ih_LabelValuesRequest H"
  "ih_LabelValuesResponse (setupIngester I H h) = ih_LabelValuesResponse H"
  "ih_Append (setupIngester I H h) = host_append I (ih_ord H) h"
  "ih_Query (setupIngester I H h) = host_query I (ih_ord H) h"
  "ih_LabelValues (setupIngester I H h) = host_label_values (ih_ord H) h"
  by (simp_all add: setupIngester_def)

lemma label_get_drop_empty: "distinct (map fst m) \<Longrightarrow> label_get (drop_empty m) n = label_get m n"
proof (induction m)
  case (Cons p m)
  obtain k v where p: "p = (k, v)" by (cases p)
  have "map_of m k = None" "map_of (drop_empty m) k = None"
    using Cons.prems by (auto simp: p drop_empty_def map_of_eq_None_iff)
  then show ?case using Cons by (auto simp: p label_get_def drop_empty_def)
qed (simp add: drop_empty_def)

lemma home_drop_empty: "valid_sample s \<Longrightarrow> home r u (drop_empty (s_Metric s)) = home r u (s_Metric s)"
  by (simp add: home_def tokenForMetric_def label_get_drop_empty wf_metric_distinct valid_sample_def good_metric_def)

lemma of_metric_owned:
  assumes "\<forall>s\<in>set ss. valid_sample s"
  shows "of_metric m (filter (\<lambda>s. home r u (s_Metric s) = h) ss) = (if home r u m = h then of_metric m ss else [])"
  using assms by (induction ss) (auto simp: of_metric_def home_drop_empty [symmetric])

lemma host_home: "ringread.host r u s = home r u (s_Metric s)"
  by (simp add: ringread.host_def home_def)

section \<open>Clients of the cluster\<close>

lemma client_append:
  assumes "connected I H transport" "codecs_ok H" "u \<noteq> []" "\<forall>s\<in>set ss. valid_sample s"
    and "Ingester_Append I (ih_ord H) (WithID Background u) ss (W h) = Ret (e, i)" "NewIngesterClient H transport h = Inr c"
  shows "\<exists>e'. c_Append c (WithID Background u) ss W = (e', W(h := i)) \<and> (e' = None \<longleftrightarrow> e = None)"
proof -
  let ?N = "setupIngester I H h"
  have r: "reaches transport h ingester_mux ?N" using assms(1) by (simp add: connected_def)
  have "Client_Append (ih_WriteRequest ?N) (ih_WriteResponse ?N) (ih_snappy ?N) (ih_ord H) transport h (WithID Background u) ss W =
    bind_go (ih_Append ?N (WithID Background u) ss W) (\<lambda>(e, w').
      Ret (map_option (\<lambda>_. Err ''server returned HTTP status 500 Internal Server Error'') e, w'))"
    by (rule append_served) (use assms(2-4) in \<open>auto simp: codecs_ok_def valid_sample_def good_metric_def reached [OF r]\<close>)
  also have "\<dots> = Ret (map_option (\<lambda>_. Err ''server returned HTTP status 500 Internal Server Error'') e, W(h := i))"
    by (simp add: host_append_def assms(5))
  finally show ?thesis using assms(6) by (auto simp: NewIngesterClient_def)
qed

lemma stored_good: "ingester_ok I i \<Longrightarrow> ing_samples I i u m \<noteq> [] \<Longrightarrow> wf_metric m"
proof -
  assume ok: "ingester_ok I i" and ne: "ing_samples I i u m \<noteq> []"
  then obtain st where st: "map_of (ing_users i) u = Some st" "user_samples I st m \<noteq> []"
    by (auto simp: ing_samples_def split: option.splits)
  then have "user_ok I st" using ok unfolding ingester_ok_def by (metis option.pred_inject(2))
  with st(2) show "wf_metric m" using has_series user_okD(2) by (metis good_metric_def)
qed

lemma metric_name_matcher:
  "metricNameFromLabelMatchers ms = Inr n \<Longrightarrow> \<exists>x\<in>set ms. m_Name x = MetricNameLabel \<and> m_Type x = Equal \<and> m_Value x = n"
  by (induction ms) (auto split: if_splits)

lemma named_match:
  assumes "metricNameFromLabelMatchers ms = Inr n" "all_match ms m"
  shows "map_of m MetricNameLabel = Some n"
  using metric_name_matcher [OF assms(1)] assms(2) by (auto simp: all_match_def Match_def)

lemma client_query:
  assumes "connected I H transport" "codecs_ok H" "u \<noteq> []" "\<forall>m\<in>set ms. built (ih_compile H) m" "metricNameFromLabelMatchers ms = Inr n"
    and "ingester_ok I (W h)" "NewIngesterClient H transport h = Inr c"
  shows "\<exists>M i. c_Query c (WithID Background u) a b ms W = Ret (Inr (M, W(h := i))) \<and> ingester_ok I i \<and> ing_samples I i = ing_samples I (W h) \<and>
    ing_stopped i = ing_stopped (W h) \<and> headroom i = headroom (W h) \<and> answer (ing_samples I (W h)) u a b ms M"
proof -
  let ?N = "setupIngester I H h"
  have r: "reaches transport h ingester_mux ?N" using assms(1) by (simp add: connected_def)
  have "fair (ih_ord H)" using assms(2) by (simp add: codecs_ok_def)
  then obtain M i where M: "Ingester_Query I (ih_ord H) (WithID Background u) a b ms (W h) = Ret (Inr (M, i))" "ingester_ok I i"
    "ing_samples I i = ing_samples I (W h)" "ing_stopped i = ing_stopped (W h)" "headroom i = headroom (W h)"
    "answer (ing_samples I (W h)) u a b ms M"
    using Ingester_Query_ok [OF _ assms(6)] by blast
  have row: "wf_metric (ss_Metric ss) \<and> with_name (ss_Metric ss) = ss_Metric ss" if "ss \<in> set M" for ss
  proof -
    have "ing_samples I (W h) u (ss_Metric ss) \<noteq> [] \<and> all_match ms (ss_Metric ss)" using M(6) that by (auto simp: answer_def)
    then have "wf_metric (ss_Metric ss)" "map_of (ss_Metric ss) MetricNameLabel = Some n"
      using stored_good [OF assms(6)] named_match [OF assms(5)] by blast+
    then show ?thesis using with_name_id by blast
  qed
  then have same: "map (\<lambda>ss. ss\<lparr>ss_Metric := with_name (ss_Metric ss)\<rparr>) M = M" by (intro map_idI) simp
  have "Client_Query (ih_ReadRequest ?N) (ih_ReadResponse ?N) (ih_snappy H) transport h (WithID Background u) a b ms W =
      Ret (Inr (map (\<lambda>ss. ss\<lparr>ss_Metric := with_name (ss_Metric ss)\<rparr>) M), W(h := i))"
    by (rule query_served [where query = "ih_Query ?N" and compile = "ih_compile ?N" and ord = "ih_ord ?N" and u = u])
      (use assms(2-4) M(1) row in \<open>simp_all add: codecs_ok_def host_query_def reached [OF r]\<close>)
  then show ?thesis using M assms(7) unfolding same by (auto simp: NewIngesterClient_def)
qed

lemma client_label_values:
  assumes "connected I H transport" "codecs_ok H" "u \<noteq> []" "ingester_ok I (W h)" "NewIngesterClient H transport h = Inr c"
  shows "\<exists>vs i. c_LabelValues c (WithID Background u) name W = Ret (Inr (vs, W(h := i))) \<and> ingester_ok I i \<and> ing_samples I i = ing_samples I (W h) \<and>
    ing_stopped i = ing_stopped (W h) \<and> headroom i = headroom (W h) \<and> values_of (ing_samples I (W h)) u name vs"
proof -
  let ?N = "setupIngester I H h"
  have r: "reaches transport h ingester_mux ?N" using assms(1) by (simp add: connected_def)
  have "fair (ih_ord H)" using assms(2) by (simp add: codecs_ok_def)
  then obtain vs i where vs: "Ingester_LabelValues (ih_ord H) (WithID Background u) name (W h) = Ret (Inr (vs, i))" "ingester_ok I i"
    "ing_samples I i = ing_samples I (W h)" "ing_stopped i = ing_stopped (W h)" "headroom i = headroom (W h)"
    "values_of (ing_samples I (W h)) u name vs"
    using Ingester_LabelValues_ok [OF _ assms(4)] by blast
  have "Client_LabelValues (ih_LabelValuesRequest ?N) (ih_LabelValuesResponse ?N) (ih_snappy H) transport h (WithID Background u) name W =
      Ret (Inr vs, W(h := i))"
    by (rule label_values_served [where lvs = "ih_LabelValues ?N" and u = u])
      (use assms(2,3) vs(1) in \<open>simp_all add: codecs_ok_def host_label_values_def reached [OF r]\<close>)
  then show ?thesis using vs assms(5) by (auto simp: NewIngesterClient_def)
qed

section \<open>Pushes to the cluster\<close>

text \<open>The samples for a host among the groups of an append.\<close>

definition group_for :: "(string \<times> Sample list) list \<Rightarrow> string \<Rightarrow> Sample list" where
  "group_for gs h = (case map_of gs h of None \<Rightarrow> [] | Some xs \<Rightarrow> xs)"

definition has_room :: "'c chunk_impl \<Rightarrow> string \<Rightarrow> nat \<Rightarrow> 'c Ingester \<Rightarrow> bool" where
  "has_room I u n i \<longleftrightarrow> ingester_ok I i \<and> \<not> ing_stopped i \<and> n \<le> headroom i u"

text \<open>What an ingester is after the samples \<open>xs\<close> of a user.\<close>

definition after_push :: "'c chunk_impl \<Rightarrow> string \<Rightarrow> Sample list \<Rightarrow> 'c Ingester \<Rightarrow> 'c Ingester \<Rightarrow> bool" where
  "after_push I u xs i i' \<longleftrightarrow> ingester_ok I i' \<and> \<not> ing_stopped i' \<and> (\<forall>u'. headroom i u' \<le> headroom i' u' + length xs) \<and>
     ing_samples I i' = snd (abs_append_all u xs (ing_samples I i))"

lemma send_cluster:
  assumes net: "connected I H transport" "codecs_ok H" "chunk_laws I" and u: "u \<noteq> []"
    and d: "clients_ok d" "clientFactory d = NewIngesterClient H transport"
    and xs: "\<forall>s\<in>set xs. valid_sample s" "has_room I u (length xs) (W h)"
  shows "\<exists>e d' i. sendSamples (WithID Background u) (h, xs) (d, W) = (e, d', W(h := i)) \<and> clients_ok d' \<and> d_ring d' = d_ring d \<and>
    clientFactory d' = NewIngesterClient H transport \<and>
    (e = None \<longleftrightarrow> fst (abs_append_all u xs (ing_samples I (W h))) = None) \<and> after_push I u xs (W h) i"
proof -
  let ?ctx = "WithID Background u"
  obtain c where c: "NewIngesterClient H transport h = Inr c" by (simp add: NewIngesterClient_def)
  obtain d1 where d1: "getClientFor h d = (Inr c, d1)" "clients_ok d1" "clientFactory d1 = clientFactory d" "d_ring d1 = d_ring d"
    using getClientFor_ok [OF d(1), of h c] c d(2) by auto
  have ford: "fair (ih_ord H)" using net(2) by (simp add: codecs_ok_def)
  have ok: "ingester_ok I (W h)" "\<not> ing_stopped (W h)" "\<not> headroom (W h) u < length xs" using xs(2) by (simp_all add: has_room_def)
  then obtain i where i: "Ingester_Append I (ih_ord H) ?ctx xs (W h) = Ret (fst (abs_append_all u xs (ing_samples I (W h))), i)" "ingester_ok I i"
    "\<not> ing_stopped i" "ing_samples I i = snd (abs_append_all u xs (ing_samples I (W h)))" "\<forall>u'. headroom (W h) u' \<le> headroom i u' + length xs"
    using Ingester_Append_ok [OF net(3) ford ok(1,2) xs(1), of Background u] by blast
  obtain e where e: "c_Append c ?ctx xs W = (e, W(h := i))" "e = None \<longleftrightarrow> fst (abs_append_all u xs (ing_samples I (W h))) = None"
    using client_append [where W = W and h = h, OF net(1,2) u xs(1) i(1) c] by (elim exE conjE) (rule that)
  have "sendSamples ?ctx (h, xs) (d, W) = (e, d1, W(h := i))" by (simp add: sendSamples_def d1(1) e(1))
  moreover have "after_push I u xs (W h) i" using i(2-5) by (simp add: after_push_def)
  ultimately show ?thesis using d1(2-4) e(2) unfolding d(2)
    by (intro exI [of _ e] exI [of _ d1] exI [of _ i] conjI)
qed

lemma send_all_cluster:
  assumes net: "connected I H transport" "codecs_ok H" "chunk_laws I" and u: "u \<noteq> []"
    and "clients_ok d" "clientFactory d = NewIngesterClient H transport" "distinct (map fst gs)"
    and "\<forall>h s. s \<in> set (group_for gs h) \<longrightarrow> valid_sample s" "\<forall>h. has_room I u (length (group_for gs h)) (W h)"
  shows "\<exists>es d' W'. send_all (WithID Background u) gs (d, W) = (es, d', W') \<and> clients_ok d' \<and> d_ring d' = d_ring d \<and>
    clientFactory d' = NewIngesterClient H transport \<and>
    (last_err es = None \<longleftrightarrow> (\<forall>h. fst (abs_append_all u (group_for gs h) (ing_samples I (W h))) = None)) \<and>
    (\<forall>h. after_push I u (group_for gs h) (W h) (W' h))"
  using assms(5-)
proof (induction gs arbitrary: d W)
  case Nil
  then show ?case by (simp add: group_for_def after_push_def has_room_def)
next
  case (Cons g gs)
  obtain h xs where g: "g = (h, xs)" by (cases g)
  have "h \<notin> fst ` set gs" using Cons.prems(3) by (simp add: g)
  then have gf: "group_for (g # gs) h = xs" "group_for gs h = []" and go: "\<And>k. k \<noteq> h \<Longrightarrow> group_for (g # gs) k = group_for gs k"
    by (auto simp: g group_for_def map_of_eq_None_iff [THEN iffD2])
  have "\<forall>s\<in>set xs. valid_sample s" "has_room I u (length xs) (W h)"
    using Cons.prems(4,5) [rule_format, where h = h] unfolding gf(1) by blast+
  from send_cluster [where W = W and h = h, OF net u Cons.prems(1,2) this] obtain e d1 i where
    s: "sendSamples (WithID Background u) (h, xs) (d, W) = (e, d1, W(h := i))" "clients_ok d1" "d_ring d1 = d_ring d"
    "clientFactory d1 = NewIngesterClient H transport" "e = None \<longleftrightarrow> fst (abs_append_all u xs (ing_samples I (W h))) = None"
    "after_push I u xs (W h) i"
    by (elim exE conjE) (rule that)
  have gs: "distinct (map fst gs)" using Cons.prems(3) by simp
  have valid: "\<forall>k s. s \<in> set (group_for gs k) \<longrightarrow> valid_sample s" using Cons.prems(4) gf(2) go by (metis empty_iff empty_set)
  have room: "\<forall>k. has_room I u (length (group_for gs k)) ((W(h := i)) k)"
  proof
    fix k
    show "has_room I u (length (group_for gs k)) ((W(h := i)) k)"
      using Cons.prems(5) [rule_format, of k] go [of k] gf(2) s(6) by (cases "k = h") (simp_all add: has_room_def after_push_def)
  qed
  from Cons.IH [OF s(2,4) gs valid room] obtain es d' W' where r: "send_all (WithID Background u) gs (d1, W(h := i)) = (es, d', W')" "clients_ok d'" "d_ring d' = d_ring d1"
    "clientFactory d' = NewIngesterClient H transport"
    "last_err es = None \<longleftrightarrow> (\<forall>k. fst (abs_append_all u (group_for gs k) (ing_samples I ((W(h := i)) k))) = None)"
    "\<forall>k. after_push I u (group_for gs k) ((W(h := i)) k) (W' k)"
    by (elim exE conjE) (rule that)
  have rest: "(\<forall>k. fst (abs_append_all u (group_for gs k) (ing_samples I ((W(h := i)) k))) = None) \<longleftrightarrow>
      (\<forall>k. k \<noteq> h \<longrightarrow> fst (abs_append_all u (group_for (g # gs) k) (ing_samples I (W k))) = None)"
    using go gf(2) by auto
  have "last_err (e # es) = None \<longleftrightarrow> e = None \<and> last_err es = None" by (simp add: last_err_None_iff)
  then have "last_err (e # es) = None \<longleftrightarrow> (\<forall>k. fst (abs_append_all u (group_for (g # gs) k) (ing_samples I (W k))) = None)"
    unfolding r(5) rest s(5) using gf(1) by metis
  moreover have "after_push I u (group_for (g # gs) k) (W k) (W' k)" for k
  proof (cases "k = h")
    case True
    have "after_push I u [] i (W' h)" using r(6) [rule_format, of h] gf(2) by simp
    then have "after_push I u xs (W h) (W' h)" using s(6) by (fastforce simp: after_push_def intro: order_trans)
    then show ?thesis using True gf(1) by simp
  qed (use r(6) [rule_format, of k] go in simp)
  ultimately show ?case using r(1-4) s(1,3) by (auto simp: g)
qed

lemma push_specD: "push_spec u ss A A' \<Longrightarrow> \<exists>n. A' u m = snd (feed (take n (of_metric m ss)) (A u m))"
  by (simp add: push_spec_def)

lemma after_push_placed:
  assumes "\<forall>s\<in>set ss. valid_sample s" "node_ok I r n h i" "length ss \<le> n"
    and "after_push I u (filter (\<lambda>s. home r u (s_Metric s) = h) ss) i i'"
  shows "node_ok I r (n - length ss) h i'"
proof -
  let ?xs = "filter (\<lambda>s. home r u (s_Metric s) = h) ss"
  have ps: "push_spec u ?xs (ing_samples I i) (ing_samples I i')"
    using abs_append_all_feed [of u ?xs "ing_samples I i"] assms(4) by (simp add: after_push_def)
  have "home r u' m = h" if ne: "ing_samples I i' u' m \<noteq> []" for u' m
  proof (rule ccontr)
    assume no: "home r u' m \<noteq> h"
    then have "ing_samples I i u' m = []" using assms(2) by (auto simp: node_ok_def)
    moreover have "ing_samples I i' u' m = ing_samples I i u' m"
    proof (cases "u' = u")
      case True
      then show ?thesis using push_specD [OF ps, of m] no of_metric_owned [OF assms(1), of m r u h] by simp
    qed (use ps in \<open>simp add: push_spec_def\<close>)
    ultimately show False using ne by simp
  qed
  moreover have "n - length ss \<le> headroom i' u'" for u'
  proof -
    have "n \<le> headroom i u'" "headroom i u' \<le> headroom i' u' + length ?xs"
      using assms(2,4) by (simp_all add: node_ok_def after_push_def)
    moreover have "length ?xs \<le> length ss" by (rule length_filter_le)
    ultimately show ?thesis by linarith
  qed
  moreover have "ingester_ok I i'" "\<not> ing_stopped i'" using assms(4) by (simp_all add: after_push_def)
  ultimately show ?thesis unfolding node_ok_def by blast
qed

text \<open>What the hosts do with their samples is what the cluster does with all of them.\<close>

lemma hosts_push_spec:
  assumes "\<forall>s\<in>set ss. valid_sample s"
    and "\<forall>h. after_push I u (filter (\<lambda>s. home r u (s_Metric s) = h) ss) (W h) (W' h)"
  shows "(\<forall>h. fst (abs_append_all u (filter (\<lambda>s. home r u (s_Metric s) = h) ss) (ing_samples I (W h))) = None) \<longleftrightarrow>
      accepted u ss (cluster_samples I r W)"
    and "push_spec u ss (cluster_samples I r W) (cluster_samples I r W')"
proof -
  let ?xs = "\<lambda>h. filter (\<lambda>s. home r u (s_Metric s) = h) ss"
  have ps: "push_spec u (?xs h) (ing_samples I (W h)) (ing_samples I (W' h))"
    and ac: "fst (abs_append_all u (?xs h) (ing_samples I (W h))) = None \<longleftrightarrow> accepted u (?xs h) (ing_samples I (W h))" for h
    using abs_append_all_feed [of u "?xs h" "ing_samples I (W h)"] assms(2) [rule_format, of h] by (simp_all add: after_push_def)
  have own: "accepted u (?xs h) (ing_samples I (W h)) \<longleftrightarrow>
      (\<forall>m. home r u m = h \<longrightarrow> fst (feed (of_metric m ss) (ing_samples I (W h) u m)) = None)" for h
    by (auto simp: accepted_def of_metric_owned [OF assms(1)])
  show all: "(\<forall>h. fst (abs_append_all u (?xs h) (ing_samples I (W h))) = None) \<longleftrightarrow> accepted u ss (cluster_samples I r W)"
    unfolding ac own by (auto simp: accepted_def cluster_samples_def)
  have "\<exists>n. cluster_samples I r W' u m = snd (feed (take n (of_metric m ss)) (cluster_samples I r W u m))" for m
    using push_specD [OF ps [of "home r u m"], of m] by (simp add: of_metric_owned [OF assms(1)] cluster_samples_def)
  moreover have "cluster_samples I r W' u m = snd (feed (of_metric m ss) (cluster_samples I r W u m))"
    if "accepted u ss (cluster_samples I r W)" for m
  proof -
    have "accepted u (?xs (home r u m)) (ing_samples I (W (home r u m)))" using that all ac by blast
    then have "ing_samples I (W' (home r u m)) u m = snd (feed (of_metric m (?xs (home r u m))) (ing_samples I (W (home r u m)) u m))"
      using ps [of "home r u m"] by (simp add: push_spec_def)
    then show ?thesis by (simp add: of_metric_owned [OF assms(1)] cluster_samples_def)
  qed
  moreover have "cluster_samples I r W' u' = cluster_samples I r W u'" if "u' \<noteq> u" for u'
    using ps that by (simp add: push_spec_def cluster_samples_def fun_eq_iff)
  ultimately show "push_spec u ss (cluster_samples I r W) (cluster_samples I r W')" by (simp add: push_spec_def)
qed

lemma cluster_push:
  assumes net: "connected I H transport" "codecs_ok H" "chunk_laws I" "wf_desc (ringDesc r)" "Tokens (ringDesc r) \<noteq> []" "fair sched"
    and u: "u \<noteq> []" and ss: "\<forall>s\<in>set ss. valid_sample s" "length ss \<le> n" and inv: "cluster_inv I H transport r n (d, W)"
  shows "\<exists>e d' W'. Append ring_Get sched (WithID Background u) ss (d, W) = (e, d', W') \<and>
    cluster_inv I H transport r (n - length ss) (d', W') \<and> (e = None \<longleftrightarrow> accepted u ss (cluster_samples I r W)) \<and>
    push_spec u ss (cluster_samples I r W) (cluster_samples I r W')"
proof -
  let ?xs = "\<lambda>h. filter (\<lambda>s. home r u (s_Metric s) = h) ss"
  have d: "clients_ok d" "d_ring d = r" "clientFactory d = NewIngesterClient H transport" and node: "\<And>h. node_ok I r n h (W h)"
    using inv by (auto simp: cluster_inv_def)
  have "\<exists>x. ring_Get r 0 = Inr x" using net(5) by (simp add: ring_Get_def Let_def)
  then have cov: "ringread.covers r u ss" using ringread.covers_all [OF net(4)] by blast
  from ringread.groups_per_host [OF this net(6)] obtain g where
    g: "group_samples ring_Get r u ss [] = Inr g" "distinct (map fst (permute sched g))"
    "\<forall>h. (case map_of (permute sched g) h of None \<Rightarrow> [] | Some xs \<Rightarrow> xs) = filter (\<lambda>s. ringread.host r u s = h) ss"
    by blast
  have gf: "group_for (permute sched g) h = ?xs h" for h using g(3) by (simp add: group_for_def host_home)
  have valid: "\<forall>h s. s \<in> set (group_for (permute sched g) h) \<longrightarrow> valid_sample s" using ss(1) by (simp add: gf)
  have room: "\<forall>h. has_room I u (length (group_for (permute sched g) h)) (W h)"
  proof
    fix h
    have "length (?xs h) \<le> n" using ss(2) length_filter_le order_trans by blast
    moreover have "n \<le> headroom (W h) u" using node [of h] by (simp add: node_ok_def)
    ultimately have "length (?xs h) \<le> headroom (W h) u" by linarith
    then show "has_room I u (length (group_for (permute sched g) h)) (W h)" using node [of h] by (simp add: gf has_room_def node_ok_def)
  qed
  from send_all_cluster [OF net(1-3) u d(1,3) g(2) valid room] obtain es d' W' where
    sent: "send_all (WithID Background u) (permute sched g) (d, W) = (es, d', W')" "clients_ok d'" "d_ring d' = d_ring d"
    "clientFactory d' = NewIngesterClient H transport"
    "last_err es = None \<longleftrightarrow> (\<forall>h. fst (abs_append_all u (group_for (permute sched g) h) (ing_samples I (W h))) = None)"
    "\<forall>h. after_push I u (group_for (permute sched g) h) (W h) (W' h)"
    by (elim exE conjE) (rule that)
  have ap: "\<forall>h. after_push I u (?xs h) (W h) (W' h)" using sent(6) by (simp add: gf)
  have "node_ok I r (n - length ss) h (W' h)" for h by (rule after_push_placed [OF ss(1) node ss(2) ap [rule_format]])
  then have "cluster_inv I H transport r (n - length ss) (d', W')" using sent(2-4) d(2) by (simp add: cluster_inv_def)
  moreover have "Append ring_Get sched (WithID Background u) ss (d, W) = (last_err es, d', W')"
    by (simp add: Append_def d(2) g(1) sent(1))
  moreover have "last_err es = None \<longleftrightarrow> accepted u ss (cluster_samples I r W)"
    unfolding sent(5) gf by (rule hosts_push_spec(1) [OF ss(1) ap])
  ultimately show ?thesis using hosts_push_spec(2) [OF ss(1) ap]
    by (intro exI [of _ "last_err es"] exI [of _ d'] exI [of _ W'] conjI)
qed

section \<open>Queries to the cluster\<close>

text \<open>A call that reads leaves the samples of every host as they are.\<close>

definition same_node :: "'c chunk_impl \<Rightarrow> 'c Ingester \<Rightarrow> 'c Ingester \<Rightarrow> bool" where
  "same_node I i i' \<longleftrightarrow> ingester_ok I i' \<and> ing_samples I i' = ing_samples I i \<and> ing_stopped i' = ing_stopped i \<and> headroom i' = headroom i"

lemma read_keeps_inv:
  assumes "cluster_inv I H transport r n (d, W)" "clients_ok d'" "d_ring d' = d_ring d" "clientFactory d' = clientFactory d" "same_node I (W h) i"
  shows "cluster_inv I H transport r n (d', W(h := i))" "ing_samples I ((W(h := i)) k) = ing_samples I (W k)"
  using assms by (auto simp: cluster_inv_def node_ok_def same_node_def)

lemma answer_cong:
  assumes "\<And>m. all_match ms m \<Longrightarrow> A u m = B u m"
  shows "answer A u a b ms M \<longleftrightarrow> answer B u a b ms M"
proof -
  have "(x = \<lparr>ss_Metric = m, ss_Values = in_range a b (A u m)\<rparr> \<and> ms \<noteq> [] \<and> A u m \<noteq> [] \<and> all_match ms m) \<longleftrightarrow>
      (x = \<lparr>ss_Metric = m, ss_Values = in_range a b (B u m)\<rparr> \<and> ms \<noteq> [] \<and> B u m \<noteq> [] \<and> all_match ms m)" for x m
    using assms [of m] by (cases "all_match ms m") simp_all
  then show ?thesis by (simp add: answer_def)
qed

lemma cluster_client_query:
  assumes net: "connected I H transport" "codecs_ok H" "Tokens (ringDesc r) \<noteq> []" and u: "u \<noteq> []"
    and ms: "\<forall>m\<in>set ms. built (ih_compile H) m" "metricNameFromLabelMatchers ms = Inr name" and inv: "cluster_inv I H transport r n (d, W)"
  shows "\<exists>x c d' M W'. ring_Get r (tokenFor u name) = Inr x \<and> getClientFor (Hostname x) d = (Inr c, d') \<and>
    c_Query c (WithID Background u) a b ms W = Ret (Inr (M, W')) \<and>
    cluster_inv I H transport r n (d', W') \<and> cluster_samples I r W' = cluster_samples I r W \<and> answer (cluster_samples I r W) u a b ms M"
proof -
  obtain x where x: "ring_Get r (tokenFor u name) = Inr x" using net(3) by (simp add: ring_Get_def Let_def)
  let ?h = "Hostname x"
  have d: "clients_ok d" "d_ring d = r" "clientFactory d = NewIngesterClient H transport" and ok: "ingester_ok I (W ?h)"
    using inv by (auto simp: cluster_inv_def node_ok_def)
  obtain c where c: "NewIngesterClient H transport ?h = Inr c" by (simp add: NewIngesterClient_def)
  obtain d1 where d1: "getClientFor ?h d = (Inr c, d1)" "clients_ok d1" "clientFactory d1 = clientFactory d" "d_ring d1 = d_ring d"
    using getClientFor_ok [OF d(1), of ?h c] c d(3) by auto
  from client_query [where W = W and h = ?h and a = a and b = b, OF net(1,2) u ms ok c] obtain M i where
    M: "c_Query c (WithID Background u) a b ms W = Ret (Inr (M, W(?h := i)))" "ingester_ok I i" "ing_samples I i = ing_samples I (W ?h)"
    "ing_stopped i = ing_stopped (W ?h)" "headroom i = headroom (W ?h)" "answer (ing_samples I (W ?h)) u a b ms M"
    by (elim exE conjE) (rule that)
  have same: "same_node I (W ?h) i" using M(2-5) by (simp add: same_node_def)
  note kept = read_keeps_inv [OF inv d1(2,4,3) same]
  have here: "home r u m = ?h" if "all_match ms m" for m
    using named_match [OF ms(2) that] x by (simp add: home_def tokenForMetric_def label_get_def)
  have "answer (cluster_samples I r W) u a b ms M"
    using M(6) answer_cong [of ms "ing_samples I (W ?h)" u "cluster_samples I r W"] here by (simp add: cluster_samples_def)
  moreover have "cluster_samples I r (W(?h := i)) = cluster_samples I r W" unfolding cluster_samples_def fun_eq_iff kept(2) by simp
  ultimately show ?thesis using x d1(1) M(1) kept(1)
    by (intro exI [of _ x] exI [of _ c] exI [of _ d1] exI [of _ M] exI [of _ "W(?h := i)"] conjI)
qed

lemma cluster_query:
  assumes net: "connected I H transport" "codecs_ok H" "Tokens (ringDesc r) \<noteq> []" and u: "u \<noteq> []"
    and ms: "\<forall>m\<in>set ms. built (ih_compile H) m" "metricNameFromLabelMatchers ms = Inr name" and inv: "cluster_inv I H transport r n (d, W)"
  shows "\<exists>M d' W'. Distributor_Query ring_Get (WithID Background u) a b ms (d, W) = Ret (Inr (M, d', W')) \<and>
    cluster_inv I H transport r n (d', W') \<and> cluster_samples I r W' = cluster_samples I r W \<and> answer (cluster_samples I r W) u a b ms M"
proof -
  from cluster_client_query [where a = a and b = b, OF assms] obtain x c d' M W' where
    q: "ring_Get r (tokenFor u name) = Inr x" "getClientFor (Hostname x) d = (Inr c, d')" "c_Query c (WithID Background u) a b ms W = Ret (Inr (M, W'))"
    "cluster_inv I H transport r n (d', W')" "cluster_samples I r W' = cluster_samples I r W" "answer (cluster_samples I r W) u a b ms M"
    by (elim exE conjE) (rule that)
  have "d_ring d = r" using inv by (simp add: cluster_inv_def)
  then have "Distributor_Query ring_Get (WithID Background u) a b ms (d, W) = Ret (Inr (M, d', W'))"
    using q(1-3) by (simp add: Distributor_Query_def ms(2))
  then show ?thesis using q(4-6) by (intro exI [of _ M] exI [of _ d'] exI [of _ W'] conjI)
qed

lemma label_values_loop_cluster:
  assumes net: "connected I H transport" "codecs_ok H" and u: "u \<noteq> []" and "cluster_inv I H transport r n (d, W)" "distinct acc"
  shows "\<exists>vs d' W'. label_values_loop cs (WithID Background u) name acc (d, W) = Ret (Inr (vs, d', W')) \<and>
    cluster_inv I H transport r n (d', W') \<and> cluster_samples I r W' = cluster_samples I r W \<and> distinct vs \<and>
    set vs = set acc \<union> {v. \<exists>c\<in>set cs. \<exists>m. ing_samples I (W (Hostname c)) u m \<noteq> [] \<and> map_of m name = Some v}"
  using assms(4,5)
proof (induction cs arbitrary: d W acc)
  case Nil
  then show ?case by simp
next
  case (Cons x cs)
  let ?h = "Hostname x"
  have d: "clients_ok d" "d_ring d = r" "clientFactory d = NewIngesterClient H transport" and ok: "ingester_ok I (W ?h)"
    using Cons.prems(1) by (auto simp: cluster_inv_def node_ok_def)
  obtain c where c: "NewIngesterClient H transport ?h = Inr c" by (simp add: NewIngesterClient_def)
  obtain d1 where d1: "getClientFor ?h d = (Inr c, d1)" "clients_ok d1" "clientFactory d1 = clientFactory d" "d_ring d1 = d_ring d"
    using getClientFor_ok [OF d(1), of ?h c] c d(3) by auto
  from client_label_values [where W = W and h = ?h and name = name, OF net u ok c] obtain ws i where
    ws: "c_LabelValues c (WithID Background u) name W = Ret (Inr (ws, W(?h := i)))" "ingester_ok I i" "ing_samples I i = ing_samples I (W ?h)"
    "ing_stopped i = ing_stopped (W ?h)" "headroom i = headroom (W ?h)" "values_of (ing_samples I (W ?h)) u name ws"
    by (elim exE conjE) (rule that)
  have same: "same_node I (W ?h) i" using ws(2-5) by (simp add: same_node_def)
  note kept = read_keeps_inv [OF Cons.prems(1) d1(2,4,3) same]
  have dist: "distinct (add_all acc ws)" using set_add_all [of acc ws] Cons.prems(2) by blast
  from Cons.IH [OF kept(1) dist] obtain vs d' W' where
    r: "label_values_loop cs (WithID Background u) name (add_all acc ws) (d1, W(?h := i)) = Ret (Inr (vs, d', W'))"
    "cluster_inv I H transport r n (d', W')" "cluster_samples I r W' = cluster_samples I r (W(?h := i))" "distinct vs"
    "set vs = set (add_all acc ws) \<union> {v. \<exists>c\<in>set cs. \<exists>m. ing_samples I ((W(?h := i)) (Hostname c)) u m \<noteq> [] \<and> map_of m name = Some v}"
    by (elim exE conjE) (rule that)
  have "cluster_samples I r (W(?h := i)) = cluster_samples I r W" unfolding cluster_samples_def fun_eq_iff kept(2) by simp
  moreover have "set ws = {v. \<exists>m. ing_samples I (W ?h) u m \<noteq> [] \<and> map_of m name = Some v}" using ws(6) by (simp add: values_of_def)
  then have "set vs = set acc \<union> {v. \<exists>c\<in>set (x # cs). \<exists>m. ing_samples I (W (Hostname c)) u m \<noteq> [] \<and> map_of m name = Some v}"
    using r(5) set_add_all [of acc ws] unfolding kept(2) by auto
  ultimately show ?case using r(1-4) by (simp add: d1(1) ws(1))
qed

lemma home_member:
  assumes "wf_desc (ringDesc r)" "Tokens (ringDesc r) \<noteq> []" "set roster = dom (Ingesters (ringDesc r))"
  shows "\<exists>c\<in>set (ring_GetAll roster r). home r u m = Hostname c"
proof -
  obtain x where x: "ring_Get r (tokenForMetric u m) = Inr x" using assms(2) by (simp add: ring_Get_def Let_def)
  then have "x \<in> ran (Ingesters (ringDesc r))" by (rule ringread.get_member [OF assms(1)])
  then obtain k where "Ingesters (ringDesc r) k = Some x" by (auto simp: ran_def)
  moreover from this have "k \<in> set roster" using assms(3) by blast
  ultimately have "x \<in> set (ring_GetAll roster r)" unfolding ring_GetAll_def by force
  then show ?thesis using x by (auto simp: home_def)
qed

lemma cluster_label_values:
  assumes net: "connected I H transport" "codecs_ok H" "wf_desc (ringDesc r)" "Tokens (ringDesc r) \<noteq> []" "fair sched" and u: "u \<noteq> []"
    and roster: "set roster = dom (Ingesters (ringDesc r))" and inv: "cluster_inv I H transport r n (d, W)"
  shows "\<exists>vs d' W'. Distributor_LabelValues (ring_GetAll roster) sched (WithID Background u) name (d, W) = Ret (Inr (vs, d', W')) \<and>
    cluster_inv I H transport r n (d', W') \<and> cluster_samples I r W' = cluster_samples I r W \<and> values_of (cluster_samples I r W) u name vs"
proof -
  from label_values_loop_cluster [OF net(1,2) u inv distinct.simps(1) [THEN iffD2, OF TrueI], of "ring_GetAll roster r" name]
  obtain vs d' W' where
    r: "label_values_loop (ring_GetAll roster r) (WithID Background u) name [] (d, W) = Ret (Inr (vs, d', W'))"
    "cluster_inv I H transport r n (d', W')" "cluster_samples I r W' = cluster_samples I r W" "distinct vs"
    "set vs = set [] \<union> {v. \<exists>c\<in>set (ring_GetAll roster r). \<exists>m. ing_samples I (W (Hostname c)) u m \<noteq> [] \<and> map_of m name = Some v}"
    by (elim exE conjE) (rule that)
  have placed: "ing_samples I (W h) u m \<noteq> [] \<Longrightarrow> home r u m = h" for h m
    using inv by (auto simp: cluster_inv_def node_ok_def)
  have has: "(\<exists>c\<in>set (ring_GetAll roster r). ing_samples I (W (Hostname c)) u m \<noteq> []) \<longleftrightarrow> cluster_samples I r W u m \<noteq> []" for m
    using home_member [OF net(3,4) roster, of u m] placed unfolding cluster_samples_def by metis
  have "set vs = {v. \<exists>m. (\<exists>c\<in>set (ring_GetAll roster r). ing_samples I (W (Hostname c)) u m \<noteq> []) \<and> map_of m name = Some v}"
    using r(5) by auto
  then have "set vs = {v. \<exists>m. cluster_samples I r W u m \<noteq> [] \<and> map_of m name = Some v}" unfolding has .
  moreover have "distinct (permute sched vs)" using r(4) mset_permute [OF net(5), of vs] by (metis mset_eq_imp_distinct_iff)
  ultimately have "values_of (cluster_samples I r W) u name (permute sched vs)"
    by (simp add: values_of_def set_permute [OF net(5)])
  moreover have "d_ring d = r" using inv by (simp add: cluster_inv_def)
  ultimately show ?thesis using r(1-3) by (simp add: Distributor_LabelValues_def)
qed

section \<open>Histories of the cluster\<close>

lemma cluster_calls_ok:
  assumes net: "connected I H transport" "codecs_ok H" "chunk_laws I" "wf_desc (ringDesc r)" "Tokens (ringDesc r) \<noteq> []" "fair sched"
    and roster: "set roster = dom (Ingesters (ringDesc r))"
    and "cluster_inv I H transport r n (d, W)" "\<forall>c\<in>set cs. cluster_valid (ih_compile H) c" "pushed cs \<le> n"
  shows "\<exists>rs dw. cluster_calls sched roster cs (d, W) = Ret (rs, dw) \<and> cluster_results (cluster_samples I r W) cs rs"
  using assms(8-)
proof (induction cs arbitrary: n d W)
  case Nil
  then show ?case by simp
next
  case (Cons c cs)
  have valid: "\<forall>c\<in>set cs. cluster_valid (ih_compile H) c" "cluster_valid (ih_compile H) c" using Cons.prems(2) by simp_all
  have step: ?case
    if "cluster_call sched roster c (d, W) = Ret (r0, d', W')" "cluster_inv I H transport r n' (d', W')" "pushed cs \<le> n'"
      "\<And>rs. cluster_results (cluster_samples I r W') cs rs \<Longrightarrow> cluster_results (cluster_samples I r W) (c # cs) (r0 # rs)"
    for r0 d' W' n'
    using Cons.IH [OF that(2) valid(1) that(3)] that(1,4) by auto
  show ?case
  proof (cases c)
    case (Push u ss)
    have v: "u \<noteq> []" "\<forall>s\<in>set ss. valid_sample s" using valid(2) Push by simp_all
    have n: "length ss \<le> n" "pushed cs \<le> n - length ss" using Cons.prems(3) Push by (simp_all add: pushed_def)
    from cluster_push [OF net v n(1) Cons.prems(1)] obtain e d' W' where
      p: "Append ring_Get sched (WithID Background u) ss (d, W) = (e, d', W')" "cluster_inv I H transport r (n - length ss) (d', W')"
      "e = None \<longleftrightarrow> accepted u ss (cluster_samples I r W)" "push_spec u ss (cluster_samples I r W) (cluster_samples I r W')"
      by (elim exE conjE) (rule that)
    show ?thesis
      by (rule step [OF _ p(2) n(2), of "Pushed e"]) (use p(1,3,4) Push in \<open>auto simp: cluster_call_def\<close>)
  next
    case (Ask u a b ms)
    have v: "u \<noteq> []" "\<forall>m\<in>set ms. built (ih_compile H) m" and n: "pushed cs \<le> n"
      using valid(2) Cons.prems(3) Ask by (simp_all add: pushed_def)
    show ?thesis
    proof (cases "metricNameFromLabelMatchers ms")
      case (Inl e)
      then show ?thesis
        by (intro step [OF _ Cons.prems(1) n, of "Failed e"]) (simp_all add: cluster_call_def Ask Distributor_Query_def)
    next
      case (Inr name)
      from cluster_query [where a = a and b = b, OF net(1,2,5) v Inr Cons.prems(1)] obtain M d' W' where
        q: "Distributor_Query ring_Get (WithID Background u) a b ms (d, W) = Ret (Inr (M, d', W'))" "cluster_inv I H transport r n (d', W')"
        "cluster_samples I r W' = cluster_samples I r W" "answer (cluster_samples I r W) u a b ms M"
        by (elim exE conjE) (rule that)
      show ?thesis
        by (rule step [OF _ q(2) n, of "Answer M"]) (use q(1,3,4) Ask Inr in \<open>auto simp: cluster_call_def\<close>)
    qed
  next
    case (Values u name)
    have v: "u \<noteq> []" and n: "pushed cs \<le> n" using valid(2) Cons.prems(3) Values by (simp_all add: pushed_def)
    from cluster_label_values [where name = name, OF net(1,2,4-6) v roster Cons.prems(1)] obtain vs d' W' where
      l: "Distributor_LabelValues (ring_GetAll roster) sched (WithID Background u) name (d, W) = Ret (Inr (vs, d', W'))"
      "cluster_inv I H transport r n (d', W')" "cluster_samples I r W' = cluster_samples I r W" "values_of (cluster_samples I r W) u name vs"
      by (elim exE conjE) (rule that)
    show ?thesis
      by (rule step [OF _ l(2) n, of "ValueList vs"]) (use l(1,3,4) Values in \<open>auto simp: cluster_call_def\<close>)
  qed
qed

lemma cluster_inv_new: "cluster_inv I H transport r 1048576 (setupDistributor H transport r, \<lambda>h. NewIngester cfg)"
  by (simp add: cluster_inv_def node_ok_def setupDistributor_def NewDistributor_def clients_ok_def ingester_ok_new)


text \<open>
  Codecs that number the messages, two ingesters behind a ring, and a history of two users with a
  sample out of order, a query and a request for label values.
\<close>

instance TimeSeries_ext :: (countable) countable
  by (rule countable_classI [of "\<lambda>x. to_nat (ts_Labels x, ts_Samples x, TimeSeries.more x)"]) simp

instance GenericLabelMatcher_ext :: (countable) countable
  by (rule countable_classI [of "\<lambda>x. to_nat (gm_Type x, gm_Name x, gm_Value x, GenericLabelMatcher.more x)"]) simp

instance GenericReadRequest_ext :: (countable) countable
  by (rule countable_classI [of "\<lambda>x. to_nat (StartTimestampMs x, EndTimestampMs x, Matchers x, GenericReadRequest.more x)"]) simp

instance GenericTimeSeries_ext :: (countable) countable
  by (rule countable_classI [of "\<lambda>x. to_nat (g_Name x, g_Labels x, g_Samples x, GenericTimeSeries.more x)"]) simp

definition numbered :: "'m::countable Proto" where
  "numbered = \<lparr>p_Marshal = (\<lambda>x. Inr (show_nat (to_nat x))), p_Unmarshal = (\<lambda>b. Inr (from_nat (digits_val b)))\<rparr>"

lemma numbered_reads_back: "reads_back numbered x"
  by (simp add: reads_back_def numbered_def show_nat_reads)

definition demo_http :: "'w ingester_http" where
  "demo_http =
     \<lparr>ih_compile = (\<lambda>_. Inl (Err ''bad regexp'')), ih_ord = in_reverse, ih_snappy = \<lparr>compress = (\<lambda>b. b), decompress = Inr\<rparr>,
      ih_WriteRequest = numbered, ih_WriteResponse = numbered, ih_ReadRequest = numbered, ih_ReadResponse = numbered,
      ih_LabelValuesRequest = numbered, ih_LabelValuesResponse = numbered,
      ih_Append = (\<lambda>ctx ss w. Ret (None, w)), ih_Query = (\<lambda>ctx from to ms w. Ret (Inr ([], w))),
      ih_LabelValues = (\<lambda>ctx ln w. Ret (Inr ([], w)))\<rparr>"

definition demo_network :: "SamplePair list cluster transport" where
  "demo_network h r w =
     bind_go (ingester_serve ingester_mux (setupIngester pair_chunk demo_http h) r w) (\<lambda>(resp, w'). Ret (Inr resp, w'))"

lemma demo_connected: "connected pair_chunk demo_http demo_network"
  by (simp add: connected_def reaches_def demo_network_def)

lemma demo_codecs: "codecs_ok demo_http"
  by (simp add: codecs_ok_def demo_http_def snappy_ok_def numbered_reads_back)

definition cluster_demo :: "call list" where
  "cluster_demo =
     [Push ''u'' [\<lparr>s_Metric = [(''__name__'', ''up''), (''job'', ''x'')], s_Value = 1, s_Timestamp = 5\<rparr>,
                \<lparr>s_Metric = [(''__name__'', ''load'')], s_Value = 2, s_Timestamp = 5\<rparr>],
      Push ''u'' [\<lparr>s_Metric = [(''__name__'', ''load'')], s_Value = 2, s_Timestamp = 3\<rparr>],
      Push ''v'' [\<lparr>s_Metric = [(''__name__'', ''up'')], s_Value = 3, s_Timestamp = 7\<rparr>],
      Ask ''u'' 0 10 [name_matcher ''up''], Values ''v'' ''job'']"


end
