(* ===== verification/Durability.thy ===== *)
theory Durability
  imports Cluster Ingester_Shutdown Store_Lookup
begin

text \<open>
  The whole pipeline: pushes through the distributor, flushes of the ingesters to the chunk store,
  and queries that merge what ingesters and chunk store have. The chunk store is an argument, with
  the laws that \<open>Store_Properties\<close> shows of the one in \<open>chunk/chunk_store.go\<close>. A flush of an ingester
  runs without pushes or other flushes in between; \<open>Ingester_Flush\<close> has the interleavings.
\<close>

section \<open>The chunk store as its clients see it\<close>

definition frank_put :: "(string \<Rightarrow> 's \<Rightarrow> Chunk set) \<Rightarrow> 's putter \<Rightarrow> bool" where
  "frank_put kept put \<longleftrightarrow> (\<forall>u cs w. \<exists>e w'. put (WithID Background u) cs w = Ret (e, w') \<and>
     (\<forall>u'. kept u' w \<subseteq> kept u' w') \<and> (\<forall>u'. u' \<noteq> u \<longrightarrow> kept u' w' = kept u' w) \<and> kept u w' \<subseteq> kept u w \<union> set cs \<and>
     (e = None \<longrightarrow> set cs \<subseteq> kept u w'))"

definition frank_get :: "(string \<Rightarrow> 's \<Rightarrow> Chunk set) \<Rightarrow> 's store_get \<Rightarrow> bool" where
  "frank_get kept get \<longleftrightarrow> (\<forall>u a b ms w name ms'. fst (extractMetricName ms) = Inr (name, ms') \<longrightarrow>
     (\<exists>cs w'. get (WithID Background u) a b ms w = Ret (Inr (cs, w')) \<and> set cs = {c \<in> kept u w. selects a b name ms' c} \<and>
       (\<forall>u'. kept u' w' = kept u' w)))"

lemma frank_put_keeps: "frank_put kept put \<Longrightarrow> store_keeps kept put"
  unfolding frank_put_def store_keeps_def by (metis go.inject(1) prod.inject)

section \<open>What a flush changes\<close>

text \<open>A chunk holds samples, of its metric only and within its times.\<close>

definition chunk_of :: "(bytes \<Rightarrow> SamplePair list) \<Rightarrow> (metric \<Rightarrow> SamplePair list) \<Rightarrow> Chunk \<Rightarrow> bool" where
  "chunk_of dec B c \<longleftrightarrow> dec (Data c) \<noteq> [] \<and> (\<forall>v\<in>set (dec (Data c)). v \<in> set (B (Metric c)) \<and> From c \<le> sp_Timestamp v \<and> sp_Timestamp v \<le> Through c)"

text \<open>
  Of the samples \<open>B\<close> of a user the last ones are left, \<open>B'\<close>, at least one if there was one, and
  the others are in the store.
\<close>

definition flushed :: "(bytes \<Rightarrow> SamplePair list) \<Rightarrow> (string \<Rightarrow> 's \<Rightarrow> Chunk set) \<Rightarrow> string \<Rightarrow> (metric \<Rightarrow> SamplePair list) \<Rightarrow> 's \<Rightarrow>
    (metric \<Rightarrow> SamplePair list) \<Rightarrow> 's \<Rightarrow> bool" where
  "flushed dec kept u B w B' w' \<longleftrightarrow>
     kept u w \<subseteq> kept u w' \<and> (\<forall>c\<in>kept u w' - kept u w. chunk_of dec B c) \<and>
     (\<forall>m. \<exists>pre. B m = pre @ B' m \<and> (pre \<noteq> [] \<longrightarrow> B' m \<noteq> []) \<and> (\<forall>v\<in>set pre. in_chunks dec m (kept u w') v))"

lemma flushed_refl: "flushed dec kept u B w B w"
  by (simp add: flushed_def)

lemma chunk_of_mono: "chunk_of dec B' c \<Longrightarrow> (\<And>m. set (B' m) \<subseteq> set (B m)) \<Longrightarrow> chunk_of dec B c"
  unfolding chunk_of_def by blast

lemma flushed_suffix: "flushed dec kept u B w B' w' \<Longrightarrow> set (B' m) \<subseteq> set (B m)"
  unfolding flushed_def by (metis Un_upper2 set_append)

lemma flushed_trans:
  assumes "flushed dec kept u B w B1 w1" "flushed dec kept u B1 w1 B2 w2"
  shows "flushed dec kept u B w B2 w2"
proof -
  have g: "kept u w \<subseteq> kept u w1" "kept u w1 \<subseteq> kept u w2" using assms by (simp_all add: flushed_def)
  have "chunk_of dec B c" if "c \<in> kept u w2 - kept u w" for c
  proof (cases "c \<in> kept u w1")
    case True
    then show ?thesis using assms(1) that by (simp add: flushed_def)
  next
    case False
    then have "chunk_of dec B1 c" using assms(2) that by (simp add: flushed_def)
    then show ?thesis using flushed_suffix [OF assms(1)] by (rule chunk_of_mono)
  qed
  moreover have "\<exists>pre. B m = pre @ B2 m \<and> (pre \<noteq> [] \<longrightarrow> B2 m \<noteq> []) \<and> (\<forall>v\<in>set pre. in_chunks dec m (kept u w2) v)" for m
  proof -
    obtain p1 where p1: "B m = p1 @ B1 m" "p1 \<noteq> [] \<longrightarrow> B1 m \<noteq> []" "\<forall>v\<in>set p1. in_chunks dec m (kept u w1) v"
      using assms(1) unfolding flushed_def by blast
    obtain p2 where p2: "B1 m = p2 @ B2 m" "p2 \<noteq> [] \<longrightarrow> B2 m \<noteq> []" "\<forall>v\<in>set p2. in_chunks dec m (kept u w2) v"
      using assms(2) unfolding flushed_def by blast
    have "\<forall>v\<in>set (p1 @ p2). in_chunks dec m (kept u w2) v" using p1(3) p2(3) in_chunks_mono [OF _ g(2)] by auto
    moreover have "B m = (p1 @ p2) @ B2 m" using p1(1) p2(1) by simp
    moreover have "p1 @ p2 \<noteq> [] \<longrightarrow> B2 m \<noteq> []" using p1(2) p2(1,2) by auto
    ultimately show ?thesis by blast
  qed
  ultimately show ?thesis using g unfolding flushed_def by blast
qed

section \<open>Flushing a series\<close>

lemma sorted_ends: "sorted (map f xs) \<Longrightarrow> v \<in> set xs \<Longrightarrow> f (hd xs) \<le> f v \<and> f v \<le> f (last xs)"
proof (induction xs)
  case (Cons x xs)
  then show ?case by (cases "xs = []") auto
qed simp

lemma wire_chunks_of:
  assumes "wf_series I s" "closed_prefix (length cds) s" "cds = take (length cds) (chunkDescs s)" "decodes I dec"
    and "wire_chunks I fp (ms_metric s) cds = Inr ws" "c \<in> set ws" "B (ms_metric s) = memory_samples I s"
  shows "chunk_of dec B c"
proof -
  have "\<exists>cd\<in>set cds. \<exists>b. ch_marshal I (cd_c cd) = Inr b \<and> c = wire_chunk fp (ms_metric s) cd b"
    using assms(5,6)
  proof (induction cds arbitrary: ws)
    case (Cons x cds)
    then obtain b ws' where "ch_marshal I (cd_c x) = Inr b" "wire_chunks I fp (ms_metric s) cds = Inr ws'" "ws = wire_chunk fp (ms_metric s) x b # ws'"
      by (auto split: sum.splits)
    then show ?case using Cons.IH [of ws'] Cons.prems(2) by auto
  qed simp
  then obtain cd b where cd: "cd \<in> set cds" "ch_marshal I (cd_c cd) = Inr b" "c = wire_chunk fp (ms_metric s) cd b" by blast
  have mem: "cd \<in> set (chunkDescs s)" using cd(1) assms(3) by (metis in_set_takeD)
  have "wf_desc_chunk I True cd"
  proof (cases "cd \<in> set (butlast (chunkDescs s))")
    case False
    obtain cds0 h where cds0: "chunkDescs s = cds0 @ [h]" using assms(1) by (cases "chunkDescs s" rule: rev_cases) (simp_all add: wf_series_def)
    have "cd \<notin> set cds0" using False cds0 by simp
    moreover have "cd = h" using calculation mem cds0 by simp
    moreover have "length cds = length (chunkDescs s)"
    proof (rule ccontr)
      assume "length cds \<noteq> length (chunkDescs s)"
      then have "length cds \<le> length cds0" using assms(2) cds0 by (simp add: closed_prefix_def)
      then have "cds = take (length cds) cds0" using assms(3) cds0 by simp
      then have "cd \<in> set cds0" using cd(1) by (metis in_set_takeD)
      then show False using calculation(1) by blast
    qed
    ultimately show ?thesis using assms(1,2) cds0 by (simp add: wf_series_def closed_prefix_def)
  qed (use assms(1) in \<open>simp add: wf_series_def\<close>)
  then have times: "chunkFirstTime cd = sp_Timestamp (hd (cd_samples I cd))" "chunkLastTime cd = sp_Timestamp (last (cd_samples I cd))"
    by (simp_all add: wf_desc_chunk_def)
  have "in_time_order (cd_samples I cd)" by (rule wf_series_chunk(4) [OF assms(1) mem])
  then have "sorted (map sp_Timestamp (cd_samples I cd))" by (simp add: in_time_order_def strict_sorted_imp_sorted)
  then have within: "sp_Timestamp (hd (cd_samples I cd)) \<le> sp_Timestamp v \<and> sp_Timestamp v \<le> sp_Timestamp (last (cd_samples I cd))"
    if "v \<in> set (cd_samples I cd)" for v
    using that by (rule sorted_ends)
  have "dec b = cd_samples I cd" using assms(4) cd(2) by (simp add: decodes_def cd_samples_def)
  moreover have "cd_samples I cd \<noteq> []" by (rule wf_series_chunk(3) [OF assms(1) mem])
  moreover have "set (cd_samples I cd) \<subseteq> set (memory_samples I s)" using mem by (auto simp: memory_samples_def)
  ultimately show ?thesis using within times assms(7) by (auto simp: chunk_of_def cd(3) wire_chunk_def)
qed

lemma put_series_ok:
  assumes "user_ok I st" "map_of (fpToSeries st) fp = Some s" "wf_series I s'" "ms_metric s' = ms_metric s"
  shows "user_ok I (put_series fp s' st)"
    and "user_samples I (put_series fp s' st) = (user_samples I st)(ms_metric s := memory_samples I s')"
proof -
  let ?st = "put_series fp s' st"
  have mo: "map_of (fpToSeries ?st) = (map_of (fpToSeries st))(fp \<mapsto> s')" by (simp add: put_series_def update_conv')
  have "series_metrics ?st = series_metrics st" using assms(2,4) by (simp add: series_metrics_def mo fun_eq_iff)
  moreover have "us_index ?st = us_index st" "us_mapper ?st = us_mapper st" by (simp_all add: put_series_def)
  moreover have "distinct (map fst (fpToSeries ?st))" using assms(1) by (simp add: user_ok_def put_series_def distinct_update)
  ultimately show ok: "user_ok I ?st" using assms(1,3) unfolding user_ok_def mo by simp
  show "user_samples I ?st = (user_samples I st)(ms_metric s := memory_samples I s')"
  proof
    fix m
    show "user_samples I ?st m = ((user_samples I st)(ms_metric s := memory_samples I s')) m"
    proof (cases "m = ms_metric s")
      case True
      then show ?thesis using user_samples_at [OF ok, of fp s'] assms(4) by (simp add: mo)
    next
      case False
      show ?thesis
      proof (cases "\<exists>fp' x. map_of (fpToSeries st) fp' = Some x \<and> ms_metric x = m")
        case True
        then obtain fp' x where x: "map_of (fpToSeries st) fp' = Some x" "ms_metric x = m" by blast
        then have "map_of (fpToSeries ?st) fp' = Some x" using False assms(2) by (auto simp: mo)
        then show ?thesis using user_samples_at [OF ok] user_samples_at [OF assms(1) x(1)] x(2) False by force
      next
        case no: False
        have "user_samples I st m = []" by (rule user_samples_none [OF assms(1)]) (use no in blast)
        moreover have "user_samples I ?st m = []"
          by (rule user_samples_none [OF ok]) (use no False assms(4) in \<open>auto simp: mo split: if_splits\<close>)
        ultimately show ?thesis using False by simp
      qed
    qed
  qed
qed

lemma put_series_keys: "map_of (fpToSeries st) fp \<noteq> None \<Longrightarrow> map fst (fpToSeries (put_series fp s st)) = map fst (fpToSeries st)"
  unfolding put_series_def by (simp add: update_keys map_of_eq_None_iff)

text \<open>The flush of a series of a user, whether the store takes the chunks or not.\<close>

definition user_flushed :: "'c chunk_impl \<Rightarrow> (bytes \<Rightarrow> SamplePair list) \<Rightarrow> (string \<Rightarrow> 's \<Rightarrow> Chunk set) \<Rightarrow> string \<Rightarrow>
    'c userState \<Rightarrow> 's \<Rightarrow> 'c userState \<Rightarrow> 's \<Rightarrow> bool" where
  "user_flushed I dec kept u st w st' w' \<longleftrightarrow> user_ok I st' \<and> us_mapper st' = us_mapper st \<and>
     map fst (fpToSeries st') = map fst (fpToSeries st) \<and> (\<forall>u'. u' \<noteq> u \<longrightarrow> kept u' w' = kept u' w) \<and>
     flushed dec kept u (user_samples I st) w (user_samples I st') w'"

lemma user_flushed_trans:
  "user_flushed I dec kept u st w st1 w1 \<Longrightarrow> user_flushed I dec kept u st1 w1 st2 w2 \<Longrightarrow> user_flushed I dec kept u st w st2 w2"
  unfolding user_flushed_def using flushed_trans by metis

lemma flushed_nothing_dropped:
  "kept u w \<subseteq> kept u w' \<Longrightarrow> (\<forall>c\<in>kept u w' - kept u w. chunk_of dec B c) \<Longrightarrow> flushed dec kept u B w B w'"
  by (simp add: flushed_def)

lemma flushChunks_frank:
  assumes put: "frank_put kept put" "decodes I dec" and s: "wf_series I s" "closed_prefix (length cds) s" "cds = take (length cds) (chunkDescs s)"
    and B: "B (ms_metric s) = memory_samples I s"
  shows "\<exists>e w'. flushChunks I put (WithID Background u) fp (ms_metric s) cds w = Ret (e, w') \<and> (\<forall>u'. u' \<noteq> u \<longrightarrow> kept u' w' = kept u' w) \<and>
    kept u w \<subseteq> kept u w' \<and> (\<forall>c\<in>kept u w' - kept u w. chunk_of dec B c)"
proof (cases "wire_chunks I fp (ms_metric s) cds")
  case (Inl e)
  then show ?thesis by (simp add: flushChunks_def)
next
  case (Inr ws)
  obtain e w' where w': "put (WithID Background u) ws w = Ret (e, w')" "\<forall>u'. kept u' w \<subseteq> kept u' w'"
    "\<forall>u'. u' \<noteq> u \<longrightarrow> kept u' w' = kept u' w" "kept u w' \<subseteq> kept u w \<union> set ws"
    using put(1) unfolding frank_put_def by blast
  have "chunk_of dec B c" if "c \<in> kept u w' - kept u w" for c
    by (rule wire_chunks_of [where B = B, OF s put(2) Inr _ B]) (use that w'(4) in blast)
  then show ?thesis using Inr w' by (simp add: flushChunks_def)
qed

lemma flushSeries_flushed:
  assumes put: "frank_put kept (fe_put E)" "decodes (fe_chunks E) dec" and st: "user_ok (fe_chunks E) st" "map_of (fpToSeries st) fp = Some s"
  shows "\<exists>e st' w'. flushSeries E cfg clk immediate u fp (st, w) = Ret (e, st', w') \<and> user_flushed (fe_chunks E) dec kept u st w st' w'"
proof -
  let ?I = "fe_chunks E" and ?B = "user_samples (fe_chunks E) st" and ?m = "ms_metric s"
  obtain cds s1 where s1: "flush_choose ?I cfg clk immediate s = Ret (cds, s1)" "wf_series ?I s1" "memory_samples ?I s1 = memory_samples ?I s"
    "ms_metric s1 = ?m" "closed_prefix (length cds) s1" "cds = take (length cds) (chunkDescs s1)"
    using flush_choose_ok [OF user_okD(1) [OF st]] by blast
  define st1 where "st1 = put_series fp s1 st"
  have B: "?B ?m = memory_samples ?I s" by (rule user_samples_at [OF st])
  have ok1: "user_ok ?I st1" "user_samples ?I st1 = ?B"
    using put_series_ok [OF st s1(2,4)] B s1(3) by (simp_all add: st1_def fun_eq_iff)
  have k1: "us_mapper st1 = us_mapper st" "map fst (fpToSeries st1) = map fst (fpToSeries st)" "map_of (fpToSeries st1) fp = Some s1"
    using put_series_keys [of st fp s1] st(2) by (simp_all add: st1_def put_series_def update_conv')
  show ?thesis
  proof (cases "cds = []")
    case True
    then have "flushSeries E cfg clk immediate u fp (st, w) = Ret (None, st1, w)" by (simp add: flushSeries_def st(2) s1(1) st1_def)
    then show ?thesis using ok1 k1 flushed_refl by (fastforce simp: user_flushed_def)
  next
    case False
    have "?B (ms_metric s1) = memory_samples ?I s1" using B s1(3,4) by simp
    from flushChunks_frank [where B = ?B, OF put s1(2,5,6) this] obtain e w' where
      w': "flushChunks ?I (fe_put E) (WithID Background u) fp (ms_metric s1) cds w = Ret (e, w')" "\<forall>u'. u' \<noteq> u \<longrightarrow> kept u' w' = kept u' w"
      "kept u w \<subseteq> kept u w'" "\<forall>c\<in>kept u w' - kept u w. chunk_of dec ?B c" by blast
    show ?thesis
    proof (cases e)
      case (Some x)
      then have "flushSeries E cfg clk immediate u fp (st, w) = Ret (Some x, st1, w')"
        using False w'(1) by (simp add: flushSeries_def st(2) s1(1) st1_def)
      then show ?thesis using ok1 k1 w'(2) flushed_nothing_dropped [of kept u w w' dec ?B, OF w'(3,4)] by (fastforce simp: user_flushed_def)
    next
      case None
      define k where "k = length cds - 1"
      define s2 where "s2 = s1\<lparr>chunkDescs := drop k (chunkDescs s1)\<rparr>"
      have k: "k < length (chunkDescs s1)" "k \<le> length cds" using False s1(5) by (cases cds; simp add: k_def closed_prefix_def)+
      have s2: "wf_series ?I s2" "ms_metric s2 = ms_metric s1" "chunkDescs s2 \<noteq> []"
        "memory_samples ?I s1 = concat (map (cd_samples ?I) (take k (chunkDescs s1))) @ memory_samples ?I s2"
        using wf_series_drop [OF s1(2) k(1)] k by (simp_all add: s2_def)
      define st2 where "st2 = put_series fp s2 st1"
      have ok2: "user_ok ?I st2" "user_samples ?I st2 = ?B(?m := memory_samples ?I s2)"
        using put_series_ok [OF ok1(1) k1(3) s2(1,2)] ok1(2) s1(4) by (simp_all add: st2_def)
      have k2: "us_mapper st2 = us_mapper st" "map fst (fpToSeries st2) = map fst (fpToSeries st)"
        using put_series_keys [of st1 fp s2] k1 by (simp_all add: st2_def put_series_def)
      have "flush_remove (length cds) s1 = Ret s2" using k(1) by (simp add: flush_remove_def s2_def k_def)
      then have ret: "flushSeries E cfg clk immediate u fp (st, w) = Ret (None, st2, w')"
        using False w'(1) None s2(3) by (simp add: flushSeries_def st(2) s1(1) st1_def st2_def Let_def)
      have "in_chunks dec ?m (kept u w') v" if v: "v \<in> set (concat (map (cd_samples ?I) (take k (chunkDescs s1))))" for v
      proof -
        obtain cd where cd: "cd \<in> set (take k (chunkDescs s1))" "v \<in> set (cd_samples ?I cd)" using v by auto
        have "cd \<in> set cds" using cd(1) k(2) s1(6) by (metis in_set_takeD min.absorb2 take_take min.commute)
        then show ?thesis using flushChunks_kept(2) [OF frank_put_keeps [OF put(1)] w'(1) put(2) None _ cd(2)] s1(4) by simp
      qed
      then have "\<exists>pre. ?B m = pre @ user_samples ?I st2 m \<and> (pre \<noteq> [] \<longrightarrow> user_samples ?I st2 m \<noteq> []) \<and> (\<forall>v\<in>set pre. in_chunks dec m (kept u w') v)" for m
        using B s1(3) s2(4) memory_nonempty [OF s2(1)] unfolding ok2(2)
        by (intro exI [of _ "if m = ?m then concat (map (cd_samples ?I) (take k (chunkDescs s1))) else []"]) simp
      then have "flushed dec kept u ?B w (user_samples ?I st2) w'" using w'(3,4) unfolding flushed_def by blast
      then show ?thesis using ret ok2(1) k2 w'(2) by (fastforce simp: user_flushed_def)
    qed
  qed
qed

section \<open>Flushing an ingester\<close>

definition flush_ok :: "'c chunk_impl \<Rightarrow> 's putter \<Rightarrow> ('c, 's) flush_env \<Rightarrow> bool" where
  "flush_ok I put E \<longleftrightarrow> fe_chunks E = I \<and> fe_put E = put \<and> (\<forall>u. fair (fe_map_ord E u) \<and> fair (fe_run_ord E u)) \<and> (\<forall>u k. fe_sees E u k = k)"

lemma user_flushed_refl: "user_ok I st \<Longrightarrow> user_flushed I dec kept u st w st w"
  by (simp add: user_flushed_def flushed_refl)

lemma flush_goroutines_flushed:
  assumes put: "frank_put kept (fe_put E)" "decodes (fe_chunks E) dec"
    and "user_ok (fe_chunks E) st" "\<forall>k\<in>set ks. fps ! fe_sees E u k \<in> fst ` set (fpToSeries st)"
  shows "\<exists>st' w'. flush_goroutines E cfg immediate u fps ks (st, w) = Ret (st', w') \<and> user_flushed (fe_chunks E) dec kept u st w st' w'"
  using assms(3,4)
proof (induction ks arbitrary: st w)
  case Nil
  then show ?case using user_flushed_refl by auto
next
  case (Cons k ks)
  let ?I = "fe_chunks E"
  have "fps ! fe_sees E u k \<in> fst ` set (fpToSeries st)" using Cons.prems(2) by simp
  then obtain s where s: "map_of (fpToSeries st) (fps ! fe_sees E u k) = Some s" by (metis map_of_eq_None_iff not_None_eq)
  from flushSeries_flushed [OF put Cons.prems(1) s] obtain e st1 w1 where
    one: "flushSeries E cfg (fe_clock E u k) immediate u (fps ! fe_sees E u k) (st, w) = Ret (e, st1, w1)" "user_flushed ?I dec kept u st w st1 w1"
    by blast
  have ok: "user_ok ?I st1" and keys: "fst ` set (fpToSeries st1) = fst ` set (fpToSeries st)"
    using one(2) unfolding user_flushed_def by (simp_all flip: set_map)
  have "\<forall>k\<in>set ks. fps ! fe_sees E u k \<in> fst ` set (fpToSeries st1)" using Cons.prems(2) unfolding keys by simp
  from Cons.IH [OF ok this, of w1] obtain st' w' where
    two: "flush_goroutines E cfg immediate u fps ks (st1, w1) = Ret (st', w')" "user_flushed ?I dec kept u st1 w1 st' w'"
    by blast
  then show ?case using one(1) user_flushed_trans [OF one(2) two(2)] by simp
qed

lemma flushAllSeries_flushed:
  assumes put: "frank_put kept put" "decodes I dec" "flush_ok I put E" and ok: "user_ok I st"
  shows "\<exists>st' w'. flushAllSeries E cfg immediate u (st, w) = Ret (st', w') \<and> user_flushed I dec kept u st w st' w'"
proof -
  define fps where "fps = map fst (permute (fe_map_ord E u) (fpToSeries st))"
  have E: "fe_chunks E = I" "fe_put E = put" "fair (fe_map_ord E u)" "fair (fe_run_ord E u)" "\<And>k. fe_sees E u k = k"
    using put(3) by (simp_all add: flush_ok_def)
  have "set fps = fst ` set (fpToSeries st)" by (simp add: fps_def set_permute [OF E(3)])
  moreover have "set (fe_run_ord E u (length fps)) = {0..<length fps}" by (rule fair_set [OF E(4)])
  ultimately have ks: "\<forall>k\<in>set (fe_run_ord E u (length fps)). fps ! fe_sees E u k \<in> fst ` set (fpToSeries st)"
    using nth_mem by (fastforce simp: E(5))
  have ok': "user_ok (fe_chunks E) st" using ok E(1) by simp
  have "flushAllSeries E cfg immediate u (st, w) = flush_goroutines E cfg immediate u fps (fe_run_ord E u (length fps)) (st, w)"
    by (simp add: flushAllSeries_def Let_def fps_def)
  then show ?thesis using flush_goroutines_flushed [OF put(1,2) [folded E(1,2)] ok' ks, of cfg immediate w] unfolding E(1) by simp
qed

definition ing_flushed :: "'c chunk_impl \<Rightarrow> (bytes \<Rightarrow> SamplePair list) \<Rightarrow> (string \<Rightarrow> 's \<Rightarrow> Chunk set) \<Rightarrow> 'c Ingester \<Rightarrow> 's \<Rightarrow> 'c Ingester \<Rightarrow> 's \<Rightarrow> bool" where
  "ing_flushed I dec kept i w i' w' \<longleftrightarrow> ingester_ok I i' \<and> ing_stopped i' = ing_stopped i \<and> (\<forall>u. headroom i u \<le> headroom i' u) \<and>
     (\<forall>u. flushed dec kept u (ing_samples I i u) w (ing_samples I i' u) w')"

lemma ing_flushed_trans:
  assumes "ing_flushed I dec kept i w i1 w1" "ing_flushed I dec kept i1 w1 i2 w2"
  shows "ing_flushed I dec kept i w i2 w2"
proof -
  have "flushed dec kept u (ing_samples I i u) w (ing_samples I i2 u) w2" for u
    using flushed_trans [of dec kept u _ w "ing_samples I i1 u" w1] assms by (simp add: ing_flushed_def)
  moreover have "headroom i u \<le> headroom i2 u" for u
    using assms order_trans [of "headroom i u" "headroom i1 u"] by (simp add: ing_flushed_def)
  ultimately show ?thesis using assms by (simp add: ing_flushed_def)
qed

lemma flushUser_flushed:
  assumes put: "frank_put kept put" "decodes I dec" "flush_ok I put E" and ok: "ingester_ok I i"
  shows "\<exists>i' w'. flushUser E immediate u (i, w) = Ret (i', w') \<and> ing_flushed I dec kept i w i' w'"
proof (cases "map_of (ing_users i) u")
  case None
  then show ?thesis using ok by (simp add: flushUser_def ing_flushed_def flushed_refl)
next
  case (Some st)
  have st: "user_ok I st" using ok Some unfolding ingester_ok_def by (metis option.pred_inject(2))
  from flushAllSeries_flushed [OF put st] obtain st' w' where
    fl: "flushAllSeries E (ing_cfg i) immediate u (st, w) = Ret (st', w')" "user_flushed I dec kept u st w st' w'" by blast
  define i' where "i' = (if length (fpToSeries st') = 0 then i\<lparr>ing_users := AList.delete u (ing_users i)\<rparr> else put_user u st' i)"
  have mo: "map_of (ing_users i') = (map_of (ing_users i))(u := if fpToSeries st' = [] then None else Some st')"
    by (simp add: i'_def put_user_def update_conv' delete_conv')
  have st': "user_ok I st'" "us_mapper st' = us_mapper st" "flushed dec kept u (user_samples I st) w (user_samples I st') w'"
    "\<And>u'. u' \<noteq> u \<Longrightarrow> kept u' w' = kept u' w" using fl(2) by (simp_all add: user_flushed_def)
  have "distinct (map fst (ing_users i'))" using ok by (simp add: ingester_ok_def i'_def put_user_def distinct_update distinct_delete)
  then have ok': "ingester_ok I i'" using ok st'(1) unfolding ingester_ok_def mo by simp
  have room: "headroom i u' \<le> headroom i' u'" for u'
    using Some st'(2) unfolding headroom_def mo by simp
  have "ing_samples I i' u = user_samples I st'"
    unfolding ing_samples_def mo by (simp add: fun_eq_iff user_samples_def)
  then have own: "flushed dec kept u (ing_samples I i u) w (ing_samples I i' u) w'"
    using st'(3) Some by (simp add: ing_samples_def [of I i, abs_def])
  have "flushed dec kept u' (ing_samples I i u') w (ing_samples I i' u') w'" for u'
  proof (cases "u' = u")
    case False
    have "ing_samples I i' u' = ing_samples I i u'" using False unfolding ing_samples_def mo by (simp add: fun_eq_iff)
    then show ?thesis using st'(4) [OF False] by (simp add: flushed_def)
  qed (use own in simp)
  moreover have "ing_stopped i' = ing_stopped i" by (simp add: i'_def put_user_def)
  ultimately have "ing_flushed I dec kept i w i' w'" unfolding ing_flushed_def using ok' room by blast
  moreover have "flushUser E immediate u (i, w) = Ret (i', w')" by (simp add: flushUser_def Some fl(1) i'_def)
  ultimately show ?thesis by blast
qed

lemma flush_users_flushed:
  assumes put: "frank_put kept put" "decodes I dec" "flush_ok I put E" and ok: "ingester_ok I i"
  shows "\<exists>i' w'. flush_users E immediate uids ks (i, w) = Ret (i', w') \<and> ing_flushed I dec kept i w i' w'"
  using ok
proof (induction ks arbitrary: i w)
  case Nil
  then show ?case by (simp add: ing_flushed_def flushed_refl)
next
  case (Cons k ks)
  obtain i1 w1 where one: "flushUser E immediate (uids ! fe_sees_user E k) (i, w) = Ret (i1, w1)" "ing_flushed I dec kept i w i1 w1"
    using flushUser_flushed [OF put Cons.prems] by blast
  have "ingester_ok I i1" using one(2) by (simp add: ing_flushed_def)
  then obtain i2 w2 where "flush_users E immediate uids ks (i1, w1) = Ret (i2, w2)" "ing_flushed I dec kept i1 w1 i2 w2"
    using Cons.IH by blast
  then show ?case using one ing_flushed_trans by fastforce
qed

lemma flushAllUsers_flushed:
  assumes "frank_put kept put" "decodes I dec" "flush_ok I put E" "ingester_ok I i"
  shows "\<exists>i' w'. flushAllUsers (Some E) immediate (i, w) = Ret (i', w') \<and> ing_flushed I dec kept i w i' w'"
  unfolding flushAllUsers_def by (simp add: Let_def flush_users_flushed [OF assms])

section \<open>Histories of the whole system\<close>

datatype ('c, 's) sys_action =
    SPush string "Sample list"
  | SFlush string "('c, 's) flush_env" bool
  | SAsk string Time Time "LabelMatcher list"

datatype sys_result = SPushed "err option" | SFlushed | SAnswer "SampleStream list" | SFailed err

text \<open>\<open>get\<close> reads from the chunk store, \<open>dec\<close> decodes what it holds.\<close>

definition sys_event :: "schedule \<Rightarrow> string list \<Rightarrow> (bytes \<Rightarrow> SamplePair list) \<Rightarrow> 's store_get \<Rightarrow> ('c, 's) sys_action \<Rightarrow>
    'c system \<times> 's \<Rightarrow> (sys_result \<times> 'c system \<times> 's) go" where
  "sys_event sched roster dec get ev x =
     (case ev of
        SPush u ss \<Rightarrow> (case Append ring_Get sched (WithID Background u) ss (fst x) of (e, dw) \<Rightarrow> Ret (SPushed e, dw, snd x))
      | SFlush h E immediate \<Rightarrow>
          bind_go (flushAllUsers (Some E) immediate (snd (fst x) h, snd x)) (\<lambda>(i, w).
            Ret (SFlushed, (fst (fst x), (snd (fst x))(h := i)), w))
      | SAsk u a b ms \<Rightarrow>
          bind_go (lq_QueryRange (newQuerier_for ring_Get (ring_GetAll roster) dec sched get (WithID Background u)) a b ms x) (\<lambda>r.
            case r of Inl e \<Rightarrow> Ret (SFailed e, x) | Inr (M, x') \<Rightarrow> Ret (SAnswer M, x')))"

fun sys_events :: "schedule \<Rightarrow> string list \<Rightarrow> (bytes \<Rightarrow> SamplePair list) \<Rightarrow> 's store_get \<Rightarrow> ('c, 's) sys_action list \<Rightarrow>
    'c system \<times> 's \<Rightarrow> (sys_result list \<times> 'c system \<times> 's) go" where
  "sys_events sched roster dec get [] x = Ret ([], x)"
| "sys_events sched roster dec get (ev # evs) x =
     bind_go (sys_event sched roster dec get ev x) (\<lambda>(r, x').
       bind_go (sys_events sched roster dec get evs x') (\<lambda>(rs, x''). Ret (r # rs, x'')))"

text \<open>
  The metrics that the chunk store finds: the matchers have the metric name once, and if there is
  no other one the metric has another label.
\<close>

definition findable :: "LabelMatcher list \<Rightarrow> metric \<Rightarrow> bool" where
  "findable ms m \<longleftrightarrow> all_match ms m \<and> (\<exists>name ms'. fst (extractMetricName ms) = Inr (name, ms') \<and>
     (ms' = [] \<longrightarrow> (\<exists>l v. map_of m l = Some v \<and> l \<noteq> MetricNameLabel)) \<and> (\<forall>x\<in>set ms'. m_Name x \<noteq> MetricNameLabel))"

text \<open>
  A good answer: one stream per metric, in the order of time, with samples of that metric only;
  and no sample of a findable metric within the times is missing.
\<close>

definition full_answer :: "abs_store \<Rightarrow> string \<Rightarrow> Time \<Rightarrow> Time \<Rightarrow> LabelMatcher list \<Rightarrow> SampleStream list \<Rightarrow> bool" where
  "full_answer A u a b ms out \<longleftrightarrow> distinct (map ss_Metric out) \<and>
     (\<forall>ss\<in>set out. time_sorted ss \<and> all_match ms (ss_Metric ss) \<and> set (ss_Values ss) \<subseteq> set (A u (ss_Metric ss))) \<and>
     (\<forall>m v. findable ms m \<and> v \<in> set (in_range a b (A u m)) \<longrightarrow> (\<exists>ss\<in>set out. ss_Metric ss = m \<and> v \<in> set (ss_Values ss)))"

fun sys_results :: "abs_store \<Rightarrow> ('c, 's) sys_action list \<Rightarrow> sys_result list \<Rightarrow> bool" where
  "sys_results A [] [] \<longleftrightarrow> True"
| "sys_results A (SPush u ss # evs) (SPushed e # rs) \<longleftrightarrow>
     (e = None \<longleftrightarrow> accepted u ss A) \<and> (\<exists>A'. push_spec u ss A A' \<and> sys_results A' evs rs)"
| "sys_results A (SFlush h E immediate # evs) (SFlushed # rs) \<longleftrightarrow> sys_results A evs rs"
| "sys_results A (SAsk u a b ms # evs) (SAnswer M # rs) \<longleftrightarrow>
     (\<exists>n. metricNameFromLabelMatchers ms = Inr n) \<and> full_answer A u a b ms M \<and> sys_results A evs rs"
| "sys_results A (SAsk u a b ms # evs) (SFailed e # rs) \<longleftrightarrow> metricNameFromLabelMatchers ms = Inl e \<and> sys_results A evs rs"
| "sys_results A evs rs \<longleftrightarrow> False"

fun sys_valid :: "'c chunk_impl \<Rightarrow> 's putter \<Rightarrow> (string \<Rightarrow> err + (string \<Rightarrow> bool)) \<Rightarrow> ('c, 's) sys_action \<Rightarrow> bool" where
  "sys_valid I put compile (SPush u ss) \<longleftrightarrow> u \<noteq> [] \<and> (\<forall>s\<in>set ss. valid_sample s)"
| "sys_valid I put compile (SFlush h E immediate) \<longleftrightarrow> flush_ok I put E"
| "sys_valid I put compile (SAsk u a b ms) \<longleftrightarrow> u \<noteq> [] \<and> (\<forall>m\<in>set ms. built compile m)"

definition sys_samples :: "('c, 's) sys_action list \<Rightarrow> Sample list" where
  "sys_samples evs = concat (map (\<lambda>ev. case ev of SPush u ss \<Rightarrow> ss | _ \<Rightarrow> []) evs)"

definition sys_metrics :: "('c, 's) sys_action list \<Rightarrow> metric set" where
  "sys_metrics evs = (\<lambda>s. drop_empty (s_Metric s)) ` set (sys_samples evs)"

section \<open>The invariant of the system\<close>

definition backed_by :: "(bytes \<Rightarrow> SamplePair list) \<Rightarrow> (string \<Rightarrow> 's \<Rightarrow> Chunk set) \<Rightarrow> abs_store \<Rightarrow> abs_store \<Rightarrow> 's \<Rightarrow> bool" where
  "backed_by dec kept A B w \<longleftrightarrow> (\<forall>u. \<forall>c\<in>kept u w. chunk_of dec (A u) c) \<and>
     (\<forall>u m. \<exists>pre. A u m = pre @ B u m \<and> (pre \<noteq> [] \<longrightarrow> B u m \<noteq> []) \<and> (\<forall>v\<in>set pre. in_chunks dec m (kept u w) v))"

lemma abs_add_pre: "vs \<noteq> [] \<or> pre = [] \<Longrightarrow> abs_add s (pre @ vs) = (fst (abs_add s vs), pre @ snd (abs_add s vs))"
  by (cases "pre = []") (auto simp: abs_add_def Let_def)

lemma abs_add_grows: "set vs \<subseteq> set (snd (abs_add s vs))" "vs \<noteq> [] \<Longrightarrow> snd (abs_add s vs) \<noteq> []"
  by (auto simp: abs_add_def Let_def)

lemma feed_pre: "vs \<noteq> [] \<or> pre = [] \<Longrightarrow> feed ss (pre @ vs) = (fst (feed ss vs), pre @ snd (feed ss vs))"
proof (induction ss arbitrary: vs)
  case (Cons s ss)
  obtain e vs' where a: "abs_add s vs = (e, vs')" by (cases "abs_add s vs")
  have "vs' \<noteq> [] \<or> pre = []" using Cons.prems abs_add_grows(2) [of vs s] a by auto
  then show ?case using Cons.IH [of vs'] abs_add_pre [OF Cons.prems] a by (auto split: option.split)
qed simp

lemma feed_grows: "set vs \<subseteq> set (snd (feed ss vs))" "vs \<noteq> [] \<Longrightarrow> snd (feed ss vs) \<noteq> []"
proof -
  show "set vs \<subseteq> set (snd (feed ss vs))"
  proof (induction ss arbitrary: vs)
    case (Cons s ss)
    then show ?case using abs_add_grows(1) [of vs s] by (fastforce split: prod.split option.split)
  qed simp
  then show "vs \<noteq> [] \<Longrightarrow> snd (feed ss vs) \<noteq> []" by fastforce
qed

text \<open>A push to what is left in memory is a push to everything.\<close>

lemma push_backed:
  assumes b: "backed_by dec kept A B w" and p: "push_spec u ss B B'"
  shows "accepted u ss A \<longleftrightarrow> accepted u ss B" "\<exists>A'. push_spec u ss A A' \<and> backed_by dec kept A' B' w"
proof -
  define P where "P u m = (SOME pre. A u m = pre @ B u m \<and> (pre \<noteq> [] \<longrightarrow> B u m \<noteq> []) \<and> (\<forall>v\<in>set pre. in_chunks dec m (kept u w) v))" for u m
  have P: "A u m = P u m @ B u m" "P u m \<noteq> [] \<longrightarrow> B u m \<noteq> []" "\<forall>v\<in>set (P u m). in_chunks dec m (kept u w) v" for u m
  proof -
    have "\<exists>pre. A u m = pre @ B u m \<and> (pre \<noteq> [] \<longrightarrow> B u m \<noteq> []) \<and> (\<forall>v\<in>set pre. in_chunks dec m (kept u w) v)"
      using b by (simp add: backed_by_def)
    from someI_ex [OF this] show "A u m = P u m @ B u m" "P u m \<noteq> [] \<longrightarrow> B u m \<noteq> []" "\<forall>v\<in>set (P u m). in_chunks dec m (kept u w) v"
      unfolding P_def by blast+
  qed
  have f: "feed xs (A u m) = (fst (feed xs (B u m)), P u m @ snd (feed xs (B u m)))" for xs m
    unfolding P(1) using P(2) by (intro feed_pre) blast
  show ac: "accepted u ss A \<longleftrightarrow> accepted u ss B" unfolding accepted_def f by simp
  define A' where "A' u m = P u m @ B' u m" for u m
  have B': "\<exists>n. B' u m = snd (feed (take n (of_metric m ss)) (B u m))" for m by (rule push_specD [OF p])
  have other: "B' u' = B u'" if "u' \<noteq> u" for u' using p that by (simp add: push_spec_def)
  have "A' u' = A u'" if "u' \<noteq> u" for u' using other [OF that] by (simp add: A'_def P(1) [of u'] fun_eq_iff)
  moreover have "\<exists>n. A' u m = snd (feed (take n (of_metric m ss)) (A u m))" for m using B' [of m] by (auto simp: f A'_def)
  moreover have "A' u m = snd (feed (of_metric m ss) (A u m))" if "accepted u ss A" for m
    using p that by (simp add: f A'_def ac push_spec_def)
  ultimately have ps: "push_spec u ss A A'" unfolding push_spec_def by blast
  have gB: "set (B u' m) \<subseteq> set (B' u' m) \<and> (B u' m \<noteq> [] \<longrightarrow> B' u' m \<noteq> [])" for u' m
  proof (cases "u' = u")
    case True
    obtain n where n: "B' u m = snd (feed (take n (of_metric m ss)) (B u m))" using B' by blast
    show ?thesis unfolding True n using feed_grows [where vs = "B u m" and ss = "take n (of_metric m ss)"] by blast
  qed (simp add: other)
  have grow: "set (A u' m) \<subseteq> set (A' u' m)" for u' m unfolding A'_def P(1) [of u' m] using gB [of u' m] by auto
  have "chunk_of dec (A' u') c" if "c \<in> kept u' w" for u' c
  proof -
    have "chunk_of dec (A u') c" using b that by (simp add: backed_by_def)
    then show ?thesis using grow by (rule chunk_of_mono)
  qed
  moreover have "P u' m \<noteq> [] \<longrightarrow> B' u' m \<noteq> []" for u' m using P(2) gB by blast
  ultimately have "backed_by dec kept A' B' w" using P(3) unfolding backed_by_def A'_def by blast
  with ps show "\<exists>A'. push_spec u ss A A' \<and> backed_by dec kept A' B' w" by blast
qed

text \<open>A flush moves samples from memory to the store.\<close>

lemma flush_backed:
  assumes inv: "cluster_inv I H transport r n (d, W)" and b: "backed_by dec kept A (cluster_samples I r W) w"
    and fl: "ing_flushed I dec kept (W h) w i w'"
  shows "cluster_inv I H transport r n (d, W(h := i))" "backed_by dec kept A (cluster_samples I r (W(h := i))) w'"
proof -
  have node: "node_ok I r n h (W h)" using inv by (simp add: cluster_inv_def)
  have i: "ingester_ok I i" "ing_stopped i = ing_stopped (W h)" "\<And>u. headroom (W h) u \<le> headroom i u"
    "\<And>u. flushed dec kept u (ing_samples I (W h) u) w (ing_samples I i u) w'" using fl by (simp_all add: ing_flushed_def)
  have placed: "ing_samples I (W h) u m \<noteq> [] \<Longrightarrow> home r u m = h" for u m using node by (auto simp: node_ok_def)
  have "ing_samples I i u m \<noteq> [] \<Longrightarrow> home r u m = h" for u m
    using placed flushed_suffix [OF i(4), of u m] by (metis empty_subsetI set_empty subset_antisym)
  then have "node_ok I r n h i" using node i(1-3) order_trans unfolding node_ok_def by metis
  then show "cluster_inv I H transport r n (d, W(h := i))" using inv by (simp add: cluster_inv_def)
  have grow: "kept u w \<subseteq> kept u w'" for u using i(4) by (simp add: flushed_def)
  have A: "\<exists>pre. A u m = pre @ cluster_samples I r W u m \<and> (pre \<noteq> [] \<longrightarrow> cluster_samples I r W u m \<noteq> []) \<and>
      (\<forall>v\<in>set pre. in_chunks dec m (kept u w) v)" for u m using b by (simp add: backed_by_def)
  have "chunk_of dec (A u) c" if c: "c \<in> kept u w'" for u c
  proof (cases "c \<in> kept u w")
    case True
    then show ?thesis using b by (simp add: backed_by_def)
  next
    case False
    then have ch: "chunk_of dec (ing_samples I (W h) u) c" using c i(4) by (simp add: flushed_def)
    have "set (ing_samples I (W h) u m) \<subseteq> set (A u m)" for m
    proof (cases "ing_samples I (W h) u m = []")
      case False
      then have "cluster_samples I r W u m = ing_samples I (W h) u m" using placed by (simp add: cluster_samples_def)
      then show ?thesis using A [of u m] by auto
    qed simp
    then show ?thesis by (rule chunk_of_mono [OF ch])
  qed
  moreover have "\<exists>pre. A u m = pre @ cluster_samples I r (W(h := i)) u m \<and> (pre \<noteq> [] \<longrightarrow> cluster_samples I r (W(h := i)) u m \<noteq> []) \<and>
      (\<forall>v\<in>set pre. in_chunks dec m (kept u w') v)" for u m
  proof -
    obtain p where p: "A u m = p @ cluster_samples I r W u m" "p \<noteq> [] \<longrightarrow> cluster_samples I r W u m \<noteq> []" "\<forall>v\<in>set p. in_chunks dec m (kept u w') v"
      using A [of u m] in_chunks_mono [OF _ grow] by blast
    show ?thesis
    proof (cases "home r u m = h")
      case True
      obtain q where q: "ing_samples I (W h) u m = q @ ing_samples I i u m" "q \<noteq> [] \<longrightarrow> ing_samples I i u m \<noteq> []"
        "\<forall>v\<in>set q. in_chunks dec m (kept u w') v" using i(4) [of u] unfolding flushed_def by blast
      have "A u m = (p @ q) @ ing_samples I i u m" "p @ q \<noteq> [] \<longrightarrow> ing_samples I i u m \<noteq> []"
        using p(1,2) q(1,2) True by (auto simp: cluster_samples_def)
      then show ?thesis using p(3) q(3) True by (intro exI [of _ "p @ q"]) (auto simp: cluster_samples_def)
    next
      case False
      then show ?thesis using p by (intro exI [of _ p]) (simp add: cluster_samples_def)
    qed
  qed
  ultimately show "backed_by dec kept A (cluster_samples I r (W(h := i))) w'" unfolding backed_by_def by blast
qed

section \<open>Queries find everything\<close>

lemma extract_name:
  "fst (extract_loop pre ms) = Inr (n, ms') \<Longrightarrow> metricNameFromLabelMatchers ms = Inr n \<and>
   (\<exists>x. m_Name x = MetricNameLabel \<and> m_Type x = Equal \<and> m_Value x = n \<and> set pre \<union> set ms = insert x (set ms'))"
proof (induction ms arbitrary: pre)
  case (Cons y ms)
  show ?case
  proof (cases "m_Name y = MetricNameLabel")
    case True
    then show ?thesis using Cons.prems by (auto split: if_splits intro!: exI [of _ y])
  next
    case False
    then have "fst (extract_loop (pre @ [y]) ms) = Inr (n, ms')" using Cons.prems by simp
    from Cons.IH [OF this] show ?thesis using False by simp
  qed
qed simp

lemma extract_name_total: "metricNameFromLabelMatchers ms = Inr n \<Longrightarrow> \<exists>ms'. fst (extract_loop pre ms) = Inr (n, ms')"
  by (induction ms arbitrary: pre) (auto split: if_splits)

lemma selects_match:
  assumes "fst (extractMetricName ms) = Inr (n, ms')" "selects a b n ms' c"
  shows "all_match ms (Metric c)"
proof -
  obtain x where x: "m_Name x = MetricNameLabel" "m_Type x = Equal" "m_Value x = n" "set ms = insert x (set ms')"
    using extract_name [of "[]" ms n ms'] assms(1) by (auto simp: extractMetricName_def)
  have "\<exists>v. map_of (Metric c) (m_Name y) = Some v \<and> Match y v" if "y \<in> set ms" for y
    using that x assms(2) by (auto simp: selects_def label_ok_def Match_def split: if_splits)
  then show ?thesis by (simp add: all_match_def)
qed

lemma findable_selects:
  assumes "findable ms (Metric c)" "fst (extractMetricName ms) = Inr (n, ms')" "From c \<le> t" "t \<le> Through c" "a \<le> t" "t \<le> b"
  shows "selects a b n ms' c"
proof -
  have f: "all_match ms (Metric c)" "ms' = [] \<longrightarrow> (\<exists>l v. map_of (Metric c) l = Some v \<and> l \<noteq> MetricNameLabel)" "\<forall>x\<in>set ms'. m_Name x \<noteq> MetricNameLabel"
    using assms(1,2) by (auto simp: findable_def)
  have e: "metricNameFromLabelMatchers ms = Inr n" "set ms' \<subseteq> set ms"
    using extract_name [of "[]" ms n ms'] assms(2) by (auto simp: extractMetricName_def)
  have "label_ok ms' c" using f e(2) by (auto simp: label_ok_def all_match_def)
  moreover have "map_of (Metric c) MetricNameLabel = Some n" by (rule named_match [OF e(1) f(1)])
  moreover have "set (bigBuckets (From c) (Through c)) \<inter> set (bigBuckets a b) \<noteq> {}" by (rule bigBuckets_overlap [OF assms(3-6)])
  ultimately show ?thesis by (simp add: selects_def)
qed

lemma merged_set:
  assumes "mset vs = matrix_samples M m + chunk_samples dec cs m"
  shows "set vs = {v. (\<exists>s\<in>set M. ss_Metric s = m \<and> v \<in> set (ss_Values s)) \<or> (\<exists>c\<in>set cs. Metric c = m \<and> v \<in> set (dec (Data c)))}"
proof -
  have "set vs = set_mset (matrix_samples M m + chunk_samples dec cs m)" using assms by (metis set_mset_mset)
  then show ?thesis by (auto simp: matrix_samples_def chunk_samples_def)
qed

lemma answer_full:
  assumes b: "backed_by dec kept A B w" and M: "answer B u a b ms M" and ex: "fst (extractMetricName ms) = Inr (n, ms')"
    and cs: "set cs = {c \<in> kept u w. selects a b n ms' c}" and out: "distinct (map ss_Metric out)"
    "ss_Metric ` set out = ss_Metric ` set M \<union> Metric ` set cs"
    "\<forall>ss\<in>set out. time_sorted ss \<and> mset (ss_Values ss) = matrix_samples M (ss_Metric ss) + chunk_samples dec cs (ss_Metric ss)"
  shows "full_answer A u a b ms out"
proof -
  have ne: "ms \<noteq> []" using ex by (auto simp: extractMetricName_def)
  have B: "\<exists>pre. A u m = pre @ B u m \<and> (\<forall>v\<in>set pre. in_chunks dec m (kept u w) v)" for m
    using b unfolding backed_by_def by blast
  have row: "all_match ms (ss_Metric s)" "ss_Values s = in_range a b (B u (ss_Metric s))" if "s \<in> set M" for s
    using M that by (auto simp: answer_def)
  have rowI: "\<exists>s\<in>set M. ss_Metric s = m \<and> ss_Values s = in_range a b (B u m)" if "all_match ms m" "B u m \<noteq> []" for m
  proof -
    have "\<lparr>ss_Metric = m, ss_Values = in_range a b (B u m)\<rparr> \<in> set M" using M that ne unfolding answer_def by blast
    then show ?thesis by (rule rev_bexI) simp
  qed
  have chunk: "v \<in> set (A u (Metric c))" "From c \<le> sp_Timestamp v" "sp_Timestamp v \<le> Through c" if "c \<in> kept u w" "v \<in> set (dec (Data c))" for c v
    using b that by (auto simp: backed_by_def chunk_of_def)
  have vs: "set (ss_Values ss) = {v. (\<exists>s\<in>set M. ss_Metric s = ss_Metric ss \<and> v \<in> set (ss_Values s)) \<or>
      (\<exists>c\<in>set cs. Metric c = ss_Metric ss \<and> v \<in> set (dec (Data c)))}" if "ss \<in> set out" for ss
    by (rule merged_set) (use out(3) that in blast)
  have "all_match ms (ss_Metric ss)" if "ss \<in> set out" for ss
  proof -
    have "ss_Metric ss \<in> ss_Metric ` set M \<union> Metric ` set cs" using that out(2) by blast
    then show ?thesis using row(1) selects_match [OF ex] cs by auto
  qed
  moreover have "set (ss_Values ss) \<subseteq> set (A u (ss_Metric ss))" if ss: "ss \<in> set out" for ss
  proof
    fix v assume "v \<in> set (ss_Values ss)"
    then consider (mem) s where "s \<in> set M" "ss_Metric s = ss_Metric ss" "v \<in> set (ss_Values s)"
      | (stored) c where "c \<in> set cs" "Metric c = ss_Metric ss" "v \<in> set (dec (Data c))" unfolding vs [OF ss] by blast
    then show "v \<in> set (A u (ss_Metric ss))"
    proof cases
      case mem
      then have "v \<in> set (B u (ss_Metric ss))" using row(2) [OF mem(1)] by (simp add: in_range_def)
      then show ?thesis using B [of "ss_Metric ss"] by auto
    next
      case stored
      then show ?thesis using chunk(1) [of c v] cs by auto
    qed
  qed
  moreover have "\<exists>ss\<in>set out. ss_Metric ss = m \<and> v \<in> set (ss_Values ss)" if f: "findable ms m" and v: "v \<in> set (in_range a b (A u m))" for m v
  proof -
    have t: "a \<le> sp_Timestamp v" "sp_Timestamp v \<le> b" "v \<in> set (A u m)" using v by (simp_all add: in_range_def)
    then consider "v \<in> set (B u m)" | "in_chunks dec m (kept u w) v" using B [of m] by auto
    then have found: "(\<exists>s\<in>set M. ss_Metric s = m \<and> v \<in> set (ss_Values s)) \<or> (\<exists>c\<in>set cs. Metric c = m \<and> v \<in> set (dec (Data c)))"
    proof cases
      case 1
      then have "B u m \<noteq> []" by auto
      moreover have "all_match ms m" using f by (simp add: findable_def)
      ultimately obtain s where "s \<in> set M" "ss_Metric s = m" "ss_Values s = in_range a b (B u m)" using rowI by blast
      moreover have "v \<in> set (in_range a b (B u m))" using 1 t(1,2) by (simp add: in_range_def)
      ultimately show ?thesis by metis
    next
      case 2
      then obtain c where c: "c \<in> kept u w" "Metric c = m" "v \<in> set (dec (Data c))" by (auto simp: in_chunks_def)
      then have "selects a b n ms' c" using findable_selects [OF _ ex chunk(2,3) t(1,2)] f by blast
      then show ?thesis using c cs by blast
    qed
    then have "m \<in> ss_Metric ` set out" unfolding out(2) by blast
    then obtain ss where ss: "ss \<in> set out" "ss_Metric ss = m" by blast
    have "v \<in> set (ss_Values ss)" unfolding vs [OF ss(1)] ss(2) using found by simp
    then show ?thesis using ss by blast
  qed
  ultimately show ?thesis using out(1,3) unfolding full_answer_def by blast
qed

section \<open>Histories of the system\<close>

definition sys_inv :: "'c chunk_impl \<Rightarrow> 'c cluster ingester_http \<Rightarrow> 'c cluster transport \<Rightarrow> Ring \<Rightarrow> (bytes \<Rightarrow> SamplePair list) \<Rightarrow>
    (string \<Rightarrow> 's \<Rightarrow> Chunk set) \<Rightarrow> metric set \<Rightarrow> nat \<Rightarrow> abs_store \<Rightarrow> 'c system \<times> 's \<Rightarrow> bool" where
  "sys_inv I H transport r dec kept P n A x \<longleftrightarrow> cluster_inv I H transport r n (fst x) \<and>
     backed_by dec kept A (cluster_samples I r (snd (fst x))) (snd x) \<and> (\<forall>u m. A u m \<noteq> [] \<longrightarrow> m \<in> P)"

lemma sys_push:
  assumes net: "connected I H transport" "codecs_ok H" "chunk_laws I" "wf_desc (ringDesc r)" "Tokens (ringDesc r) \<noteq> []" "fair sched"
    and u: "u \<noteq> []" and ss: "\<forall>s\<in>set ss. valid_sample s" "length ss \<le> n" "(\<lambda>s. drop_empty (s_Metric s)) ` set ss \<subseteq> P"
    and inv: "sys_inv I H transport r dec kept P n A ((d, W), w)"
  shows "\<exists>e dw A'. sys_event sched roster dec get (SPush u ss) ((d, W), w) = Ret (SPushed e, dw, w) \<and> (e = None \<longleftrightarrow> accepted u ss A) \<and>
    push_spec u ss A A' \<and> sys_inv I H transport r dec kept P (n - length ss) A' (dw, w)"
proof -
  have i: "cluster_inv I H transport r n (d, W)" "backed_by dec kept A (cluster_samples I r W) w" "\<forall>u m. A u m \<noteq> [] \<longrightarrow> m \<in> P"
    using inv by (simp_all add: sys_inv_def)
  from cluster_push [OF net u ss(1,2) i(1)] obtain e d' W' where
    p: "Append ring_Get sched (WithID Background u) ss (d, W) = (e, d', W')" "cluster_inv I H transport r (n - length ss) (d', W')"
    "e = None \<longleftrightarrow> accepted u ss (cluster_samples I r W)" "push_spec u ss (cluster_samples I r W) (cluster_samples I r W')"
    by (elim exE conjE) (rule that)
  obtain A' where A': "push_spec u ss A A'" "backed_by dec kept A' (cluster_samples I r W') w" using push_backed(2) [OF i(2) p(4)] by blast
  have "m \<in> P" if "A' u' m \<noteq> []" for u' m
  proof (cases "u' = u \<and> of_metric m ss \<noteq> []")
    case True
    then obtain s where "s \<in> set ss" "drop_empty (s_Metric s) = m" by (auto simp: of_metric_def filter_empty_conv)
    then show ?thesis using ss(3) by blast
  next
    case False
    then have "A' u' m = A u' m" using A'(1) push_specD [OF A'(1), of m] by (cases "u' = u") (auto simp: push_spec_def)
    then show ?thesis using that i(3) by simp
  qed
  then have "sys_inv I H transport r dec kept P (n - length ss) A' ((d', W'), w)" using p(2) A'(2) by (simp add: sys_inv_def)
  moreover have "sys_event sched roster dec get (SPush u ss) ((d, W), w) = Ret (SPushed e, (d', W'), w)" by (simp add: sys_event_def p(1))
  ultimately show ?thesis using p(3) push_backed(1) [OF i(2) p(4)] A'(1)
    by (intro exI [of _ e] exI [of _ "(d', W')"] exI [of _ A'] conjI) simp_all
qed

lemma sys_flush:
  assumes "frank_put kept put" "decodes I dec" "flush_ok I put E" and inv: "sys_inv I H transport r dec kept P n A ((d, W), w)"
  shows "\<exists>dw w'. sys_event sched roster dec get (SFlush h E immediate) ((d, W), w) = Ret (SFlushed, dw, w') \<and>
    sys_inv I H transport r dec kept P n A (dw, w')"
proof -
  have i: "cluster_inv I H transport r n (d, W)" "backed_by dec kept A (cluster_samples I r W) w" "\<forall>u m. A u m \<noteq> [] \<longrightarrow> m \<in> P"
    using inv by (simp_all add: sys_inv_def)
  have "ingester_ok I (W h)" using i(1) by (simp add: cluster_inv_def node_ok_def)
  then obtain j w' where fl: "flushAllUsers (Some E) immediate (W h, w) = Ret (j, w')" "ing_flushed I dec kept (W h) w j w'"
    using flushAllUsers_flushed [OF assms(1-3)] by blast
  have "sys_inv I H transport r dec kept P n A ((d, W(h := j)), w')"
    using flush_backed [OF i(1,2) fl(2)] i(3) by (simp add: sys_inv_def)
  moreover have "sys_event sched roster dec get (SFlush h E immediate) ((d, W), w) = Ret (SFlushed, (d, W(h := j)), w')"
    by (simp add: sys_event_def fl(1))
  ultimately show ?thesis by (intro exI [of _ "(d, W(h := j))"] exI [of _ w'] conjI)
qed

lemma sys_ask:
  assumes net: "connected I H transport" "codecs_ok H" "Tokens (ringDesc r) \<noteq> []" "fair sched" "frank_get kept get" "inj_on Fingerprint P"
    and u: "u \<noteq> []" and ms: "\<forall>m\<in>set ms. built (ih_compile H) m" "metricNameFromLabelMatchers ms = Inr name"
    and inv: "sys_inv I H transport r dec kept P n A ((d, W), w)"
  shows "\<exists>out dw w'. sys_event sched roster dec get (SAsk u a b ms) ((d, W), w) = Ret (SAnswer out, dw, w') \<and>
    full_answer A u a b ms out \<and> sys_inv I H transport r dec kept P n A (dw, w')"
proof -
  have i: "cluster_inv I H transport r n (d, W)" "backed_by dec kept A (cluster_samples I r W) w" "\<forall>u m. A u m \<noteq> [] \<longrightarrow> m \<in> P"
    using inv by (simp_all add: sys_inv_def)
  from cluster_client_query [where a = a and b = b, OF net(1-3) u ms i(1)] obtain x c d' M W' where
    q: "ring_Get r (tokenFor u name) = Inr x" "getClientFor (Hostname x) d = (Inr c, d')" "c_Query c (WithID Background u) a b ms W = Ret (Inr (M, W'))"
    "cluster_inv I H transport r n (d', W')" "cluster_samples I r W' = cluster_samples I r W" "answer (cluster_samples I r W) u a b ms M"
    by (elim exE conjE) (rule that)
  obtain ms' where ex: "fst (extractMetricName ms) = Inr (name, ms')"
    using extract_name_total [OF ms(2), of "[]"] by (auto simp: extractMetricName_def)
  obtain cs w' where cs: "get (WithID Background u) a b ms w = Ret (Inr (cs, w'))" "set cs = {c \<in> kept u w. selects a b name ms' c}"
    "\<forall>u'. kept u' w' = kept u' w" using net(5) ex unfolding frank_get_def by blast
  have "ss_Metric ` set M \<union> Metric ` set cs \<subseteq> P"
  proof -
    have "A u m \<noteq> []" if "m \<in> ss_Metric ` set M" for m
      using that q(6) i(2) unfolding backed_by_def answer_def by (auto, metis append_is_Nil_conv)
    moreover have "A u (Metric c) \<noteq> []" if "c \<in> set cs" for c
    proof -
      have "chunk_of dec (A u) c" using that cs(2) i(2) by (auto simp: backed_by_def)
      then show ?thesis by (cases "dec (Data c)") (auto simp: chunk_of_def)
    qed
    ultimately show ?thesis using i(3) by blast
  qed
  then have inj: "inj_on Fingerprint (ss_Metric ` set M \<union> Metric ` set cs)" by (rule inj_on_subset [OF net(6)])
  have ring: "ring_Get (d_ring d) (tokenFor u name) = Inr x" using q(1) i(1) by (simp add: cluster_inv_def)
  from pipeline_merges [where get = ring_Get and store = get and decodeChunk = dec and getAll = "ring_GetAll roster" and u = u
      and d = d and client = c, OF ms(2) ring q(2,3) cs(1) inj net(4)] obtain out where
    out: "lq_QueryRange (newQuerier_for ring_Get (ring_GetAll roster) dec sched get (WithID Background u)) a b ms ((d, W), w) =
        Ret (Inr (out, ((d', W'), w')))" "distinct (map ss_Metric out)" "ss_Metric ` set out = ss_Metric ` set M \<union> Metric ` set cs"
      "\<forall>ss\<in>set out. time_sorted ss \<and> mset (ss_Values ss) = matrix_samples M (ss_Metric ss) + chunk_samples dec cs (ss_Metric ss)"
    by (elim exE conjE) (rule that)
  have "full_answer A u a b ms out" by (rule answer_full [OF i(2) q(6) ex cs(2) out(2-4)])
  moreover have "sys_inv I H transport r dec kept P n A ((d', W'), w')"
    using i(2,3) q(4,5) cs(3) by (simp add: sys_inv_def backed_by_def)
  moreover have "sys_event sched roster dec get (SAsk u a b ms) ((d, W), w) = Ret (SAnswer out, (d', W'), w')"
    by (simp add: sys_event_def out(1))
  ultimately show ?thesis by (intro exI [of _ out] exI [of _ "(d', W')"] exI [of _ w'] conjI)
qed

lemma sys_events_ok:
  assumes net: "connected I H transport" "codecs_ok H" "chunk_laws I" "wf_desc (ringDesc r)" "Tokens (ringDesc r) \<noteq> []" "fair sched"
    and store: "frank_put kept put" "frank_get kept get" "decodes I dec" "inj_on Fingerprint P"
    and "sys_inv I H transport r dec kept P n A ((d, W), w)" "\<forall>ev\<in>set evs. sys_valid I put (ih_compile H) ev"
      "length (sys_samples evs) \<le> n" "sys_metrics evs \<subseteq> P"
  shows "\<exists>rs x. sys_events sched roster dec get evs ((d, W), w) = Ret (rs, x) \<and> sys_results A evs rs"
  using assms(11-)
proof (induction evs arbitrary: n A d W w)
  case Nil
  then show ?case by simp
next
  case (Cons ev evs)
  have valid: "\<forall>ev\<in>set evs. sys_valid I put (ih_compile H) ev" "sys_valid I put (ih_compile H) ev" using Cons.prems(2) by simp_all
  have "sys_samples (ev # evs) = (case ev of SPush u ss \<Rightarrow> ss | _ \<Rightarrow> []) @ sys_samples evs" by (simp add: sys_samples_def)
  then have sub: "sys_metrics evs \<subseteq> P" using Cons.prems(4) unfolding sys_metrics_def by (simp add: image_Un)
  have step: ?case
    if "sys_event sched roster dec get ev ((d, W), w) = Ret (r0, dw, w')" "sys_inv I H transport r dec kept P n' A' (dw, w')"
      "length (sys_samples evs) \<le> n'" "\<And>rs. sys_results A' evs rs \<Longrightarrow> sys_results A (ev # evs) (r0 # rs)"
    for r0 dw w' n' A'
  proof -
    obtain d' W' where dw: "dw = (d', W')" by (cases dw)
    from Cons.IH [OF that(2) [unfolded dw] valid(1) that(3) sub] show ?thesis using that(1,4) dw by auto
  qed
  show ?case
  proof (cases ev)
    case (SPush u ss)
    have v: "u \<noteq> []" "\<forall>s\<in>set ss. valid_sample s" using valid(2) SPush by simp_all
    have n: "length ss \<le> n" "length (sys_samples evs) \<le> n - length ss" using Cons.prems(3) SPush by (simp_all add: sys_samples_def)
    have P: "(\<lambda>s. drop_empty (s_Metric s)) ` set ss \<subseteq> P" using Cons.prems(4) SPush by (auto simp: sys_metrics_def sys_samples_def)
    from sys_push [where roster = roster and get = get, OF net v n(1) P Cons.prems(1)] obtain e dw A' where
      p: "sys_event sched roster dec get (SPush u ss) ((d, W), w) = Ret (SPushed e, dw, w)" "e = None \<longleftrightarrow> accepted u ss A" "push_spec u ss A A'"
      "sys_inv I H transport r dec kept P (n - length ss) A' (dw, w)"
      by (elim exE conjE) (rule that)
    show ?thesis by (rule step [OF p(1) [folded SPush] p(4) n(2)]) (use p(2,3) SPush in auto)
  next
    case (SFlush h E immediate)
    have "flush_ok I put E" using valid(2) SFlush by simp
    from sys_flush [where sched = sched and roster = roster and get = get and h = h and immediate = immediate, OF store(1,3) this Cons.prems(1)]
    obtain dw w' where f: "sys_event sched roster dec get (SFlush h E immediate) ((d, W), w) = Ret (SFlushed, dw, w')"
      "sys_inv I H transport r dec kept P n A (dw, w')"
      by (elim exE conjE) (rule that)
    show ?thesis by (rule step [OF f(1) [folded SFlush] f(2)]) (use Cons.prems(3) SFlush in \<open>simp_all add: sys_samples_def\<close>)
  next
    case (SAsk u a b ms)
    have v: "u \<noteq> []" "\<forall>m\<in>set ms. built (ih_compile H) m" and n: "length (sys_samples evs) \<le> n"
      using valid(2) Cons.prems(3) SAsk by (simp_all add: sys_samples_def)
    show ?thesis
    proof (cases "metricNameFromLabelMatchers ms")
      case (Inl e)
      have "sys_event sched roster dec get ev ((d, W), w) = Ret (SFailed e, (d, W), w)"
        by (simp add: sys_event_def SAsk newQuerier_for_def MergeQuerier_def QueryRange_def distributor_querier_def Distributor_Query_def Inl)
      then show ?thesis by (rule step [OF _ Cons.prems(1) n]) (simp add: SAsk Inl)
    next
      case (Inr name)
      from sys_ask [where roster = roster and a = a and b = b, OF net(1,2,5,6) store(2,4) v Inr Cons.prems(1)] obtain out dw w' where
        q: "sys_event sched roster dec get (SAsk u a b ms) ((d, W), w) = Ret (SAnswer out, dw, w')" "full_answer A u a b ms out"
        "sys_inv I H transport r dec kept P n A (dw, w')"
        by (elim exE conjE) (rule that)
      show ?thesis by (rule step [OF q(1) [folded SAsk] q(3) n]) (use q(2) SAsk Inr in simp)
    qed
  qed
qed


text \<open>A chunk store that is a list, and a history with a flush between two pushes.\<close>

definition list_get :: "(string \<times> Chunk) list store_get" where
  "list_get ctx a b ms w =
     (case GetID ctx of
        Inl e \<Rightarrow> Ret (Inl e)
      | Inr u \<Rightarrow>
          (case fst (extractMetricName ms) of
             Inl e \<Rightarrow> Ret (Inl e)
           | Inr (name, ms') \<Rightarrow> Ret (Inr (filter (selects a b name ms') (map snd (filter (\<lambda>(u', c). u' = u) w)), w))))"

lemma list_put_frank: "frank_put list_kept list_put"
  by (auto simp: frank_put_def list_put_def list_kept_def)

lemma list_get_frank: "frank_get list_kept list_get"
  by (force simp: frank_get_def list_get_def list_kept_def)

definition sys_demo :: "(SamplePair list, (string \<times> Chunk) list) sys_action list" where
  "sys_demo =
     (let m = [(''__name__'', ''up''), (''job'', ''x'')]; E = list_env (\<lambda>u k. k)
      in [SPush ''u'' [\<lparr>s_Metric = m, s_Value = 1, s_Timestamp = 5\<rparr>, \<lparr>s_Metric = m, s_Value = 2, s_Timestamp = 6\<rparr>],
          SFlush ''a:1'' E True, SFlush ''b:1'' E True,
          SPush ''u'' [\<lparr>s_Metric = m, s_Value = 3, s_Timestamp = 7\<rparr>], SAsk ''u'' 0 10 [name_matcher ''up'']])"


end
