(* ===== verification/Test_Runner.thy ===== *)
theory Test_Runner
  imports Time_Json "HOL-Library.Product_Lexorder" "HOL-Library.Sublist"
begin

text \<open>
  The integration test runner (\<open>tools/runner/runner.go\<close>): it reads from the name of every test
  how many hosts the test needs and runs the tests on a pool of hosts, one after the other or in
  parallel. The parallel scheduler is a step relation: the main loop hands hosts to tests as long
  as one fits, and otherwise waits for the result of any running test. The outcome of a test is
  whatever its process returns.
\<close>

section \<open>Tests\<close>

record test =
  t_name :: string
  t_hosts :: int

definition TrimSuffix :: "string \<Rightarrow> string \<Rightarrow> string" where
  "TrimSuffix s u = (if suffix u s then take (length s - length u) s else s)"

definition num_hosts :: "string \<Rightarrow> int" where
  "num_hosts name =
     (let parts = split_on CHR ''_'' (TrimSuffix name ''_test.sh'')
      in case ParseInt 64 (last parts) of Inl e \<Rightarrow> 1 | Inr n \<Rightarrow> n)"

text \<open>
  The remote scheduler: \<open>Getenv\<close> is the environment, \<open>Post\<close> sends a body of a content type to a URL and
  returns the body of the response, \<open>enc\<close> and \<open>dec\<close> are the JSON codec of the list of tests.
\<close>

record scheduler =
  s_Host :: string
  s_Getenv :: "string \<Rightarrow> string"
  s_enc :: "string list \<Rightarrow> err + bytes"
  s_dec :: "bytes \<Rightarrow> err + string list"
  s_Post :: "string \<Rightarrow> string \<Rightarrow> bytes \<Rightarrow> err + bytes"

definition getSchedule :: "scheduler \<Rightarrow> string list \<Rightarrow> err + string list" where
  "getSchedule S tests =
     (let testRun = s_Getenv S ''CIRCLE_PROJECT_REPONAME'' @ ''-integration-'' @ s_Getenv S ''CIRCLE_BUILD_NUM'';
          shardCount = s_Getenv S ''CIRCLE_NODE_TOTAL''; shardID = s_Getenv S ''CIRCLE_NODE_INDEX''
      in case s_enc S tests of
           Inl e \<Rightarrow> Inl e
         | Inr requestBody \<Rightarrow>
        (case s_Post S (''http://'' @ s_Host S @ ''/schedule/'' @ testRun @ ''/'' @ shardCount @ ''/'' @ shardID)
                ''application/json'' requestBody of
           Inl e \<Rightarrow> Inl e
         | Inr body \<Rightarrow> s_dec S body))"

text \<open>The scheduler is only used with the flag for it.\<close>

definition getTests :: "scheduler \<Rightarrow> bool \<Rightarrow> string list \<Rightarrow> err + test list" where
  "getTests S useScheduler testNames =
     (case (if useScheduler then getSchedule S testNames else Inr testNames) of
        Inl e \<Rightarrow> Inl e
      | Inr names \<Rightarrow> Inr (map (\<lambda>name. \<lparr>t_name = name, t_hosts = num_hosts name\<rparr>) names))"

text \<open>
  \<open>Less\<close> compares the hosts and then the names; the parallel runner sorts by the reverse of it.
  Two tests that compare equal are equal, so the reverse of a sorted list is the only such order.
\<close>

definition tests_Less :: "test \<Rightarrow> test \<Rightarrow> bool" where
  "tests_Less a b \<longleftrightarrow> (if t_hosts a \<noteq> t_hosts b then t_hosts a < t_hosts b else t_name a < t_name b)"

definition sort_reverse :: "test list \<Rightarrow> test list" where
  "sort_reverse ts = rev (sort_slice (\<lambda>t. (t_hosts t, t_name t)) ts)"

text \<open>The first test that fits, and the others.\<close>

fun pick :: "int \<Rightarrow> test list \<Rightarrow> (test \<times> test list) option" where
  "pick available [] = None"
| "pick available (t # ts) =
     (if t_hosts t \<le> available then Some (t, ts)
      else (case pick available ts of None \<Rightarrow> None | Some (u, us) \<Rightarrow> Some (u, t # us)))"

section \<open>Running a test\<close>

text \<open>The loop over the environment replaces the first entry that starts with \<open>HOSTS\<close>.\<close>

fun replace_hosts :: "string \<Rightarrow> string list \<Rightarrow> string list" where
  "replace_hosts new [] = []"
| "replace_hosts new (env # envs) = (if prefix ''HOSTS'' env then new # envs else env # replace_hosts new envs)"

definition run_env :: "string list \<Rightarrow> string list \<Rightarrow> string list" where
  "run_env environ hosts = replace_hosts (''HOSTS='' @ strings_Join '' '' hosts) environ"

text \<open>
  The request that reports a duration to the scheduler: \<open>QueryEscape\<close> escapes the name, \<open>dur\<close> is
  the duration in seconds with two decimals.
\<close>

record sched_request =
  sr_Method :: string
  sr_Host :: string
  sr_Opaque :: string

definition updateScheduler :: "string \<Rightarrow> (string \<Rightarrow> string) \<Rightarrow> string \<Rightarrow> string \<Rightarrow> sched_request" where
  "updateScheduler host QueryEscape name dur =
     \<lparr>sr_Method = ''POST'', sr_Host = host, sr_Opaque = ''/record/'' @ QueryEscape name @ ''/'' @ dur\<rparr>"

text \<open>
  \<open>exec\<close> is the error of the command of that name in an environment, if it fails or times out, and
  how long it took. The result is whether it failed, with the request to the scheduler, if any:
  a duration is only reported for a test that failed.
\<close>

definition test_run ::
  "(string \<Rightarrow> string list \<Rightarrow> err option \<times> string) \<Rightarrow> string list \<Rightarrow> bool \<Rightarrow> string \<Rightarrow> (string \<Rightarrow> string) \<Rightarrow> test \<Rightarrow> string list \<Rightarrow>
   bool \<times> sched_request option" where
  "test_run exec environ useScheduler host QueryEscape t hosts =
     (case exec (t_name t) (run_env environ hosts) of (err, dur) \<Rightarrow>
        (err \<noteq> None,
         if err \<noteq> None \<and> useScheduler then Some (updateScheduler host QueryEscape (t_name t) dur) else None))"

text \<open>The lines of the summary, without their colours.\<close>

definition summary :: "test list \<Rightarrow> test list \<Rightarrow> string list" where
  "summary tests failed =
     (if length failed > 0
      then (''>>> Ran '' @ show_nat (length tests) @ '' tests, '' @ show_nat (length failed) @ '' failed'') #
           map (\<lambda>t. ''>>> Fail '' @ t_name t) failed
      else [''>>> Ran '' @ show_nat (length tests) @ '' tests, all succeeded''])"

section \<open>One after the other\<close>

definition sequential_failed :: "(test \<Rightarrow> string list \<Rightarrow> bool) \<Rightarrow> test list \<Rightarrow> string list \<Rightarrow> test list" where
  "sequential_failed run ts hosts = foldl (\<lambda>failed t. if run t hosts then failed @ [t] else failed) [] ts"

definition sequential :: "(test \<Rightarrow> string list \<Rightarrow> bool) \<Rightarrow> test list \<Rightarrow> string list \<Rightarrow> bool" where
  "sequential run ts hosts \<longleftrightarrow> length (sequential_failed run ts hosts) > 0"

section \<open>In parallel\<close>

record pool =
  p_ts :: "test list"
  p_hosts :: "string list"
  p_running :: "(test \<times> string list) list"
  p_failed :: "test list"

definition parallel_start :: "test list \<Rightarrow> string list \<Rightarrow> pool" where
  "parallel_start ts hosts = \<lparr>p_ts = sort_reverse ts, p_hosts = hosts, p_running = [], p_failed = []\<rparr>"

text \<open>
  The inner loop starts a test if there are free hosts and one fits (a test that asks for a
  negative number would make the slice expression panic, so it takes no step). Otherwise the
  loop receives the result of some running test and returns its hosts to the pool. Both happen
  only while tests are waiting or running.
\<close>

definition can_schedule :: "pool \<Rightarrow> bool" where
  "can_schedule p \<longleftrightarrow> p_hosts p \<noteq> [] \<and> pick (int (length (p_hosts p))) (p_ts p) \<noteq> None"

inductive parallel :: "pool \<Rightarrow> (test \<times> bool) option \<Rightarrow> pool \<Rightarrow> bool" where
  schedule: "p_hosts p \<noteq> [] \<Longrightarrow> pick (int (length (p_hosts p))) (p_ts p) = Some (t, ts) \<Longrightarrow> 0 \<le> t_hosts t \<Longrightarrow>
    parallel p None (p\<lparr>p_ts := ts, p_hosts := drop (nat (t_hosts t)) (p_hosts p),
      p_running := p_running p @ [(t, take (nat (t_hosts t)) (p_hosts p))]\<rparr>)"
| receive: "\<not> can_schedule p \<Longrightarrow> p_running p = xs @ (t, hs) # ys \<Longrightarrow>
    parallel p (Some (t, errored)) (p\<lparr>p_hosts := p_hosts p @ hs, p_running := xs @ ys,
      p_failed := (if errored then p_failed p @ [t] else p_failed p)\<rparr>)"

inductive_cases parallelE [elim]: "parallel p l p'"

text \<open>A run and the results it has received, in order.\<close>

inductive parallel_run :: "pool \<Rightarrow> (test \<times> bool) list \<Rightarrow> pool \<Rightarrow> bool" where
  begin_run: "parallel_run p [] p"
| step_run: "parallel_run p log q \<Longrightarrow> parallel q l q' \<Longrightarrow>
    parallel_run p (log @ (case l of None \<Rightarrow> [] | Some r \<Rightarrow> [r])) q'"

definition finished :: "pool \<Rightarrow> bool" where
  "finished p \<longleftrightarrow> p_ts p = [] \<and> p_running p = []"

text \<open>The exit status of the program.\<close>

definition runner_exit :: "err + test list \<Rightarrow> string list \<Rightarrow> bool \<Rightarrow> nat" where
  "runner_exit tests hosts errored =
     (case tests of Inl e \<Rightarrow> 1 | Inr ts \<Rightarrow> (if length hosts = 0 then 1 else if errored then 1 else 0))"

section \<open>Picking a test\<close>

lemma pick_None: "pick n ts = None \<longleftrightarrow> (\<forall>t\<in>set ts. n < t_hosts t)"
  by (induction ts) (auto split: option.splits)

lemma pick_Some: "pick n ts = Some (t, us) \<Longrightarrow> t_hosts t \<le> n \<and> mset ts = add_mset t (mset us)"
proof (induction ts arbitrary: us)
  case (Cons x xs)
  then show ?case by (auto split: if_splits option.splits)
qed simp

lemma sort_reverse_perm: "mset (sort_reverse ts) = mset ts"
  by (simp add: sort_reverse_def gosort.sort_perm)

lemma sort_reverse_desc: "sorted_wrt (\<lambda>a b. \<not> tests_Less a b) (sort_reverse ts)"
proof -
  have "sorted (map (\<lambda>t. (t_hosts t, t_name t)) (sort_slice (\<lambda>t. (t_hosts t, t_name t)) ts))" by (rule gosort.sort_sorted)
  then have "sorted_wrt (\<lambda>a b. (t_hosts a, t_name a) \<le> (t_hosts b, t_name b)) (sort_slice (\<lambda>t. (t_hosts t, t_name t)) ts)"
    by (simp add: sorted_map)
  then show ?thesis
    unfolding sort_reverse_def sorted_wrt_rev
    by (rule sorted_wrt_mono_rel [rotated]) (auto simp: tests_Less_def less_eq_prod_def split: if_splits)
qed

text \<open>In a list sorted that way the test that is picked is the largest one that fits.\<close>

lemma pick_largest:
  assumes "sorted_wrt (\<lambda>a b. \<not> tests_Less a b) ts" "pick n ts = Some (t, us)" "u \<in> set ts" "t_hosts u \<le> n"
  shows "t_hosts u \<le> t_hosts t"
  using assms
proof (induction ts arbitrary: us)
  case (Cons x xs)
  show ?case
  proof (cases "t_hosts x \<le> n")
    case True
    then have "t = x" using Cons.prems(2) by simp
    then show ?thesis using Cons.prems(1,3) by (auto simp: tests_Less_def split: if_splits)
  next
    case False
    then obtain vs where "pick n xs = Some (t, vs)" "u \<in> set xs"
      using Cons.prems(2,3,4) by (auto split: option.splits)
    then show ?thesis using Cons by auto
  qed
qed simp

section \<open>Hosts and tests are conserved\<close>

definition conserved :: "test list \<Rightarrow> string list \<Rightarrow> (test \<times> bool) list \<Rightarrow> pool \<Rightarrow> bool" where
  "conserved ts H log p \<longleftrightarrow>
     mset (p_hosts p) + mset (concat (map snd (p_running p))) = mset H \<and>
     mset (p_ts p) + mset (map fst (p_running p)) + mset (map fst log) = mset ts \<and>
     p_failed p = map fst (filter snd log) \<and>
     (\<forall>(t, hs)\<in>set (p_running p). int (length hs) = t_hosts t)"

lemma conserved_step:
  assumes "conserved ts H log p" "parallel p l p'"
  shows "conserved ts H (log @ (case l of None \<Rightarrow> [] | Some r \<Rightarrow> [r])) p'"
  using assms(2)
proof cases
  case (schedule t us)
  have fits: "t_hosts t \<le> int (length (p_hosts p))" "mset (p_ts p) = add_mset t (mset us)"
    using pick_Some [OF schedule(4)] by simp_all
  have "mset (take n xs) + mset (drop n xs) = mset xs" for n and xs :: "string list"
    by (metis append_take_drop_id mset_append)
  then show ?thesis
    using assms(1) fits schedule(1,2,5) by (auto simp: conserved_def ac_simps min_absorb2 nat_le_iff)
next
  case (receive xs t hs ys errored)
  then show ?thesis using assms(1) by (auto simp: conserved_def ac_simps)
qed

lemma conserved_run: "parallel_run (parallel_start ts H) log p \<Longrightarrow> conserved ts H log p"
proof (induction "parallel_start ts H" log p rule: parallel_run.induct)
  case begin_run
  show ?case by (simp add: conserved_def parallel_start_def sort_reverse_perm)
next
  case (step_run log q l q')
  then show ?case by (blast intro: conserved_step)
qed

text \<open>
  C26: The parallel runner never gives a host to two tests at once. Whatever the order in which
  tests finish, the free hosts together with those of the running tests are the hosts of the pool,
  each once; every running test has exactly the number of hosts its name asks for; every test is
  waiting, running or has reported its result, exactly one of these; and the failures are the
  tests that reported an error, in order.
\<close>

theorem parallel_hosts_exclusive:
  assumes "parallel_run (parallel_start ts H) log p" "distinct H"
  shows "distinct (p_hosts p @ concat (map snd (p_running p))) \<and> set (p_hosts p @ concat (map snd (p_running p))) = set H \<and>
    (\<forall>(t, hs)\<in>set (p_running p). int (length hs) = t_hosts t) \<and>
    mset (p_ts p @ map fst (p_running p) @ map fst log) = mset ts \<and> p_failed p = map fst (filter snd log)"
proof -
  have c: "conserved ts H log p" by (rule conserved_run [OF assms(1)])
  then have "mset (p_hosts p @ concat (map snd (p_running p))) = mset H" by (simp add: conserved_def)
  then have "distinct (p_hosts p @ concat (map snd (p_running p)))" "set (p_hosts p @ concat (map snd (p_running p))) = set H"
    using assms(2) by (metis mset_eq_imp_distinct_iff, metis mset_eq_setD)
  then show ?thesis using c by (simp add: conserved_def add.assoc)
qed

definition demo_tests :: "test list" where
  "demo_tests = [\<lparr>t_name = ''a_1_test.sh'', t_hosts = 1\<rparr>, \<lparr>t_name = ''b_2_test.sh'', t_hosts = 2\<rparr>]"

theorem parallel_hosts_exclusive_witness:
  "distinct (p_hosts (parallel_start demo_tests [''h1'', ''h2'']) @ concat (map snd (p_running (parallel_start demo_tests [''h1'', ''h2'']))))"
  by (rule parallel_hosts_exclusive [of demo_tests "[''h1'', ''h2'']" "[]", THEN conjunct1]) (simp_all add: begin_run)

section \<open>Completion and deadlock\<close>

definition work :: "pool \<Rightarrow> nat" where
  "work p = 2 * length (p_ts p) + length (p_running p)"

lemma parallel_work: "parallel p l p' \<Longrightarrow> work p' < work p"
proof (erule parallelE)
  fix t us
  assume "pick (int (length (p_hosts p))) (p_ts p) = Some (t, us)"
  then have "mset (p_ts p) = add_mset t (mset us)" by (simp add: pick_Some)
  then have "length (p_ts p) = Suc (length us)" by (metis size_mset size_add_mset)
  moreover assume "p' = p\<lparr>p_ts := us, p_hosts := drop (nat (t_hosts t)) (p_hosts p),
      p_running := p_running p @ [(t, take (nat (t_hosts t)) (p_hosts p))]\<rparr>"
  ultimately show ?thesis by (simp add: work_def)
qed (simp add: work_def)

lemma maximal_run: "\<exists>log' q. parallel_run p log' q \<and> (\<nexists>l q'. parallel q l q')" if "parallel_run p log q" for p log q
  using that
proof (induction "work q" arbitrary: log q rule: less_induct)
  case less
  show ?case
  proof (cases "\<exists>l q'. parallel q l q'")
    case True
    then obtain l q' where s: "parallel q l q'" by blast
    show ?thesis by (rule less.hyps [OF parallel_work [OF s] step_run [OF less.prems s]])
  qed (use less.prems in blast)
qed

lemma parallel_progress:
  assumes "conserved ts H log p" "H \<noteq> []" "\<forall>t\<in>set ts. 0 \<le> t_hosts t \<and> t_hosts t \<le> int (length H)" "\<not> finished p"
  shows "\<exists>l q. parallel p l q"
proof (cases "can_schedule p")
  case True
  then obtain t us where pk: "p_hosts p \<noteq> []" "pick (int (length (p_hosts p))) (p_ts p) = Some (t, us)"
    by (auto simp: can_schedule_def)
  have "t \<in># mset (p_ts p)" using pick_Some [OF pk(2)] by simp
  then have "t \<in># mset ts" using assms(1) by (metis conserved_def union_iff)
  then have "0 \<le> t_hosts t" using assms(3) by simp
  then show ?thesis using schedule [OF pk] by blast
next
  case False
  have "p_running p \<noteq> []"
  proof
    assume r: "p_running p = []"
    then have "mset (p_hosts p) = mset H" using assms(1) by (simp add: conserved_def)
    then have len: "length (p_hosts p) = length H" by (metis size_mset)
    obtain t where t: "t \<in> set (p_ts p)" using assms(4) r by (metis finished_def last_in_set)
    then have "t \<in># mset ts" using assms(1) by (metis conserved_def union_iff set_mset_mset)
    then have "t_hosts t \<le> int (length (p_hosts p))" using assms(3) len by simp
    then have "pick (int (length (p_hosts p))) (p_ts p) \<noteq> None" using t unfolding pick_None by fastforce
    moreover have "p_hosts p \<noteq> []" using len assms(2) by auto
    ultimately show False using False by (simp add: can_schedule_def)
  qed
  then obtain t hs ys where "p_running p = [] @ (t, hs) # ys" by (metis append_Nil list.exhaust surj_pair)
  then show ?thesis using receive [OF False] by blast
qed

text \<open>
  C27: The parallel runner completes. If every test asks for a number of hosts between zero and
  the size of a non-empty pool, then the runner never gets stuck before it is finished, every step
  reduces the remaining work, which starts at twice the number of tests, and once it is finished
  every test has reported its result exactly once and all hosts are free again.
\<close>

theorem parallel_completes:
  assumes "parallel_run (parallel_start ts H) log p" "H \<noteq> []" "\<forall>t\<in>set ts. 0 \<le> t_hosts t \<and> t_hosts t \<le> int (length H)"
  shows "(\<not> finished p \<longrightarrow> (\<exists>l q. parallel p l q)) \<and> (\<forall>l q. parallel p l q \<longrightarrow> work q < work p) \<and>
    work (parallel_start ts H) = 2 * length ts \<and>
    (finished p \<longrightarrow> mset (map fst log) = mset ts \<and> mset (p_hosts p) = mset H)"
proof -
  have c: "conserved ts H log p" by (rule conserved_run [OF assms(1)])
  have "work (parallel_start ts H) = 2 * length ts"
    by (simp add: work_def parallel_start_def) (metis size_mset sort_reverse_perm)
  moreover have "\<not> finished p \<longrightarrow> (\<exists>l q. parallel p l q)" using parallel_progress [OF c assms(2,3)] by blast
  moreover have "finished p \<longrightarrow> mset (map fst log) = mset ts \<and> mset (p_hosts p) = mset H"
    using c by (auto simp: conserved_def finished_def)
  ultimately show ?thesis using parallel_work by blast
qed

theorem parallel_completes_witness:
  "\<exists>l q. parallel (parallel_start demo_tests [''h1'', ''h2'']) l q"
  by (rule parallel_completes [THEN conjunct1, rule_format, of demo_tests "[''h1'', ''h2'']" "[]"])
    (auto simp: begin_run demo_tests_def finished_def parallel_start_def sort_reverse_def sort_slice_def)

text \<open>
  A test that asks for more hosts than the pool has blocks the parallel runner: no run ever
  finishes, and a state is reached in which no step is possible, with the test still waiting, so
  the main loop waits for a result that never comes.
\<close>

lemma parallel_deadlock:
  assumes "u \<in> set ts" "int (length H) < t_hosts u"
  shows "(\<forall>log p. parallel_run (parallel_start ts H) log p \<longrightarrow> \<not> finished p) \<and>
    (\<exists>log p. parallel_run (parallel_start ts H) log p \<and> (\<nexists>l q. parallel p l q) \<and> u \<in> set (p_ts p))"
proof -
  have stays: "u \<in> set (p_ts p)" if "parallel_run (parallel_start ts H) log p" for log p
    using that
  proof (induction "parallel_start ts H" log p rule: parallel_run.induct)
    case begin_run
    have "set (sort_reverse ts) = set ts" by (rule mset_eq_setD [OF sort_reverse_perm])
    then show ?case using assms(1) by (simp add: parallel_start_def)
  next
    case (step_run log q l q')
    have "conserved ts H log q" by (rule conserved_run [OF step_run.hyps(1)])
    then have "size (mset (p_hosts q)) \<le> size (mset H)" by (metis conserved_def size_union le_add1)
    then have "int (length (p_hosts q)) < t_hosts u" using assms(2) by simp
    then have "u \<noteq> t \<and> mset (p_ts q) = add_mset t (mset us)" if "pick (int (length (p_hosts q))) (p_ts q) = Some (t, us)" for t us
      using pick_Some [OF that] by auto
    then have "u \<in> set us" if "pick (int (length (p_hosts q))) (p_ts q) = Some (t, us)" for t us
    proof -
      have "u \<noteq> t" "set (p_ts q) = insert t (set us)"
        using that \<open>\<And>us t. _ = Some (t, us) \<Longrightarrow> u \<noteq> t \<and> _\<close> [OF that] by (auto dest!: mset_eq_setD [of "p_ts q" "t # us", simplified])
      then show ?thesis using step_run.hyps(2) by blast
    qed
    with step_run.hyps(2,3) show ?case by auto
  qed
  obtain log p where "parallel_run (parallel_start ts H) log p" "\<nexists>l q. parallel p l q"
    using maximal_run [OF begin_run] by blast
  moreover have "\<not> finished q" if "parallel_run (parallel_start ts H) log q" for log q
    using stays [OF that] by (auto simp: finished_def)
  ultimately show ?thesis using stays by blast
qed

text \<open>
  The environment entry that is replaced need not be \<open>HOSTS\<close>: a variable whose name only starts
  that way and comes first is overwritten, and the test sees the hosts of the whole pool.
\<close>

lemma replace_hosts_prefix:
  "replace_hosts ''HOSTS=h1'' [''HOSTSFILE=/etc/hosts'', ''HOSTS=h1 h2''] = [''HOSTS=h1'', ''HOSTS=h1 h2'']"
  by simp

text \<open>The number of hosts is the last part of the name, and 1 where that is not a number.\<close>

lemma num_hosts_examples:
  "num_hosts ''100_cross_hosts_2_test.sh'' = 2" "num_hosts ''200_smoke_test.sh'' = 1"
  by (simp_all add: num_hosts_def TrimSuffix_def suffix_to_prefix ParseInt_def is_digit_def digits_val_def digit_val_def)

end
