(* ===== verification/Cover_Tool.thy ===== *)
theory Cover_Tool
  imports Go_Std "HOL-Library.Product_Lexorder"
begin

text \<open>
  The tool that merges coverage profiles (\<open>tools/cover/cover.go\<close>): profiles of the same file are
  merged block by block, adding the counts of blocks that start at the same position, and the
  result is printed in the order of the file names. Reading a profile from a file is an argument:
  an input is the list of profiles in it, or an error.
\<close>

section \<open>Profiles\<close>

record ProfileBlock =
  StartLine :: int
  StartCol :: int
  EndLine :: int
  EndCol :: int
  NumStmt :: int
  Count :: int

record Profile =
  FileName :: string
  Mode :: string
  Blocks :: "ProfileBlock list"

fun merge_blocks :: "ProfileBlock list \<Rightarrow> ProfileBlock list \<Rightarrow> ProfileBlock list go" where
  "merge_blocks [] ys = Ret ys"
| "merge_blocks xs [] = Ret xs"
| "merge_blocks (bi # xs) (bj # ys) =
     (if StartLine bi = StartLine bj \<and> StartCol bi = StartCol bj then
        (if EndLine bi \<noteq> EndLine bj \<or> EndCol bi \<noteq> EndCol bj \<or> NumStmt bi \<noteq> NumStmt bj
         then Panic ''Not run on same source!''
         else bind_go (merge_blocks xs ys) (\<lambda>r. Ret (bi\<lparr>Count := wrap64 (Count bi + Count bj)\<rparr> # r)))
      else if StartLine bi < StartLine bj \<or> StartLine bi = StartLine bj \<and> StartCol bi < StartCol bj then
        bind_go (merge_blocks xs (bj # ys)) (\<lambda>r. Ret (bi # r))
      else bind_go (merge_blocks (bi # xs) ys) (\<lambda>r. Ret (bj # r)))"

definition cover_merge :: "Profile \<Rightarrow> Profile \<Rightarrow> Profile go" where
  "cover_merge p1 p2 =
     bind_go (merge_blocks (Blocks p1) (Blocks p2)) (\<lambda>bs. Ret \<lparr>FileName = FileName p1, Mode = Mode p1, Blocks = bs\<rparr>)"

text \<open>\<open>outputProfiles\<close>: the Go map from file names to profiles, as a list in order of insertion.\<close>

fun add_profile :: "Profile \<Rightarrow> Profile list \<Rightarrow> Profile list go" where
  "add_profile ip [] = Ret [ip]"
| "add_profile ip (op # ops) =
     (if FileName op = FileName ip then bind_go (cover_merge op ip) (\<lambda>m. Ret (m # ops))
      else bind_go (add_profile ip ops) (\<lambda>r. Ret (op # r)))"

fun add_profiles :: "Profile list \<Rightarrow> Profile list \<Rightarrow> Profile list go" where
  "add_profiles [] out = Ret out"
| "add_profiles (ip # ips) out = bind_go (add_profile ip out) (add_profiles ips)"

fun read_inputs :: "(err + Profile list) list \<Rightarrow> Profile list \<Rightarrow> Profile list go" where
  "read_inputs [] out = Ret out"
| "read_inputs (Inl e # rest) out = Panic (''Error parsing: '' @ msg e)"
| "read_inputs (Inr ips # rest) out = bind_go (add_profiles ips out) (read_inputs rest)"

definition sort_byFileName :: "Profile list \<Rightarrow> Profile list" where
  "sort_byFileName ps = sort_slice FileName ps"

definition print_block :: "string \<Rightarrow> ProfileBlock \<Rightarrow> string" where
  "print_block file b =
     file @ '':'' @ show_int (StartLine b) @ ''.'' @ show_int (StartCol b) @ '','' @ show_int (EndLine b) @ ''.'' @
     show_int (EndCol b) @ '' '' @ show_int (NumStmt b) @ '' '' @ show_int (Count b) @ [CHR 0x0A]"

definition print_profiles :: "Profile list \<Rightarrow> string" where
  "print_profiles ps = ''mode: atomic'' @ [CHR 0x0A] @ concat (map (\<lambda>p. concat (map (print_block (FileName p)) (Blocks p))) ps)"

text \<open>\<open>ord\<close> is the order in which the final \<open>range\<close> visits the map.\<close>

definition cover_main :: "schedule \<Rightarrow> (err + Profile list) list \<Rightarrow> string go" where
  "cover_main ord inputs = bind_go (read_inputs inputs []) (\<lambda>out. Ret (print_profiles (sort_byFileName (permute ord out))))"

section \<open>Merging two lists of blocks\<close>

definition start_of :: "ProfileBlock \<Rightarrow> int \<times> int" where
  "start_of b = (StartLine b, StartCol b)"

definition shape_of :: "ProfileBlock \<Rightarrow> int \<times> int \<times> int" where
  "shape_of b = (EndLine b, EndCol b, NumStmt b)"

definition block_at :: "ProfileBlock list \<Rightarrow> int \<times> int \<Rightarrow> ((int \<times> int \<times> int) \<times> int) option" where
  "block_at bs = map_of (map (\<lambda>b. (start_of b, (shape_of b, Count b))) bs)"

definition ordered_blocks :: "ProfileBlock list \<Rightarrow> bool" where
  "ordered_blocks bs \<longleftrightarrow> sorted_wrt (<) (map start_of bs)"

fun combine :: "('s \<times> int) option \<Rightarrow> ('s \<times> int) option \<Rightarrow> ('s \<times> int) option" where
  "combine None y = y"
| "combine x None = x"
| "combine (Some (s, c)) (Some (t, d)) = Some (s, wrap64 (c + d))"

definition same_source :: "ProfileBlock list \<Rightarrow> ProfileBlock list \<Rightarrow> bool" where
  "same_source xs ys \<longleftrightarrow> (\<forall>x\<in>set xs. \<forall>y\<in>set ys. start_of x = start_of y \<longrightarrow> shape_of x = shape_of y)"

lemma start_less: "start_of x < start_of y \<longleftrightarrow> StartLine x < StartLine y \<or> StartLine x = StartLine y \<and> StartCol x < StartCol y"
  by (auto simp: start_of_def less_prod_def')

lemma start_eq: "start_of x = start_of y \<longleftrightarrow> StartLine x = StartLine y \<and> StartCol x = StartCol y"
  by (simp add: start_of_def)

lemma shape_eq: "shape_of x = shape_of y \<longleftrightarrow> EndLine x = EndLine y \<and> EndCol x = EndCol y \<and> NumStmt x = NumStmt y"
  by (simp add: shape_of_def)

lemma merge_step:
  "merge_blocks (x # xs) (y # ys) =
     (if start_of x = start_of y then
        (if shape_of x \<noteq> shape_of y then Panic ''Not run on same source!''
         else bind_go (merge_blocks xs ys) (\<lambda>r. Ret (x\<lparr>Count := wrap64 (Count x + Count y)\<rparr> # r)))
      else if start_of x < start_of y then bind_go (merge_blocks xs (y # ys)) (\<lambda>r. Ret (x # r))
      else bind_go (merge_blocks (x # xs) ys) (\<lambda>r. Ret (y # r)))"
  by (simp add: start_less start_eq shape_eq)

lemma block_at_simps [simp]:
  "block_at [] pos = None"
  "block_at (b # bs) pos = (if pos = start_of b then Some (shape_of b, Count b) else block_at bs pos)"
  by (simp_all add: block_at_def)

lemma ordered_Cons: "ordered_blocks (b # bs) \<longleftrightarrow> ordered_blocks bs \<and> (\<forall>x\<in>set bs. start_of b < start_of x)"
  by (auto simp: ordered_blocks_def)

lemma block_at_None: "block_at bs pos = None \<longleftrightarrow> pos \<notin> start_of ` set bs"
  by (induction bs) auto

lemma below_None: "\<forall>x\<in>set bs. pos < start_of x \<Longrightarrow> block_at bs pos = None"
  unfolding block_at_None by auto

lemma count_upd [simp]: "start_of (b\<lparr>Count := c\<rparr>) = start_of b" "shape_of (b\<lparr>Count := c\<rparr>) = shape_of b"
  by (simp_all add: start_of_def shape_of_def)

lemma combine_None [simp]: "combine x None = x"
  by (cases x) auto

definition merges :: "ProfileBlock list \<Rightarrow> ProfileBlock list \<Rightarrow> ProfileBlock list \<Rightarrow> bool" where
  "merges xs ys r \<longleftrightarrow> ordered_blocks r \<and> start_of ` set r = start_of ` set xs \<union> start_of ` set ys \<and>
     (\<forall>pos. block_at r pos = combine (block_at xs pos) (block_at ys pos))"

lemma merges_Cons:
  assumes "merges xs ys r" "\<forall>x\<in>set xs. start_of b < start_of x" "\<forall>y\<in>set ys. start_of b < start_of y"
  shows "merges (b # xs) ys (b # r)" "merges xs (b # ys) (b # r)"
    "start_of c = start_of b \<Longrightarrow> shape_of c = shape_of b \<Longrightarrow>
      merges (b # xs) (c # ys) (b\<lparr>Count := wrap64 (Count b + Count c)\<rparr> # r)"
proof -
  have "start_of ` set r = start_of ` set xs \<union> start_of ` set ys" using assms(1) by (simp add: merges_def)
  then have "\<forall>p\<in>start_of ` set r. start_of b < p" using assms(2,3) by auto
  then have "\<forall>x\<in>set r. start_of b < start_of x" by blast
  moreover have "block_at xs (start_of b) = None" "block_at ys (start_of b) = None"
    using assms(2,3) by (simp_all add: below_None)
  ultimately show "merges (b # xs) ys (b # r)" "merges xs (b # ys) (b # r)"
    "start_of c = start_of b \<Longrightarrow> shape_of c = shape_of b \<Longrightarrow>
      merges (b # xs) (c # ys) (b\<lparr>Count := wrap64 (Count b + Count c)\<rparr> # r)"
    using assms(1) by (auto simp: merges_def ordered_Cons)
qed

lemma merge_blocks_spec:
  assumes "ordered_blocks xs" "ordered_blocks ys"
  shows "(same_source xs ys \<longrightarrow> (\<exists>r. merge_blocks xs ys = Ret r \<and> merges xs ys r)) \<and>
    (\<not> same_source xs ys \<longrightarrow> merge_blocks xs ys = Panic ''Not run on same source!'')"
  using assms
proof (induction xs ys rule: merge_blocks.induct)
  case (3 x xs y ys)
  note ord = "3.prems" [unfolded ordered_Cons]
  consider (eq) "start_of x = start_of y" | (lt) "start_of x < start_of y" | (gt) "start_of y < start_of x"
    by (metis linorder_neqE)
  then show ?case
  proof cases
    case eq
    have "\<forall>z\<in>set ys. start_of y \<noteq> start_of z" "\<forall>z\<in>set xs. start_of z \<noteq> start_of y" using ord eq by auto
    then have src: "same_source (x # xs) (y # ys) \<longleftrightarrow> shape_of x = shape_of y \<and> same_source xs ys"
      by (simp add: same_source_def eq cong: ball_cong)
    show ?thesis
    proof (cases "shape_of x = shape_of y")
      case True
      have "(same_source xs ys \<longrightarrow> (\<exists>r. merge_blocks xs ys = Ret r \<and> merges xs ys r)) \<and>
          (\<not> same_source xs ys \<longrightarrow> merge_blocks xs ys = Panic ''Not run on same source!'')"
        by (rule "3.IH"(1)) (use eq [unfolded start_eq] True [unfolded shape_eq] ord in blast)+
      moreover have "merges (x # xs) (y # ys) (x\<lparr>Count := wrap64 (Count x + Count y)\<rparr> # r)" if "merges xs ys r" for r
        by (rule merges_Cons(3) [OF that]) (use ord eq True in auto)
      ultimately show ?thesis
        using True src unfolding merge_step if_P [OF eq] by (cases "same_source xs ys") auto
    qed (use eq src in \<open>simp add: merge_step del: merge_blocks.simps(3)\<close>)
  next
    case lt
    have below: "\<forall>z\<in>set (y # ys). start_of x < start_of z" using lt ord by (auto intro: less_trans)
    then have "\<forall>z\<in>set (y # ys). start_of x \<noteq> start_of z" by (metis less_irrefl)
    then have src: "same_source (x # xs) (y # ys) \<longleftrightarrow> same_source xs (y # ys)" by (simp add: same_source_def)
    have "(same_source xs (y # ys) \<longrightarrow> (\<exists>r. merge_blocks xs (y # ys) = Ret r \<and> merges xs (y # ys) r)) \<and>
        (\<not> same_source xs (y # ys) \<longrightarrow> merge_blocks xs (y # ys) = Panic ''Not run on same source!'')"
      using "3.IH"(2) lt ord "3.prems"(2) unfolding start_less by (auto simp: start_eq)
    then show ?thesis
      using lt src ord below merges_Cons(1) [of xs "y # ys" _ x] by (auto simp: merge_step simp del: merge_blocks.simps(3))
  next
    case gt
    have below: "\<forall>z\<in>set (x # xs). start_of y < start_of z" using gt ord by (auto intro: less_trans)
    then have "\<forall>z\<in>set (x # xs). start_of z \<noteq> start_of y" by (metis less_irrefl)
    then have src: "same_source (x # xs) (y # ys) \<longleftrightarrow> same_source (x # xs) ys" by (simp add: same_source_def)
    have "(same_source (x # xs) ys \<longrightarrow> (\<exists>r. merge_blocks (x # xs) ys = Ret r \<and> merges (x # xs) ys r)) \<and>
        (\<not> same_source (x # xs) ys \<longrightarrow> merge_blocks (x # xs) ys = Panic ''Not run on same source!'')"
      using "3.IH"(3) gt ord "3.prems"(1) unfolding start_less by (auto simp: start_eq)
    then show ?thesis
      using gt src ord below merges_Cons(2) [of "x # xs" ys _ y] by (auto simp: merge_step simp del: merge_blocks.simps(3))
  qed
qed (auto simp: same_source_def merges_def)

section \<open>The counts of all inputs\<close>

text \<open>What the profiles of a file say about a position, and their sum.\<close>

definition entries :: "Profile list \<Rightarrow> string \<Rightarrow> int \<times> int \<Rightarrow> ((int \<times> int \<times> int) \<times> int) list" where
  "entries ps f pos = List.map_filter (\<lambda>p. if FileName p = f then block_at (Blocks p) pos else None) ps"

definition summarise :: "('s \<times> int) list \<Rightarrow> ('s \<times> int) option" where
  "summarise es = (case es of [] \<Rightarrow> None | e # _ \<Rightarrow> Some (fst e, wrap64 (sum_list (map snd es))))"

definition proper :: "Profile \<Rightarrow> bool" where
  "proper p \<longleftrightarrow> ordered_blocks (Blocks p) \<and> (\<forall>b\<in>set (Blocks p). int64 (Count b))"

definition consistent :: "Profile set \<Rightarrow> bool" where
  "consistent P \<longleftrightarrow> (\<forall>p\<in>P. \<forall>q\<in>P. FileName p = FileName q \<longrightarrow> same_source (Blocks p) (Blocks q))"

definition collected :: "Profile list \<Rightarrow> Profile list \<Rightarrow> bool" where
  "collected ps out \<longleftrightarrow> distinct (map FileName out) \<and> FileName ` set out = FileName ` set ps \<and>
     (\<forall>p\<in>set out. ordered_blocks (Blocks p) \<and> (\<forall>pos. block_at (Blocks p) pos = summarise (entries ps (FileName p) pos)))"

lemma entries_snoc:
  "entries (ps @ [p]) f pos = entries ps f pos @
     (if FileName p = f then case block_at (Blocks p) pos of None \<Rightarrow> [] | Some e \<Rightarrow> [e] else [])"
  by (auto simp: entries_def List.map_filter_def split: option.split)

lemma summarise_snoc: "int64 (snd e) \<Longrightarrow> summarise (es @ [e]) = combine (summarise es) (Some e)"
  using wrap64_add_wrap [of "sum_list (map snd es)" "snd e"]
  by (cases es; cases e) (auto simp: summarise_def wrap64_id add.assoc)

lemma block_at_Some: "block_at bs pos = Some (s, c) \<Longrightarrow> \<exists>b\<in>set bs. start_of b = pos \<and> shape_of b = s \<and> Count b = c"
  by (induction bs) (auto split: if_splits)

lemma block_at_member: "ordered_blocks bs \<Longrightarrow> b \<in> set bs \<Longrightarrow> block_at bs (start_of b) = Some (shape_of b, Count b)"
proof (induction bs)
  case (Cons x xs)
  then show ?case by (cases "b = x") (auto simp: ordered_Cons)
qed simp

lemma collectedD:
  assumes "collected ps out" "op \<in> set out" "FileName op = f"
  shows "ordered_blocks (Blocks op)" "block_at (Blocks op) pos = summarise (entries ps f pos)"
  using assms unfolding collected_def by blast+

lemma entries_none: "f \<notin> FileName ` set ps \<Longrightarrow> entries ps f pos = []"
  by (induction ps) (auto simp: entries_def List.map_filter_def)

lemma collected_source:
  assumes "collected ps out" "op \<in> set out" "FileName op = FileName p" "consistent (insert p (set ps))"
  shows "same_source (Blocks op) (Blocks p)"
  unfolding same_source_def
proof (intro ballI impI)
  fix x y
  assume x: "x \<in> set (Blocks op)" and y: "y \<in> set (Blocks p)" and eq: "start_of x = start_of y"
  have "ordered_blocks (Blocks op)" "block_at (Blocks op) (start_of x) = summarise (entries ps (FileName p) (start_of x))"
    by (rule collectedD [OF assms(1-3)])+
  then have "summarise (entries ps (FileName p) (start_of x)) = Some (shape_of x, Count x)" using block_at_member x by metis
  then obtain e where "e \<in> set (entries ps (FileName p) (start_of x))" "fst e = shape_of x"
    by (auto simp: summarise_def split: list.splits)
  then obtain q where q: "q \<in> set ps" "FileName q = FileName p" "block_at (Blocks q) (start_of x) = Some (shape_of x, snd e)"
    by (auto simp: entries_def List.map_filter_def split: if_splits)
  obtain b where b: "b \<in> set (Blocks q)" "start_of b = start_of x" "shape_of b = shape_of x"
    using block_at_Some [OF q(3)] by blast
  have "same_source (Blocks q) (Blocks p)" using assms(4) q(1,2) by (simp add: consistent_def)
  then have "shape_of b = shape_of y" using b y eq by (auto simp: same_source_def)
  then show "shape_of x = shape_of y" using b(3) by simp
qed

lemma collected_merge:
  assumes "collected ps out" "op \<in> set out" "FileName op = FileName p" "consistent (insert p (set ps))" "proper p"
  shows "\<exists>m. cover_merge op p = Ret m \<and> FileName m = FileName p \<and> ordered_blocks (Blocks m) \<and>
    (\<forall>pos. block_at (Blocks m) pos = summarise (entries (ps @ [p]) (FileName p) pos))"
proof -
  have o: "ordered_blocks (Blocks op)" "\<And>pos. block_at (Blocks op) pos = summarise (entries ps (FileName p) pos)"
    by (rule collectedD [OF assms(1-3)])+
  have "ordered_blocks (Blocks p)" using assms(5) by (simp add: proper_def)
  then obtain r where r: "merge_blocks (Blocks op) (Blocks p) = Ret r" "merges (Blocks op) (Blocks p) r"
    using merge_blocks_spec [OF o(1)] collected_source [OF assms(1-4)] by blast
  have "combine (block_at (Blocks op) pos) (block_at (Blocks p) pos) = summarise (entries (ps @ [p]) (FileName p) pos)" for pos
  proof (cases "block_at (Blocks p) pos")
    case (Some e)
    then have "int64 (snd e)" using assms(5) block_at_Some [of "Blocks p" pos "fst e" "snd e"] by (auto simp: proper_def)
    then show ?thesis by (simp add: o(2) Some entries_snoc summarise_snoc)
  qed (simp add: o(2) entries_snoc)
  then show ?thesis using r assms(3) by (simp add: cover_merge_def merges_def)
qed

lemma add_profile_new:
  "FileName p \<notin> FileName ` set out \<Longrightarrow> add_profile p out = Ret (out @ [p])"
  by (induction out) auto

lemma add_profile_old:
  "cover_merge op p = Ret m \<Longrightarrow> FileName op = FileName p \<Longrightarrow> FileName p \<notin> FileName ` set us \<Longrightarrow>
   add_profile p (us @ op # vs) = Ret (us @ m # vs)"
  by (induction us) auto

lemma summarise_single: "int64 (snd e) \<Longrightarrow> summarise [e] = Some e"
  by (cases e) (simp add: summarise_def wrap64_id)

lemma add_profile_collected:
  assumes "collected ps out" "proper p" "consistent (insert p (set ps))"
  shows "\<exists>out'. add_profile p out = Ret out' \<and> collected (ps @ [p]) out'"
proof (cases "FileName p \<in> FileName ` set out")
  case True
  then obtain op us vs where out: "out = us @ op # vs" "FileName op = FileName p" by (auto dest: split_list)
  then obtain m where m: "cover_merge op p = Ret m" "FileName m = FileName p" "ordered_blocks (Blocks m)"
      "\<forall>pos. block_at (Blocks m) pos = summarise (entries (ps @ [p]) (FileName p) pos)"
    using collected_merge [OF assms(1) _ out(2) assms(3,2)] by auto
  have d: "FileName p \<notin> FileName ` set us" "FileName p \<notin> FileName ` set vs"
    using assms(1) out by (auto simp: collected_def)
  have "collected (ps @ [p]) (us @ m # vs)"
    using assms(1) out d m(2-4) by (auto simp: collected_def entries_snoc)
  then show ?thesis using add_profile_old [OF m(1) out(2) d(1)] out(1) by auto
next
  case False
  then have none: "entries ps (FileName p) pos = []" for pos
    using assms(1) by (intro entries_none) (simp add: collected_def)
  have single: "block_at (Blocks p) pos = summarise (entries (ps @ [p]) (FileName p) pos)" for pos
  proof (cases "block_at (Blocks p) pos")
    case (Some e)
    then have "int64 (snd e)" using assms(2) block_at_Some [of "Blocks p" pos "fst e" "snd e"] by (auto simp: proper_def)
    then show ?thesis by (simp add: Some entries_snoc none summarise_single)
  qed (simp add: entries_snoc none summarise_def)
  have "collected (ps @ [p]) (out @ [p])"
    using assms(1,2) False single by (auto simp: collected_def entries_snoc proper_def)
  then show ?thesis using add_profile_new [OF False] by simp
qed

lemma add_profiles_collected:
  "collected ps out \<Longrightarrow> \<forall>p\<in>set qs. proper p \<Longrightarrow> consistent (set ps \<union> set qs) \<Longrightarrow>
   \<exists>out'. add_profiles qs out = Ret out' \<and> collected (ps @ qs) out'"
proof (induction qs arbitrary: ps out)
  case (Cons q qs)
  have "consistent (insert q (set ps))" using Cons.prems(3) by (auto simp: consistent_def)
  then obtain out1 where "add_profile q out = Ret out1" "collected (ps @ [q]) out1"
    using add_profile_collected Cons.prems by (metis list.set_intros(1))
  then show ?case using Cons.IH [of "ps @ [q]" out1] Cons.prems(2,3) by (simp add: Un_commute insert_commute)
qed simp

lemma read_inputs_concat: "read_inputs (map Inr pss) out = add_profiles (concat pss) out"
proof (induction pss arbitrary: out)
  case (Cons ps pss)
  have "add_profiles (ps @ qs) out = bind_go (add_profiles ps out) (add_profiles qs)" for qs out
  proof (induction ps arbitrary: out)
    case (Cons p ps)
    then show ?case by (cases "add_profile p out") simp_all
  qed simp
  then show ?case by (cases "add_profiles ps out") (simp_all add: Cons.IH)
qed simp

section \<open>The order of the inputs does not matter\<close>

lemma ordered_unique:
  assumes "ordered_blocks xs" "ordered_blocks ys" "\<And>pos. block_at xs pos = block_at ys pos"
  shows "xs = ys"
proof -
  have sub: "b \<in> set vs" if "b \<in> set us" "ordered_blocks us" "\<And>pos. block_at us pos = block_at vs pos" for b us vs
  proof -
    have "block_at vs (start_of b) = Some (shape_of b, Count b)" using block_at_member [OF that(2,1)] that(3) by simp
    then obtain c where "c \<in> set vs" "start_of c = start_of b" "shape_of c = shape_of b" "Count c = Count b"
      using block_at_Some by blast
    moreover then have "c = b" by (simp add: start_eq shape_eq)
    ultimately show ?thesis by simp
  qed
  have dist: "distinct (map start_of us)" "sorted (map start_of us)" if "ordered_blocks us" for us
    using that strict_sorted_iff by (auto simp: ordered_blocks_def)
  have "set xs = set ys"
    using sub [OF _ assms(1) assms(3)] sub [OF _ assms(2) assms(3) [symmetric]] by blast
  then have "mset xs = mset ys"
    using dist(1) [OF assms(1)] dist(1) [OF assms(2)] by (simp add: distinct_map set_eq_iff_mset_eq_distinct)
  then show ?thesis
    by (rule sorted_distinct_mset_unique [OF dist(2) [OF assms(1)] dist(2) [OF assms(2)] _ dist(1) [OF assms(1)]])
qed

lemma summarise_mset:
  assumes "mset es = mset fs" "\<And>d e. d \<in> set es \<Longrightarrow> e \<in> set es \<Longrightarrow> fst d = fst e"
  shows "summarise es = summarise fs"
proof (cases "es = []")
  case False
  then have "fs \<noteq> []" using assms(1) by auto
  have "set es = set fs" by (rule mset_eq_setD [OF assms(1)])
  then have "fst (hd es) = fst (hd fs)" using assms(2) False \<open>fs \<noteq> []\<close> by (metis hd_in_set)
  moreover have "sum_list (map snd es) = sum_list (map snd fs)" using assms(1) by (metis mset_map sum_mset_sum_list)
  ultimately show ?thesis using False \<open>fs \<noteq> []\<close> by (cases es; cases fs) (auto simp: summarise_def)
qed (use assms(1) in simp)

lemma entries_shape:
  assumes "consistent (set ps)" "d \<in> set (entries ps f pos)" "e \<in> set (entries ps f pos)"
  shows "fst d = fst e"
proof -
  obtain p q where pq: "p \<in> set ps" "FileName p = f" "block_at (Blocks p) pos = Some (fst d, snd d)"
      "q \<in> set ps" "FileName q = f" "block_at (Blocks q) pos = Some (fst e, snd e)"
    using assms(2,3) by (auto simp: entries_def List.map_filter_def split: if_splits)
  then have "same_source (Blocks p) (Blocks q)" using assms(1) by (simp add: consistent_def)
  then show ?thesis
    using block_at_Some [OF pq(3)] block_at_Some [OF pq(6)] unfolding same_source_def by metis
qed

lemma entries_mset: "mset ps = mset qs \<Longrightarrow> mset (entries ps f pos) = mset (entries qs f pos)"
  by (simp add: entries_def List.map_filter_def mset_map mset_filter)

lemma collected_same:
  assumes "collected ps out" "collected qs out'" "mset ps = mset qs" "consistent (set ps)"
    and "p \<in> set out" "q \<in> set out'" "FileName p = FileName q"
  shows "Blocks p = Blocks q"
proof (rule ordered_unique)
  show "ordered_blocks (Blocks p)" "ordered_blocks (Blocks q)"
    using collectedD(1) [OF assms(1,5) refl] collectedD(1) [OF assms(2,6) refl] by blast+
  fix pos
  have "summarise (entries ps (FileName p) pos) = summarise (entries qs (FileName p) pos)"
    by (rule summarise_mset [OF entries_mset [OF assms(3)] entries_shape [OF assms(4)]])
  then show "block_at (Blocks p) pos = block_at (Blocks q) pos"
    using collectedD(2) [OF assms(1,5) refl] collectedD(2) [OF assms(2,6) refl] assms(7) by simp
qed

text \<open>
  C34: What the tool prints does not depend on the order of its arguments or of the profiles in
  them, nor on the order in which its map is visited. For profiles with ordered blocks that were
  made from the same sources it never panics, and the profiles it prints have, for every block of
  every file, the sum of the counts of all inputs (as a 64-bit number).
\<close>

theorem cover_order_irrelevant:
  assumes "mset (concat pss) = mset (concat qss)" "\<forall>p\<in>set (concat pss). proper p" "consistent (set (concat pss))"
    and "fair ord" "fair ord'"
  shows "cover_main ord (map Inr pss) = cover_main ord' (map Inr qss) \<and>
    (\<exists>out. read_inputs (map Inr pss) [] = Ret out \<and> collected (concat pss) out \<and>
      cover_main ord (map Inr pss) = Ret (print_profiles (sort_byFileName (permute ord out))))"
proof -
  have sets: "set (concat pss) = set (concat qss)" by (rule mset_eq_setD [OF assms(1)])
  have empty: "collected [] []" by (simp add: collected_def)
  obtain out where out: "read_inputs (map Inr pss) [] = Ret out" "collected (concat pss) out"
    using add_profiles_collected [OF empty, of "concat pss"] assms(2,3) by (auto simp: read_inputs_concat)
  obtain out' where out': "read_inputs (map Inr qss) [] = Ret out'" "collected (concat qss) out'"
    using add_profiles_collected [OF empty, of "concat qss"] assms(2,3) unfolding sets read_inputs_concat by auto
  let ?l = "sort_byFileName (permute ord out)" and ?l' = "sort_byFileName (permute ord' out')"
  have sl: "set ?l = set out" "set ?l' = set out'"
    by (simp_all add: sort_byFileName_def gosort.sort_set set_permute assms(4,5))
  have "mset (map FileName ?l) = mset (map FileName out)" "mset (map FileName ?l') = mset (map FileName out')"
    by (simp_all add: sort_byFileName_def gosort.sort_perm mset_permute assms(4,5) mset_map)
  then have dl: "distinct (map FileName ?l)" "distinct (map FileName ?l')"
    using out(2) out'(2) unfolding collected_def by (metis mset_eq_imp_distinct_iff)+
  have "set (map FileName ?l) = set (map FileName ?l')"
    using out(2) out'(2) sets unfolding set_map sl by (simp add: collected_def)
  then have names: "map FileName ?l = map FileName ?l'"
    using dl gosort.sort_sorted [of FileName] unfolding sort_byFileName_def by (metis sorted_distinct_set_unique)
  have "Blocks (?l ! i) = Blocks (?l' ! i)" if "i < length ?l" for i
  proof -
    have "i < length ?l'" using names that by (metis length_map)
    then have "?l ! i \<in> set out" "?l' ! i \<in> set out'" "FileName (?l ! i) = FileName (?l' ! i)"
      using that sl nth_mem names by (blast, blast, metis nth_map)
    then show ?thesis using collected_same [OF out(2) out'(2) assms(1,3)] by blast
  qed
  then have "map Blocks ?l = map Blocks ?l'"
    using names by (intro nth_equalityI) (auto dest: map_eq_imp_length_eq)
  then have "print_profiles ?l = print_profiles ?l'"
  proof -
    have "print_profiles ps = ''mode: atomic'' @ [CHR 0x0A] @
        concat (map (\<lambda>(f, bs). concat (map (print_block f) bs)) (zip (map FileName ps) (map Blocks ps)))" for ps
      by (simp add: print_profiles_def zip_map_map map_zip_map2 zip_same_conv_map o_def)
    then show ?thesis using names \<open>map Blocks ?l = map Blocks ?l'\<close> by simp
  qed
  then show ?thesis using out out' by (simp add: cover_main_def)
qed

definition demo_profile :: "int \<Rightarrow> Profile" where
  "demo_profile n = \<lparr>FileName = ''ring.go'', Mode = ''set'', Blocks =
     [\<lparr>StartLine = 1, StartCol = 1, EndLine = 3, EndCol = 2, NumStmt = 2, Count = n\<rparr>]\<rparr>"

theorem cover_order_irrelevant_witness:
  "cover_main in_order (map Inr [[demo_profile 1], [demo_profile 2]]) =
     cover_main in_reverse (map Inr [[demo_profile 2], [demo_profile 1]])"
  by (rule cover_order_irrelevant [THEN conjunct1])
    (auto simp: demo_profile_def proper_def consistent_def same_source_def shape_of_def ordered_blocks_def int64_def)

end
