(* ===== verification/Wcloud.thy ===== *)
theory Wcloud
  imports Go_Std "HOL-Library.Sublist"
begin

text \<open>
  The command line client of the deployment service (\<open>tools/cmd/wcloud\<close>): the requests of the
  client (\<open>client.go\<close>) and the commands that make them (\<open>cli.go\<close>), with the parsing of flags
  by the \<open>flag\<close> package. The transport, the JSON and YAML codecs, the clock, the current user and
  the file system are arguments.
\<close>

section \<open>Data\<close>

record Deployment =
  dp_ID :: string
  dp_CreatedAt :: int
  dp_ImageName :: string
  dp_Version :: string
  dp_Priority :: int
  dp_State :: string
  dp_TriggeringUser :: string
  dp_IntendedServices :: "string list"

record NotificationConfig =
  SlackWebhookURL :: string
  SlackUsername :: string
  MessageTemplate :: string

record Config =
  RepoURL :: string
  RepoPath :: string
  RepoBranch :: string
  RepoKey :: string
  KubeconfigPath :: string
  Notifications :: "NotificationConfig list"
  ConfigFileBlackList :: "string list"
  CommitMessageTemplate :: string

record WClient =
  wc_token :: string
  wc_baseURL :: string

record WRequest =
  wr_Method :: string
  wr_URL :: string
  wr_Authorization :: string
  wr_Body :: bytes

record WResponse =
  ws_StatusCode :: int
  ws_Status :: string
  ws_Body :: bytes

text \<open>\<open>http.DefaultClient.Do\<close> and the codecs; \<open>'w\<close> is the state of the service.\<close>

type_synonym 'w do_request = "WRequest \<Rightarrow> 'w \<Rightarrow> (err + WResponse) \<times> 'w"

record codecs =
  encode_Deployment :: "Deployment \<Rightarrow> err + bytes"
  decode_Deployments :: "bytes \<Rightarrow> err + Deployment list"
  encode_Config :: "Config \<Rightarrow> err + bytes"
  decode_Config :: "bytes \<Rightarrow> err + Config"
  yaml_Config :: "bytes \<Rightarrow> err + Config"
  yaml_Marshal :: "Config \<Rightarrow> err + bytes"

section \<open>The client\<close>

definition NewClient :: "string \<Rightarrow> string \<Rightarrow> WClient" where
  "NewClient token baseURL = \<lparr>wc_token = token, wc_baseURL = baseURL\<rparr>"

text \<open>\<open>NewRequest\<close> is the validation that \<open>http.NewRequest\<close> does of the method and the URL.\<close>

definition newRequest :: "(string \<Rightarrow> string \<Rightarrow> err option) \<Rightarrow> WClient \<Rightarrow> string \<Rightarrow> string \<Rightarrow> bytes \<Rightarrow> err + WRequest" where
  "newRequest NewRequest c method path body =
     (case NewRequest method (wc_baseURL c @ path) of
        Some e \<Rightarrow> Inl e
      | None \<Rightarrow> Inr \<lparr>wr_Method = method, wr_URL = wc_baseURL c @ path,
                     wr_Authorization = ''Scope-Probe token='' @ wc_token c, wr_Body = body\<rparr>)"

definition status_error :: "WResponse \<Rightarrow> err" where
  "status_error res = Err (''Error making request: '' @ ws_Status res)"

text \<open>Build a request, send it and require a status code.\<close>

definition exchange ::
  "(string \<Rightarrow> string \<Rightarrow> err option) \<Rightarrow> 'w do_request \<Rightarrow> WClient \<Rightarrow> string \<Rightarrow> string \<Rightarrow> bytes \<Rightarrow> int \<Rightarrow> 'w \<Rightarrow> (err + WResponse) \<times> 'w" where
  "exchange NewRequest send c method path body code w =
     (case newRequest NewRequest c method path body of
        Inl e \<Rightarrow> (Inl e, w)
      | Inr req \<Rightarrow>
     (case send req w of
        (Inl e, w') \<Rightarrow> (Inl e, w')
      | (Inr res, w') \<Rightarrow> (if ws_StatusCode res \<noteq> code then Inl (status_error res) else Inr res, w')))"

definition Deploy ::
  "codecs \<Rightarrow> (string \<Rightarrow> string \<Rightarrow> err option) \<Rightarrow> 'w do_request \<Rightarrow> WClient \<Rightarrow> Deployment \<Rightarrow> 'w \<Rightarrow> err option \<times> 'w" where
  "Deploy C NewRequest send c deployment w =
     (case encode_Deployment C deployment of
        Inl e \<Rightarrow> (Some e, w)
      | Inr buf \<Rightarrow>
     (case exchange NewRequest send c ''POST'' ''/api/deploy/deploy'' buf 204 w of
        (Inl e, w') \<Rightarrow> (Some e, w')
      | (Inr res, w') \<Rightarrow> (None, w')))"

definition time_range :: "int \<Rightarrow> int \<Rightarrow> string" where
  "time_range from through = ''?from='' @ show_int from @ ''&through='' @ show_int through"

definition GetDeployments ::
  "codecs \<Rightarrow> (string \<Rightarrow> string \<Rightarrow> err option) \<Rightarrow> 'w do_request \<Rightarrow> WClient \<Rightarrow> int \<Rightarrow> int \<Rightarrow> 'w \<Rightarrow> (err + Deployment list) \<times> 'w" where
  "GetDeployments C NewRequest send c from through w =
     (case exchange NewRequest send c ''GET'' (''/api/deploy/deploy'' @ time_range from through) [] 200 w of
        (Inl e, w') \<Rightarrow> (Inl e, w')
      | (Inr res, w') \<Rightarrow> (decode_Deployments C (ws_Body res), w'))"

definition GetEvents ::
  "(string \<Rightarrow> string \<Rightarrow> err option) \<Rightarrow> 'w do_request \<Rightarrow> WClient \<Rightarrow> int \<Rightarrow> int \<Rightarrow> 'w \<Rightarrow> (err + bytes) \<times> 'w" where
  "GetEvents NewRequest send c from through w =
     (case exchange NewRequest send c ''GET'' (''/api/deploy/event'' @ time_range from through) [] 200 w of
        (Inl e, w') \<Rightarrow> (Inl e, w')
      | (Inr res, w') \<Rightarrow> (Inr (ws_Body res), w'))"

definition GetConfig ::
  "codecs \<Rightarrow> (string \<Rightarrow> string \<Rightarrow> err option) \<Rightarrow> 'w do_request \<Rightarrow> WClient \<Rightarrow> 'w \<Rightarrow> (err + Config) \<times> 'w" where
  "GetConfig C NewRequest send c w =
     (case newRequest NewRequest c ''GET'' ''/api/config/deploy'' [] of
        Inl e \<Rightarrow> (Inl e, w)
      | Inr req \<Rightarrow>
     (case send req w of
        (Inl e, w') \<Rightarrow> (Inl e, w')
      | (Inr res, w') \<Rightarrow>
          (if ws_StatusCode res = 404 then Inl (Err ''No configuration uploaded yet.'')
           else if ws_StatusCode res \<noteq> 200 then Inl (status_error res)
           else decode_Config C (ws_Body res), w')))"

definition SetConfig ::
  "codecs \<Rightarrow> (string \<Rightarrow> string \<Rightarrow> err option) \<Rightarrow> 'w do_request \<Rightarrow> WClient \<Rightarrow> Config \<Rightarrow> 'w \<Rightarrow> err option \<times> 'w" where
  "SetConfig C NewRequest send c conf w =
     (case encode_Config C conf of
        Inl e \<Rightarrow> (Some e, w)
      | Inr buf \<Rightarrow>
     (case exchange NewRequest send c ''POST'' ''/api/config/deploy'' buf 204 w of
        (Inl e, w') \<Rightarrow> (Some e, w')
      | (Inr res, w') \<Rightarrow> (None, w')))"

definition GetLogs ::
  "(string \<Rightarrow> string \<Rightarrow> err option) \<Rightarrow> 'w do_request \<Rightarrow> WClient \<Rightarrow> string \<Rightarrow> 'w \<Rightarrow> (err + bytes) \<times> 'w" where
  "GetLogs NewRequest send c deployID w =
     (case exchange NewRequest send c ''GET'' (''/api/deploy/deploy/'' @ deployID @ ''/log'') [] 200 w of
        (Inl e, w') \<Rightarrow> (Inl e, w')
      | (Inr res, w') \<Rightarrow> (Inr (ws_Body res), w'))"

section \<open>Flags\<close>

text \<open>
  \<open>FlagSet.Parse\<close> for flags that take a value: \<open>-name value\<close>, \<open>-name=value\<close>, with one or two
  dashes; the first argument that is no flag ends the flags, and so does \<open>--\<close>. \<open>defs\<close> has for
  every defined flag whether its \<open>Set\<close> accepts a value; the first refused value is an error.
\<close>

fun split_eq :: "string \<Rightarrow> string \<times> string option" where
  "split_eq [] = ([], None)"
| "split_eq (c # cs) = (if c = CHR ''='' then ([], Some cs) else (case split_eq cs of (n, v) \<Rightarrow> (c # n, v)))"

definition flag_name :: "string \<Rightarrow> string" where
  "flag_name s = (if prefix ''--'' s then drop 2 s else drop 1 s)"

definition is_flag :: "string \<Rightarrow> bool" where
  "is_flag s \<longleftrightarrow> length s \<ge> 2 \<and> hd s = CHR ''-''"

fun flags_Parse :: "(string \<rightharpoonup> (string \<Rightarrow> bool)) \<Rightarrow> string list \<Rightarrow> (string \<rightharpoonup> string) \<Rightarrow> err + (string \<rightharpoonup> string) \<times> string list" where
  "flags_Parse defs [] vals = Inr (vals, [])"
| "flags_Parse defs (s # args) vals =
     (if \<not> is_flag s then Inr (vals, s # args)
      else if s = ''--'' then Inr (vals, args)
      else
        let text = flag_name s
        in if text = [] \<or> hd text = CHR ''-'' \<or> hd text = CHR ''='' then Inl (Err (''bad flag syntax: '' @ s))
           else
             (case split_eq text of (name, v) \<Rightarrow>
                case defs name of
                  None \<Rightarrow> Inl (Err (''flag provided but not defined: -'' @ name))
                | Some accepts \<Rightarrow>
                  (case v of
                     Some value \<Rightarrow>
                       if accepts value then flags_Parse defs args (vals(name \<mapsto> value))
                       else Inl (Err (''invalid value for flag -'' @ name))
                   | None \<Rightarrow>
                  (case args of
                     [] \<Rightarrow> Inl (Err (''flag needs an argument: -'' @ name))
                   | value # rest \<Rightarrow>
                       if accepts value then flags_Parse defs rest (vals(name \<mapsto> value))
                       else Inl (Err (''invalid value for flag -'' @ name))))))"

text \<open>\<open>strings.SplitN(s, ":", 2)\<close>.\<close>

fun split_colon :: "string \<Rightarrow> string list" where
  "split_colon [] = [[]]"
| "split_colon (c # cs) = (if c = CHR '':'' then [[], cs] else (case split_colon cs of p # ps \<Rightarrow> (c # p) # ps | [] \<Rightarrow> [[c]]))"

section \<open>The commands\<close>

text \<open>A command prints its usage or a result, or fails with exit status 1.\<close>

datatype outcome = Usage | ExitUsage | Printed string | ExitErr string | Done

definition env_or :: "(string \<rightharpoonup> string) \<Rightarrow> string \<Rightarrow> string \<Rightarrow> string" where
  "env_or environ key def = (case environ key of Some v \<Rightarrow> v | None \<Rightarrow> def)"

text \<open>
  The flag \<open>-service\<close> is registered on the global flag set, not on the one that is parsed: the
  parsed set has only \<open>-u\<close>, and the list of services stays empty.
\<close>

definition deploy ::
  "codecs \<Rightarrow> (string \<Rightarrow> string \<Rightarrow> err option) \<Rightarrow> 'w do_request \<Rightarrow> (err + string) \<Rightarrow> WClient \<Rightarrow> string list \<Rightarrow> 'w \<Rightarrow> outcome \<times> 'w" where
  "deploy C NewRequest send current c args w =
     (case flags_Parse [''u'' \<mapsto> \<lambda>_. True] args Map.empty of
        Inl e \<Rightarrow> (Usage, w)
      | Inr (vals, rest) \<Rightarrow>
          (case rest of
             [img] \<Rightarrow>
               (case split_colon img of
                  name # version # _ \<Rightarrow>
                    (case (if env_or vals ''u'' [] = [] then current else Inr (env_or vals ''u'' [])) of
                       Inl e \<Rightarrow> (ExitErr (msg e), w)
                     | Inr username \<Rightarrow>
                    (case Deploy C NewRequest send c
                            \<lparr>dp_ID = [], dp_CreatedAt = 0, dp_ImageName = name, dp_Version = version, dp_Priority = 0,
                             dp_State = [], dp_TriggeringUser = username, dp_IntendedServices = []\<rparr> w of
                       (Some e, w') \<Rightarrow> (ExitErr (msg e), w')
                     | (None, w') \<Rightarrow> (Done, w')))
                | _ \<Rightarrow> (Usage, w))
           | _ \<Rightarrow> (Usage, w)))"

text \<open>
  \<open>render\<close> is the table writer and \<open>ParseSince\<close> the \<open>ParseDuration\<close> of the \<open>time\<close> package.
  Times and durations are nanoseconds here; \<open>Unix\<close> rounds down to seconds.
\<close>

definition Unix_seconds :: "int \<Rightarrow> int" where
  "Unix_seconds ns = ns div 1000000000"

definition since_flag :: "(string \<Rightarrow> int option) \<Rightarrow> string list \<Rightarrow> int option" where
  "since_flag ParseSince args =
     (case flags_Parse [''since'' \<mapsto> \<lambda>v. ParseSince v \<noteq> None] args Map.empty of
        Inl e \<Rightarrow> None
      | Inr (vals, rest) \<Rightarrow> (case vals ''since'' of None \<Rightarrow> Some (7 * 24 * 3600 * 1000000000) | Some v \<Rightarrow> ParseSince v))"

definition list_cmd ::
  "codecs \<Rightarrow> (string \<Rightarrow> string \<Rightarrow> err option) \<Rightarrow> 'w do_request \<Rightarrow> (string \<Rightarrow> int option) \<Rightarrow> (Deployment list \<Rightarrow> string) \<Rightarrow> int \<Rightarrow>
   WClient \<Rightarrow> string list \<Rightarrow> 'w \<Rightarrow> outcome \<times> 'w" where
  "list_cmd C NewRequest send ParseSince render now c args w =
     (case since_flag ParseSince args of
        None \<Rightarrow> (Usage, w)
      | Some since \<Rightarrow>
          (case GetDeployments C NewRequest send c (Unix_seconds (now - since)) (Unix_seconds now) w of
             (Inl e, w') \<Rightarrow> (ExitErr (msg e), w')
           | (Inr ds, w') \<Rightarrow> (Printed (render ds), w')))"

definition events_cmd ::
  "(string \<Rightarrow> string \<Rightarrow> err option) \<Rightarrow> 'w do_request \<Rightarrow> (string \<Rightarrow> int option) \<Rightarrow> int \<Rightarrow> WClient \<Rightarrow> string list \<Rightarrow> 'w \<Rightarrow> outcome \<times> 'w" where
  "events_cmd NewRequest send ParseSince now c args w =
     (case since_flag ParseSince args of
        None \<Rightarrow> (Usage, w)
      | Some since \<Rightarrow>
          (case GetEvents NewRequest send c (Unix_seconds (now - since)) (Unix_seconds now) w of
             (Inl e, w') \<Rightarrow> (ExitErr (msg e), w')
           | (Inr b, w') \<Rightarrow> (Printed (''events:  '' @ b), w')))"

text \<open>\<open>filepath.Ext\<close>: from the last dot of the last path element.\<close>

definition file_Ext :: "string \<Rightarrow> string" where
  "file_Ext path =
     (let base = rev (takeWhile (\<lambda>c. c \<noteq> CHR ''/'') (rev path)); after = takeWhile (\<lambda>c. c \<noteq> CHR ''.'') (rev base)
      in if CHR ''.'' \<in> set base then CHR ''.'' # rev after else [])"

definition loadConfig :: "codecs \<Rightarrow> (string \<Rightarrow> err + bytes) \<Rightarrow> string \<Rightarrow> err + Config" where
  "loadConfig C ReadFile filename =
     (case ReadFile filename of
        Inl e \<Rightarrow> Inl e
      | Inr buf \<Rightarrow>
          if file_Ext filename = ''.yaml'' \<or> file_Ext filename = ''.yml'' then yaml_Config C buf else decode_Config C buf)"

definition config_cmd ::
  "codecs \<Rightarrow> (string \<Rightarrow> string \<Rightarrow> err option) \<Rightarrow> 'w do_request \<Rightarrow> (string \<Rightarrow> err + bytes) \<Rightarrow> WClient \<Rightarrow> string list \<Rightarrow> 'w \<Rightarrow> outcome \<times> 'w" where
  "config_cmd C NewRequest send ReadFile c args w =
     (case args of
        [] \<Rightarrow>
          (case GetConfig C NewRequest send c w of
             (Inl e, w') \<Rightarrow> (ExitErr (msg e), w')
           | (Inr conf, w') \<Rightarrow> (case yaml_Marshal C conf of Inl e \<Rightarrow> (ExitErr (msg e), w') | Inr buf \<Rightarrow> (Printed buf, w')))
      | [filename] \<Rightarrow>
          (case loadConfig C ReadFile filename of
             Inl e \<Rightarrow> (ExitErr (''Error reading config: '' @ msg e), w)
           | Inr conf \<Rightarrow>
               (case SetConfig C NewRequest send c conf w of (Some e, w') \<Rightarrow> (ExitErr (msg e), w') | (None, w') \<Rightarrow> (Done, w')))
      | _ \<Rightarrow> (Usage, w))"

definition logs_cmd ::
  "(string \<Rightarrow> string \<Rightarrow> err option) \<Rightarrow> 'w do_request \<Rightarrow> WClient \<Rightarrow> string list \<Rightarrow> 'w \<Rightarrow> outcome \<times> 'w" where
  "logs_cmd NewRequest send c args w =
     (case args of
        [deployID] \<Rightarrow>
          (case GetLogs NewRequest send c deployID w of
             (Inl e, w') \<Rightarrow> (ExitErr (msg e), w')
           | (Inr b, w') \<Rightarrow> (Printed b, w'))
      | _ \<Rightarrow> (Usage, w))"

record 'w wcloud_env =
  we_codecs :: codecs
  we_NewRequest :: "string \<Rightarrow> string \<Rightarrow> err option"
  we_send :: "'w do_request"
  we_user :: "err + string"
  we_since :: "string \<Rightarrow> int option"
  we_render :: "Deployment list \<Rightarrow> string"
  we_now :: int
  we_ReadFile :: "string \<Rightarrow> err + bytes"
  we_environ :: "string \<rightharpoonup> string"

definition wcloud_main :: "'w wcloud_env \<Rightarrow> string list \<Rightarrow> 'w \<Rightarrow> outcome \<times> 'w" where
  "wcloud_main E argv w =
     (let c = NewClient (env_or (we_environ E) ''SERVICE_TOKEN'' []) (env_or (we_environ E) ''BASE_URL'' ''https://cloud.weave.works'')
      in case argv of
           [] \<Rightarrow> (ExitUsage, w)
         | [_] \<Rightarrow> (ExitUsage, w)
         | _ # cmd # args \<Rightarrow>
             if cmd = ''deploy'' then deploy (we_codecs E) (we_NewRequest E) (we_send E) (we_user E) c args w
             else if cmd = ''list'' then list_cmd (we_codecs E) (we_NewRequest E) (we_send E) (we_since E) (we_render E) (we_now E) c args w
             else if cmd = ''config'' then config_cmd (we_codecs E) (we_NewRequest E) (we_send E) (we_ReadFile E) c args w
             else if cmd = ''logs'' then logs_cmd (we_NewRequest E) (we_send E) c args w
             else if cmd = ''events'' then events_cmd (we_NewRequest E) (we_send E) (we_since E) (we_now E) c args w
             else (Usage, w))"

section \<open>Requests\<close>

text \<open>A transport that records the requests it is given.\<close>

definition recording :: "(WRequest \<Rightarrow> err + WResponse) \<Rightarrow> WRequest list do_request" where
  "recording answer r log = (answer r, log @ [r])"

definition authorised :: "string \<Rightarrow> string \<Rightarrow> bool \<Rightarrow> WRequest \<Rightarrow> bool" where
  "authorised token base post r \<longleftrightarrow>
     wr_Authorization r = ''Scope-Probe token='' @ token \<and> prefix (base @ ''/api/'') (wr_URL r) \<and>
     wr_Method r = (if post then ''POST'' else ''GET'')"

definition at_most_one :: "(WRequest \<Rightarrow> bool) \<Rightarrow> WRequest list \<Rightarrow> WRequest list \<Rightarrow> bool" where
  "at_most_one P log log' \<longleftrightarrow> log' = log \<or> (\<exists>r. log' = log @ [r] \<and> P r)"

lemma at_most_one_refl [simp]: "at_most_one P log log"
  by (simp add: at_most_one_def)

lemma exchange_requests:
  assumes "exchange NR (recording answer) c method path body code log = (res, log')" "prefix ''/api/'' path"
    and "method = (if post then ''POST'' else ''GET'')"
  shows "at_most_one (authorised (wc_token c) (wc_baseURL c) post) log log'"
  using assms
  by (auto simp: exchange_def newRequest_def recording_def at_most_one_def authorised_def prefix_def split: option.splits sum.splits if_splits)

lemma client_requests:
  "at_most_one (authorised (wc_token c) (wc_baseURL c) True) log (snd (Deploy C NR (recording answer) c d log))"
  "at_most_one (authorised (wc_token c) (wc_baseURL c) False) log (snd (GetDeployments C NR (recording answer) c f t log))"
  "at_most_one (authorised (wc_token c) (wc_baseURL c) False) log (snd (GetEvents NR (recording answer) c f t log))"
  "at_most_one (authorised (wc_token c) (wc_baseURL c) False) log (snd (GetConfig C NR (recording answer) c log))"
  "at_most_one (authorised (wc_token c) (wc_baseURL c) True) log (snd (SetConfig C NR (recording answer) c conf log))"
  "at_most_one (authorised (wc_token c) (wc_baseURL c) False) log (snd (GetLogs NR (recording answer) c i log))"
proof -
  show "at_most_one (authorised (wc_token c) (wc_baseURL c) True) log (snd (Deploy C NR (recording answer) c d log))"
    "at_most_one (authorised (wc_token c) (wc_baseURL c) False) log (snd (GetDeployments C NR (recording answer) c f t log))"
    "at_most_one (authorised (wc_token c) (wc_baseURL c) False) log (snd (GetEvents NR (recording answer) c f t log))"
    "at_most_one (authorised (wc_token c) (wc_baseURL c) True) log (snd (SetConfig C NR (recording answer) c conf log))"
    "at_most_one (authorised (wc_token c) (wc_baseURL c) False) log (snd (GetLogs NR (recording answer) c i log))"
    by (auto simp: Deploy_def GetDeployments_def GetEvents_def SetConfig_def GetLogs_def
        split: sum.splits prod.splits intro!: exchange_requests)
  show "at_most_one (authorised (wc_token c) (wc_baseURL c) False) log (snd (GetConfig C NR (recording answer) c log))"
    by (auto simp: GetConfig_def newRequest_def recording_def at_most_one_def authorised_def split: option.splits sum.splits)
qed

lemma at_most_one_snd: "at_most_one P log (snd x) \<Longrightarrow> x = (r, log') \<Longrightarrow> at_most_one P log log'"
  by simp

lemmas client_request = client_requests [THEN at_most_one_snd]

lemma command_requests:
  "at_most_one (authorised (wc_token c) (wc_baseURL c) True) log (snd (deploy C NR (recording answer) u c args log))"
  "at_most_one (authorised (wc_token c) (wc_baseURL c) False) log (snd (list_cmd C NR (recording answer) ps rd now c args log))"
  "at_most_one (authorised (wc_token c) (wc_baseURL c) False) log (snd (events_cmd NR (recording answer) ps now c args log))"
  "at_most_one (authorised (wc_token c) (wc_baseURL c) False) log (snd (logs_cmd NR (recording answer) c args log))"
  "at_most_one (authorised (wc_token c) (wc_baseURL c) (length args = 1)) log (snd (config_cmd C NR (recording answer) rf c args log))"
proof -
  show "at_most_one (authorised (wc_token c) (wc_baseURL c) True) log (snd (deploy C NR (recording answer) u c args log))"
    unfolding deploy_def by (auto split: sum.split prod.split list.split option.split dest: client_request(1))
  show "at_most_one (authorised (wc_token c) (wc_baseURL c) False) log (snd (list_cmd C NR (recording answer) ps rd now c args log))"
    "at_most_one (authorised (wc_token c) (wc_baseURL c) False) log (snd (events_cmd NR (recording answer) ps now c args log))"
    "at_most_one (authorised (wc_token c) (wc_baseURL c) False) log (snd (logs_cmd NR (recording answer) c args log))"
    unfolding list_cmd_def events_cmd_def logs_cmd_def
    by (auto split: sum.split prod.split list.split option.split dest: client_request(2,3,6))
  show "at_most_one (authorised (wc_token c) (wc_baseURL c) (length args = 1)) log (snd (config_cmd C NR (recording answer) rf c args log))"
    unfolding config_cmd_def by (auto split: sum.split prod.split list.split option.split dest: client_request(4,5))
qed

definition changes :: "string list \<Rightarrow> bool" where
  "changes argv \<longleftrightarrow> length argv \<ge> 2 \<and> (argv ! 1 = ''deploy'' \<or> argv ! 1 = ''config'' \<and> length argv = 3)"

text \<open>
  Every command of the deployment client sends at most one request, whatever the service
  answers. The request goes to an API path of the configured base URL and carries the configured
  token; it is a POST exactly for a deployment and for uploading a configuration, and a GET for
  every other command.
\<close>

lemma wcloud_one_request:
  assumes "we_send E = recording answer"
  shows "at_most_one (authorised (env_or (we_environ E) ''SERVICE_TOKEN'' [])
      (env_or (we_environ E) ''BASE_URL'' ''https://cloud.weave.works'') (changes argv)) log (snd (wcloud_main E argv log))"
proof (cases "\<exists>p cmd args. argv = p # cmd # args")
  case True
  then obtain p cmd args where argv: "argv = p # cmd # args" by blast
  define tok base where "tok = env_or (we_environ E) ''SERVICE_TOKEN'' []"
    and "base = env_or (we_environ E) ''BASE_URL'' ''https://cloud.weave.works''"
  have c: "wc_token (NewClient tok base) = tok" "wc_baseURL (NewClient tok base) = base" by (simp_all add: NewClient_def)
  have ch: "changes argv \<longleftrightarrow> cmd = ''deploy'' \<or> cmd = ''config'' \<and> length args = 1" by (simp add: changes_def argv)
  have "at_most_one (authorised tok base (changes argv)) log (snd (wcloud_main E argv log))"
    unfolding wcloud_main_def Let_def argv list.case assms ch [unfolded argv] tok_def [symmetric] base_def [symmetric]
    using command_requests [where c = "NewClient tok base", unfolded c] by auto
  then show ?thesis by (simp only: tok_def base_def)
next
  case False
  then have "argv = [] \<or> (\<exists>p. argv = [p])" by (metis list.exhaust)
  then show ?thesis by (auto simp: wcloud_main_def)
qed

definition demo_wcloud :: "WRequest list wcloud_env" where
  "demo_wcloud =
     \<lparr>we_codecs = \<lparr>encode_Deployment = (\<lambda>d. Inr (dp_ImageName d)), decode_Deployments = (\<lambda>b. Inr []), encode_Config = (\<lambda>c. Inr []),
        decode_Config = (\<lambda>b. Inl (Err ''eof'')), yaml_Config = (\<lambda>b. Inl (Err ''eof'')), yaml_Marshal = (\<lambda>c. Inr [])\<rparr>,
      we_NewRequest = (\<lambda>m u. None), we_send = recording (\<lambda>r. Inr \<lparr>ws_StatusCode = 204, ws_Status = ''204 No Content'', ws_Body = []\<rparr>),
      we_user = Inr ''ci'', we_since = (\<lambda>s. None), we_render = (\<lambda>ds. []), we_now = 0, we_ReadFile = (\<lambda>f. Inl (Err ''no file'')),
      we_environ = [''SERVICE_TOKEN'' \<mapsto> ''abc'']\<rparr>"

section \<open>Deploying\<close>

text \<open>An image and a version, for the user that the flag names, are what is deployed.\<close>

lemma split_colon_first: "CHR '':'' \<notin> set name \<Longrightarrow> split_colon (name @ CHR '':'' # version) = [name, version]"
  by (induction name) auto

lemma deploy_image:
  assumes "user \<noteq> []" "CHR '':'' \<notin> set name" "\<not> is_flag (name @ '':'' @ version)"
  shows "deploy C NR send current c [''-u'', user, name @ '':'' @ version] w =
    (case Deploy C NR send c
            \<lparr>dp_ID = [], dp_CreatedAt = 0, dp_ImageName = name, dp_Version = version, dp_Priority = 0,
             dp_State = [], dp_TriggeringUser = user, dp_IntendedServices = []\<rparr> w of
       (Some e, w') \<Rightarrow> (ExitErr (msg e), w')
     | (None, w') \<Rightarrow> (Done, w'))"
proof -
  have "flags_Parse [''u'' \<mapsto> \<lambda>_. True] [''-u'', user, name @ '':'' @ version] Map.empty = Inr ([''u'' \<mapsto> user], [name @ '':'' @ version])"
    using assms(3) by (simp add: is_flag_def flag_name_def)
  then show ?thesis using assms(1) split_colon_first [OF assms(2)] by (simp add: deploy_def env_or_def)
qed

text \<open>
  The documented flag \<open>-service\<close> is refused: the command prints its usage, sends nothing and
  the process exits successfully.
\<close>

lemma deploy_service_refused: "deploy C NR send current c (''-service'' # args) w = (Usage, w)"
  by (simp add: deploy_def is_flag_def flag_name_def)

end
