(* ===== verification/Socks_Proxy.thy ===== *)
theory Socks_Proxy
  imports Wcloud
begin

text \<open>
  The SOCKS proxy for development (\<open>tools/socks/main.go\<close>): hostname aliases from the command
  line, the resolver that applies them, and the proxy configuration that sends a browser's requests
  for matching hosts and aliases to the proxy. Name resolution, the SOCKS server and the
  evaluation of the configuration's host pattern are arguments.
\<close>

section \<open>Aliases\<close>

fun parse_aliases :: "string list \<Rightarrow> (string \<rightharpoonup> string) \<Rightarrow> (string \<rightharpoonup> string) option" where
  "parse_aliases [] aliases = Some aliases"
| "parse_aliases (a # as) aliases =
     (case split_colon a of
        [name, target] \<Rightarrow> parse_aliases as (aliases(name \<mapsto> target))
      | _ \<Rightarrow> None)"

definition aliasing_Resolve :: "(string \<rightharpoonup> string) \<Rightarrow> (string \<Rightarrow> err + 'ip) \<Rightarrow> string \<Rightarrow> err + 'ip" where
  "aliasing_Resolve aliases Resolve name = (case aliases name of Some alias \<Rightarrow> Resolve alias | None \<Rightarrow> Resolve name)"

text \<open>What \<open>FindProxyForURL\<close> of the generated file returns for a host.\<close>

definition pac_proxy :: "(string \<Rightarrow> string \<Rightarrow> bool) \<Rightarrow> string \<Rightarrow> (string \<rightharpoonup> string) \<Rightarrow> string \<Rightarrow> string" where
  "pac_proxy shExpMatch hostMatch aliases host =
     (if shExpMatch host hostMatch then ''SOCKS5 localhost:8000''
      else if aliases host \<noteq> None then ''SOCKS5 localhost:8000''
      else ''DIRECT'')"

section \<open>What the arguments mean\<close>

text \<open>
  If every argument is an alias, the last one given for a name counts, and an alias is applied
  once: its target is resolved as it is, even if it is itself an alias.
\<close>

lemma parse_aliases_last:
  assumes "\<forall>(n, t)\<in>set ps. CHR '':'' \<notin> set n"
  shows "parse_aliases (map (\<lambda>(n, t). n @ CHR '':'' # t) ps) m = Some (m ++ map_of (rev ps))"
  using assms
proof (induction ps arbitrary: m)
  case (Cons p ps)
  obtain n t where p: "p = (n, t)" by (cases p)
  have "split_colon (n @ CHR '':'' # t) = [n, t]" using Cons.prems p by (simp add: split_colon_first)
  then show ?case using Cons p by (simp add: map_add_upd_left [symmetric] map_add_def fun_eq_iff split: option.split)
qed simp

lemma alias_resolved:
  assumes "\<forall>(n, t)\<in>set ps. CHR '':'' \<notin> set n" "map_of (rev ps) host = Some target"
    and "parse_aliases (map (\<lambda>(n, t). n @ CHR '':'' # t) ps) Map.empty = Some aliases"
  shows "aliasing_Resolve aliases Resolve host = Resolve target" "pac_proxy sh hm aliases host = ''SOCKS5 localhost:8000''"
  using assms parse_aliases_last [OF assms(1), of Map.empty] by (simp_all add: aliasing_Resolve_def pac_proxy_def)

end
