(* ===== verification/Spec2Isabelle.thy ===== *)
theory Spec2Isabelle
  imports Store_Properties Put_Limiter Ring_Lookup Ring_Process Consul_Client
    Sample_Iterator Querier Distributor Server Ingester_Client Memcache_Client Query_Api
    Main_Program Web_Ui Ingester_Shutdown Durability Test_Runner Cover_Tool Wcloud Socks_Proxy
begin

text \<open>
  A verification development for Frankenstein, a horizontally scaled Prometheus: samples
  arrive at a \<^emph>\<open>distributor\<close>, which finds the responsible \<^emph>\<open>ingester\<close> on a consistent-hash
  \<^emph>\<open>ring\<close> kept in Consul and sends them there over HTTP; ingesters write \<^emph>\<open>chunks\<close> of samples to
  a \<^emph>\<open>chunk store\<close> (S3 for the data, DynamoDB for an index, memcache in front); a \<^emph>\<open>querier\<close> merges
  what the distributor and the chunk store return, behind the HTTP API and the pages of the UI. One
  binary runs as distributor or as ingester. Four small tools come with the repository: a test
  runner, a merger of coverage profiles, a client of the deployment service and a SOCKS proxy.

  \<^bold>\<open>How code becomes definitions.\<close> A Go function is a HOL function with the name it has in the
  source (a prefix or suffix where names clash). Errors are values \<open>Inl\<close> of a sum or
  \<open>Some\<close> of an option; \<open>'a go\<close> of \<open>Frank_Prelude\<close> adds panics (\<open>Panic\<close>) and goroutines that
  wait for ever (\<open>Blocked\<close>). The state of a service is threaded through the calls. Goroutines
  that are started in a loop and whose results are collected from a channel appear as a
  \<open>schedule\<close>, an argument that fixes the order of completion; theorems quantify over all fair
  schedules. The iteration order of a Go map is a schedule too. Machine integers are words
  where they wrap (\<open>32 word\<close> tokens and hashes, \<open>64 word\<close> fingerprints) and integers with
  \<open>wrap64\<close> where the code multiplies or adds times; \<open>sdiv\<close> is Go's truncating division.
  Third-party services and packages that are not under \<open>src/\<close>, or that are only called
  (protobuf, snappy, HTTP transport, Consul's API, the chunk decoder, \<open>regexp\<close>), are arguments of
  the definitions, and the laws they are assumed to satisfy are named hypotheses or locales.

  \<^bold>\<open>The theories.\<close>
  \<^item> \<open>Frank_Prelude\<close>: results, schedules, \<open>last_err\<close> and shared list lemmas; the collections
    \<open>go_simps\<close> and \<open>wf_intros\<close>.
  \<^item> \<open>Go_Std\<close>: \<open>sort.Search\<close> and \<open>sort.Sort\<close> behind the locales \<open>binary_search\<close> and \<open>go_sort\<close>,
    truncating division, decimal printing.
  \<^item> \<open>Labels\<close>, \<open>Time_Json\<close>: timestamps, metrics, fingerprints, matchers
    (\<open>prometheus/common/model\<close>, \<open>storage/metric/matcher.go\<close>).
  \<^item> \<open>User_Id\<close>: \<open>user/id.go\<close>.
  \<^item> \<open>Chunk_Sets\<close>, \<open>Chunk_Keys\<close>, \<open>Lex_Tuples\<close>: \<open>chunk/chunk.go\<close>, the sorted-slice operations and
    the index keys of \<open>chunk/chunk_store.go\<close>, and the tuple encoder; locale \<open>tuple_codec\<close>.
  \<^item> \<open>Aws_Api\<close>: the interfaces \<open>dynamodbClient\<close> and \<open>s3Client\<close>, their contracts \<open>index_service\<close> and
    \<open>object_store\<close>, the in-memory services of \<open>go-mockaws\<close> that fulfil them, and the page loop of
    the SDK.
  \<^item> \<open>Chunk_Cache\<close>: \<open>chunk/chunk_cache.go\<close>; locale \<open>memcache_service\<close>.
  \<^item> \<open>Chunk_Read\<close>, \<open>Chunk_Write\<close>: \<open>Get\<close>, \<open>Put\<close>, \<open>CreateTables\<close> and everything they call in
    \<open>chunk/chunk_store.go\<close>.
  \<^item> \<open>Store_Lookup\<close>, \<open>Store_Update\<close>: correctness of the two paths relative to the contracts, in the
    locales \<open>chunk_index\<close> and \<open>chunk_store\<close>.
  \<^item> \<open>Json_Text\<close>, \<open>Chunk_Json\<close>: the JSON form of a chunk in the index, its round trip, and the
    interpretation of the contracts on the in-memory services.
  \<^item> \<open>Store_Refinement\<close>, \<open>Store_Properties\<close>: the store, with a cache, refines a set of chunks per
    user (locale \<open>cached_store\<close>); the properties of the store and of its helpers.
  \<^item> \<open>Put_Limiter\<close>: \<open>chunk/semaphore.go\<close> and the goroutines of \<open>putChunks\<close> and \<open>updateIndex\<close> as a
    step relation.
  \<^item> \<open>Ring_Desc\<close>, \<open>Ring_Lookup\<close>, \<open>Ring_Watch\<close>: \<open>ring/model.go\<close> and \<open>ring/ring.go\<close>.
  \<^item> \<open>Ring_Process\<close>: the goroutines of \<open>ring/ring.go\<close> and \<open>ring/ingester_lifecycle.go\<close> with \<open>New\<close>,
    \<open>Stop\<close> and \<open>Unregister\<close>, as step relations.
  \<^item> \<open>Consul_Client\<close>: \<open>ring/consul_client.go\<close>; the locales \<open>consul_kv\<close> and \<open>consul_live\<close> state what is
    relied on of Consul, an in-memory Consul fulfils them.
  \<^item> \<open>Ingester_Lifecycle\<close>: \<open>ring/ingester_lifecycle.go\<close>.
  \<^item> \<open>Distributor\<close>: \<open>distributor.go\<close>; locale \<open>read_ring\<close>.
  \<^item> \<open>Server\<close>, \<open>Ingester_Client\<close>: \<open>server.go\<close> and \<open>ingester_client.go\<close>.
  \<^item> \<open>Sample_Iterator\<close>, \<open>Querier\<close>: \<open>iterator.go\<close> and \<open>querier.go\<close>.
  \<^item> \<open>Memcache_Client\<close>: \<open>chunk/memcache_client.go\<close> and the server list of \<open>gomemcache\<close>, with the CRC-32
    it selects servers by; the update loop is a step relation.
  \<^item> \<open>Durations\<close>, \<open>Query_Api\<close>: \<open>api/api.go\<close> with the durations it parses: parameters, endpoints, responses, and
    the loop over the steps of a range query in \<open>promql/engine.go\<close>.
  \<^item> \<open>Web_Ui\<close>: \<open>ui.go\<close>.
  \<^item> \<open>Main_Program\<close>: \<open>cmd/frankenstein/main.go\<close> and \<open>NewAWSStore\<close>: flags, construction of the store and of the query
    pipeline, routes, start and shutdown. Here the parts meet: the client talks to an ingester
    process through its routes, and a query runs through distributor and chunk store.
  \<^item> \<open>Inverted_Index\<close>, \<open>Fp_Mapper\<close>, \<open>Memory_Series\<close>, \<open>Ingester_Storage\<close>: the ingester of the vendored
    \<open>storage/local/frankenstein.go\<close>, with what it uses of \<open>mapper.go\<close>, \<open>series.go\<close> and \<open>chunk.go\<close>: the index
    of labels (locale \<open>label_index\<close>), unique fingerprints, series of chunks, appending and querying. The
    encoding of chunks is an argument, \<open>chunk_impl\<close>, with the laws \<open>chunk_laws\<close>.
  \<^item> \<open>Ingester_Flush\<close>, \<open>Ingester_Shutdown\<close>: its flush of a series, as a step relation with appends in between, and
    the flush of all users up to \<open>Stop\<close>; the element that a goroutine sees of the loop variable it
    shares with others is an argument.
  \<^item> \<open>Cluster\<close>: distributor, clients, HTTP handlers and ingesters put together as \<open>setupDistributor\<close> and
    \<open>setupIngester\<close> of the main program do, with one ingester per host.
  \<^item> \<open>Durability\<close>: the same with flushes to the chunk store and queries that merge both, the whole
    way of a sample. The chunk store is an argument here, with laws (\<open>frank_put\<close>, \<open>frank_get\<close>) that
    \<open>Store_Properties\<close> shows of the one in \<open>chunk/chunk_store.go\<close> for chunks that it can index.
  \<^item> \<open>Test_Runner\<close>, \<open>Cover_Tool\<close>, \<open>Wcloud\<close>, \<open>Socks_Proxy\<close>: the programs under \<open>tools/\<close>; the parallel test
    runner is a step relation.

  \<^bold>\<open>What is shown.\<close> The chunk store answers every history of calls as the abstract store does,
  and the abstract store's query is the obvious one. A cluster of a distributor and ingesters, with
  everything between them, answers as one store of samples per user and metric, so writes and
  queries of one user's metric meet at the same ingester; with flushes in between, a query through
  the merging querier returns every accepted sample that it selects, and nothing else; lookups on the ring are consistent hashing; \<open>CAS\<close> on Consul is
  atomic, so registrations do not lose each other's updates and leave the ring as they found it; readers of the ring always see the last one Consul
  answered with, stopping the ring returns within four steps of its goroutine, and unregistering
  returns only when the ingester is out of the ring;
  what goes over HTTP arrives; the queriers return every sample once per source, in order of
  time. The ingester answers every history of pushes and queries as lists of samples per user and
  metric do; its index selects what a scan of all series selects, its fingerprints identify metrics;
  a flush keeps every accepted sample in memory or in the store, and \<open>Stop\<close> stores everything, if the
  goroutines see what they should. Caches on different nodes agree on the server of a key. The query API answers every request
  with a well-formed response made from the data of its user alone, and bounds the number of points
  of a range query; the process starts and stops its parts in an order that loses nothing. The test
  runner shares its hosts properly and completes; merging coverage profiles does not depend on
  their order. Several theorems show where the code does not do what it is meant to do: paged index
  responses are cut off after the first page, more than 100 chunks in a put deadlock, the cache
  can mix up chunks, series without labels are not indexed, stopping the memcache client hangs,
  the limit on range queries can be bypassed, flushes of the ingester overlap and then lose samples or
  leave out series at shutdown, and never remove the last chunk of a series, the default flags do not start, a test that needs
  too many hosts blocks the runner.

  \<^bold>\<open>Fuel and partiality.\<close> The retry loop of \<open>CAS\<close> has the ten rounds of the source.
  \<open>generateTokens\<close> is a partial function, shown to terminate when free tokens keep being drawn.
  The JSON parser has the length of its input as fuel, of which it uses at most one unit per
  byte. Watches run over a list of responses, the rounds of the loop so far. \<open>eval_times\<close> is a
  partial function: it is shown to return for steps of whole milliseconds, and not to for steps
  below one.

  \<^bold>\<open>Not modelled.\<close> Metrics, logging and the instrumentation and compression of HTTP handlers; the
  PromQL engine beyond its loop over steps (it is an argument of the API); the encodings of chunks
  (an argument of the ingester); eviction and persistence of the vendored storage, which the ingester
  does not use; the SOCKS server and the listeners of the proxy; flag parsing of the main program.
\<close>

end
